(* ===== verification/LaOS_Prelude.thy ===== *)
theory LaOS_Prelude
  imports Main "HOL-Library.Word"
begin

text \<open>
  Shared vocabulary of the development: the machine integer types of the C
  sources, the result type of operations that may call \<open>panic()\<close>, the fold
  combinators that stand for C \<open>for\<close> loops, and the generic facts on words,
  lists and page arithmetic that the component theories use.

  A C function that can panic returns a value of type \<open>'a res\<close>: \<open>Inl\<close> is a
  panic (with the beginning of its message), a loop that does not come to an end, or
  an access the C language leaves undefined; \<open>Inr\<close> is a normal return.  A C \<open>for\<close> loop over \<open>0 .. n-1\<close> is a fold over
  \<open>u64_upto n\<close>.
\<close>

unbundle bit_operations_syntax

type_synonym u8 = "8 word"
type_synonym u16 = "16 word"
type_synonym u32 = "32 word"
type_synonym u64 = "64 word"

named_theorems page_arith \<open>page and alignment arithmetic on machine words\<close>
named_theorems res_simps \<open>rewriting of results that may be a panic\<close>

section \<open>Results that may be a panic\<close>

datatype panic = Panic string | Diverge | Undefined

type_synonym 'a res = "panic + 'a"

definition bind_res :: "'a res \<Rightarrow> ('a \<Rightarrow> 'b res) \<Rightarrow> 'b res" where
  "bind_res m f = (case m of Inl e \<Rightarrow> Inl e | Inr x \<Rightarrow> f x)"

lemma bind_res_Inl [simp, res_simps]: "bind_res (Inl e) f = Inl e"
  by (simp add: bind_res_def)

lemma bind_res_Inr [simp, res_simps]: "bind_res (Inr x) f = f x"
  by (simp add: bind_res_def)

lemma bind_res_assoc: "bind_res (bind_res m f) g = bind_res m (\<lambda>x. bind_res (f x) g)"
  by (cases m) simp_all

lemma bind_res_Inr_iff: "bind_res m f = Inr y \<longleftrightarrow> (\<exists>x. m = Inr x \<and> f x = Inr y)"
  by (cases m) simp_all

lemma bind_res_InrE [elim]:
  assumes "bind_res m f = Inr y"
  obtains x where "m = Inr x" "f x = Inr y"
  using assms by (auto simp: bind_res_Inr_iff)

fun fold_res :: "('a \<Rightarrow> 's \<Rightarrow> 's res) \<Rightarrow> 'a list \<Rightarrow> 's \<Rightarrow> 's res" where
  "fold_res f [] s = Inr s"
| "fold_res f (x # xs) s = bind_res (f x s) (fold_res f xs)"

lemma fold_res_append:
  "fold_res f (xs @ ys) s = bind_res (fold_res f xs s) (fold_res f ys)"
proof (induction xs arbitrary: s)
  case (Cons x xs)
  then show ?case by (cases "f x s") simp_all
qed simp

lemma fold_res_invariant:
  assumes "fold_res f xs s = Inr s'" and "I s"
    and "\<And>x s s'. x \<in> set xs \<Longrightarrow> I s \<Longrightarrow> f x s = Inr s' \<Longrightarrow> I s'"
  shows "I s'"
  using assms
proof (induction xs arbitrary: s)
  case (Cons x xs)
  from Cons.prems(1) obtain t where t: "f x s = Inr t" "fold_res f xs t = Inr s'" by auto
  have "I t" using Cons.prems(2,3) t(1) by auto
  with t(2) Cons.prems(3) show ?case by (intro Cons.IH [of t]) auto
qed simp

lemma fold_invariant:
  assumes "I s" and "\<And>x s. x \<in> set xs \<Longrightarrow> I s \<Longrightarrow> I (f x s)"
  shows "I (fold f xs s)"
  using assms by (induction xs arbitrary: s) auto

lemma of_nat_sum_list_map: "of_nat (sum_list (map f xs)) = sum_list (map (\<lambda>x. of_nat (f x)) xs)"
  by (induction xs) simp_all

section \<open>Counting loops\<close>

lemma unat_of_nat_u64 [simp]: "n < 18446744073709551616 \<Longrightarrow> unat (of_nat n :: u64) = n"
  by (simp add: unat_of_nat)

lemma unat_u64_less: "unat (w :: u64) < 18446744073709551616"
  using unsigned_less [of w] by simp

lemma of_nat_u64_eq_iff:
  "m < 18446744073709551616 \<Longrightarrow> n < 18446744073709551616 \<Longrightarrow> (of_nat m :: u64) = of_nat n \<longleftrightarrow> m = n"
  by (metis unat_of_nat_u64)

lemma unat_u64_add:
  "unat (a :: u64) + unat b < 18446744073709551616 \<Longrightarrow> unat (a + b) = unat a + unat b"
  by (simp add: unat_word_ariths)

lemma unat_u64_succ: "(i :: u64) < j \<Longrightarrow> unat (i + 1) = Suc (unat i)"
  using unat_u64_less [of j] by (subst unat_u64_add) (simp_all add: word_less_nat_alt)

lemma u64_less_succ_iff: "(i :: u64) < j \<Longrightarrow> k < i + 1 \<longleftrightarrow> k < i \<or> k = i"
  by (auto simp: word_less_nat_alt unat_u64_succ less_Suc_eq word_unat_eq_iff)

definition u64_upto :: "u64 \<Rightarrow> u64 list" where
  "u64_upto n = map of_nat [0..<unat n]"

lemma set_u64_upto [simp]: "set (u64_upto n) = {i. i < n}"
proof -
  have "i \<in> of_nat ` {0..<unat n}" if "i < n" for i
    using that by (intro image_eqI [of _ _ "unat i"]) (auto simp: word_less_nat_alt)
  moreover have "(of_nat k :: u64) < n" if "k < unat n" for k
    using that less_trans [OF that unat_u64_less] by (simp add: word_less_nat_alt)
  ultimately show ?thesis by (auto simp: u64_upto_def)
qed

lemma distinct_u64_upto [simp]: "distinct (u64_upto n)"
proof -
  have "inj_on (of_nat :: nat \<Rightarrow> u64) {0..<unat n}"
    using unat_u64_less [of n] by (intro inj_onI) (simp add: of_nat_u64_eq_iff)
  then show ?thesis by (simp add: u64_upto_def distinct_map)
qed

lemma length_u64_upto [simp]: "length (u64_upto n) = unat n"
  by (simp add: u64_upto_def)

lemma card_u64_less: "card {i :: u64. i < n} = unat n"
  using distinct_card [OF distinct_u64_upto, of n] by simp

lemma u64_upto_0 [simp]: "u64_upto 0 = []"
  by (simp add: u64_upto_def)

lemma u64_upto_nth: "k < unat n \<Longrightarrow> u64_upto n ! k = of_nat k"
  by (simp add: u64_upto_def)

section \<open>Page arithmetic\<close>

abbreviation PAGE_SIZE :: u64 where "PAGE_SIZE \<equiv> 4096"

lemma and_page_mask [page_arith]: "(a :: u64) AND 4095 = a mod 4096"
  using take_bit_eq_mask [of 12 a] by (simp add: take_bit_eq_mod mask_eq_exp_minus_1)

lemma page_addr [page_arith]:
  assumes "unat s < 4503599627370496"
  shows "unat (s * 4096 :: u64) = unat s * 4096" "(s * 4096 :: u64) mod 4096 = 0"
    "(s * 4096 :: u64) div 4096 = s"
proof -
  show *: "unat (s * 4096 :: u64) = unat s * 4096"
    using assms by (simp add: unat_word_ariths)
  show "(s * 4096 :: u64) mod 4096 = 0" "(s * 4096 :: u64) div 4096 = s"
    using * by (simp_all add: word_unat_eq_iff unat_mod unat_div)
qed

lemma page_addr_exact [page_arith]: "(a :: u64) mod 4096 = 0 \<Longrightarrow> a div 4096 * 4096 = a"
  by (metis add.right_neutral word_mod_div_equality)

definition page_aligned :: "u64 \<Rightarrow> bool" where
  "page_aligned a \<longleftrightarrow> a mod 4096 = 0"

lemma page_aligned_mask [page_arith]: "a AND 4095 = 0 \<longleftrightarrow> page_aligned a"
  by (simp add: page_aligned_def and_page_mask)

lemma page_aligned_times [page_arith]: "unat s < 4503599627370496 \<Longrightarrow> page_aligned (s * 4096)"
  by (simp add: page_aligned_def page_addr)

lemma page_aligned_exact [page_arith]: "page_aligned a \<Longrightarrow> a div 4096 * 4096 = a"
  by (simp add: page_aligned_def page_addr_exact)

lemma page_aligned_eq_iff:
  "page_aligned a \<Longrightarrow> page_aligned b \<Longrightarrow> a div 4096 = b div 4096 \<longleftrightarrow> a = b"
  by (metis page_aligned_exact)

text \<open>The \<open>n\<close> consecutive words from \<open>s\<close> on, without wrapping around.\<close>

definition u64_range :: "u64 \<Rightarrow> u64 \<Rightarrow> u64 set" where
  "u64_range s n = {i. s \<le> i \<and> unat i < unat s + unat n}"

lemma u64_range_image:
  assumes "unat s + unat n \<le> 18446744073709551616"
  shows "(\<lambda>i. s + i) ` {i. i < n} = u64_range s n"
proof (rule set_eqI)
  fix x
  have "s \<le> s + i \<and> unat (s + i) < unat s + unat n" if "i < n" for i
    using that assms by (simp add: word_less_nat_alt word_le_nat_alt unat_u64_add)
  moreover have "x - s < n \<and> x = s + (x - s)" if "s \<le> x" "unat x < unat s + unat n"
    using that by (simp add: word_less_nat_alt unat_sub word_le_nat_alt)
  ultimately show "x \<in> (\<lambda>i. s + i) ` {i. i < n} \<longleftrightarrow> x \<in> u64_range s n"
    unfolding u64_range_def by blast
qed

lemma card_u64_range:
  assumes "unat s + unat n \<le> 18446744073709551616"
  shows "card (u64_range s n) = unat n"
proof -
  show ?thesis
    using u64_range_image [OF assms] card_u64_less [of n] by (metis add_left_imp_eq card_image inj_onI)
qed

lemma u64_range_1 [simp]: "u64_range s 1 = {s}"
  by (auto simp: u64_range_def word_le_nat_alt word_unat_eq_iff)

section \<open>Rounding down and up to a power of two\<close>

lemma and_not_mask_eq: "(x :: u64) AND NOT (mask n) = x - take_bit n x"
proof -
  have "x - take_bit n x = x AND NOT (take_bit n x)"
    by (intro disjunctive_diff_eq_and_not bit_eqI) (auto simp: bit_simps)
  also have "\<dots> = x AND NOT (mask n)"
    by (intro bit_eqI) (auto simp: bit_simps)
  finally show ?thesis by simp
qed

lemma unat_and_not_mask: "unat ((x :: u64) AND NOT (mask n)) = unat x - unat x mod 2 ^ n"
proof -
  have t: "unat (take_bit n x) = unat x mod 2 ^ n" 
    unfolding unsigned_take_bit_eq by (rule take_bit_eq_mod)
  then have "take_bit n x \<le> x" by (simp add: word_le_nat_alt)
  then show ?thesis by (simp add: and_not_mask_eq unat_sub t)
qed

text \<open>The C idiom \<open>(x + (a - 1)) & ~(a - 1)\<close> for the alignments 16 and 4096.\<close>

lemma align_down_nat: "(x :: nat) - x mod k = x div k * k"
  by (simp add: minus_mod_eq_div_mult)

lemma align_up_16:
  assumes "unat (x :: u64) + 15 < 18446744073709551616"
  shows "unat ((x + (16 - 1)) AND NOT (16 - 1)) = (unat x + 15) div 16 * 16"
proof -
  have m: "(16 - 1 :: u64) = mask 4" by (simp add: mask_eq_exp_minus_1)
  have "unat (x + mask 4) = unat x + 15"
    using assms by (simp add: mask_eq_exp_minus_1 unat_u64_add)
  then show ?thesis by (simp only: m unat_and_not_mask align_down_nat) simp
qed

lemma align_up_page:
  assumes "unat (x :: u64) + 4095 < 18446744073709551616"
  shows "unat ((x + 4096 - 1) AND NOT (4096 - 1)) = (unat x + 4095) div 4096 * 4096"
proof -
  have m: "(4096 - 1 :: u64) = mask 12" by (simp add: mask_eq_exp_minus_1)
  have "x + 4096 - 1 = x + 4095" by simp
  then have "unat (x + 4096 - 1) = unat x + 4095"
    using assms by (simp add: unat_u64_add)
  then show ?thesis by (simp only: m unat_and_not_mask align_down_nat) simp
qed

lemma align_up_le: "(x :: nat) \<le> (x + (k - 1)) div k * k" if "0 < k"
proof -
  have "(x + (k - 1)) mod k < k" using that by simp
  then show ?thesis using div_mult_mod_eq [of "x + (k - 1)" k] by linarith
qed

end
