(* ===== verification/Pmm.thy ===== *)
theory Pmm
  imports LaOS_Prelude
begin

text \<open>
  The physical page allocator (\<open>kernel/pmm.c\<close>, \<open>kernel/pmm.h\<close>).  The bitmap is
  the byte array behind \<open>pmm_bitmap\<close>, one bit per page, set when the page is in
  use; the counters are those of \<open>struct pmm_info\<close>.  Every public operation
  runs under \<open>pinfo.pmm_lock\<close> with interrupts off, so it is one transition here.

  The abstract view is \<open>free_pages\<close>, the set of page numbers whose bit is clear.
  The lemmas show that the search loop is first fit, that allocation and release
  act on that set as expected, that \<open>freed\<close> counts it, and that initialisation
  from a boot memory map establishes the invariant.  The locale \<open>page_provider\<close>
  is the contract the page-table and heap code rely on.
\<close>

section \<open>State\<close>

record pmm =
  pmm_bitmap :: "u64 \<Rightarrow> u8"
  pmm_total_pages :: u64
  pg_total :: u64
  pg_none :: u64
  pg_self :: u64
  pg_usable :: u64
  pg_freed :: u64

record pmm_memmap_entry =
  e_base :: u64
  e_length :: u64
  e_type :: int

abbreviation PMM_MEMMAP_USABLE :: int where "PMM_MEMMAP_USABLE \<equiv> 0"

definition BITMAP_SET :: "u64 \<Rightarrow> pmm \<Rightarrow> pmm" where
  "BITMAP_SET idx p = p\<lparr>pmm_bitmap := (pmm_bitmap p)
     (idx div 8 := pmm_bitmap p (idx div 8) OR push_bit (unat (idx mod 8)) 1)\<rparr>"

definition BITMAP_CLEAR :: "u64 \<Rightarrow> pmm \<Rightarrow> pmm" where
  "BITMAP_CLEAR idx p = p\<lparr>pmm_bitmap := (pmm_bitmap p)
     (idx div 8 := pmm_bitmap p (idx div 8) AND NOT (push_bit (unat (idx mod 8)) 1))\<rparr>"

definition BITMAP_TEST :: "u64 \<Rightarrow> pmm \<Rightarrow> bool" where
  "BITMAP_TEST idx p \<longleftrightarrow> pmm_bitmap p (idx div 8) AND push_bit (unat (idx mod 8)) 1 \<noteq> 0"

abbreviation PMM_LOWMEM_LIMIT :: u64 where "PMM_LOWMEM_LIMIT \<equiv> 0x100000"

abbreviation PMM_LOWMEM_PAGES :: u64 where "PMM_LOWMEM_PAGES \<equiv> 256"

definition pmm_idx_safe :: "pmm \<Rightarrow> u64 \<Rightarrow> bool" where
  "pmm_idx_safe p idx \<longleftrightarrow> idx \<ge> PMM_LOWMEM_PAGES \<and> idx < pmm_total_pages p"

definition pmm_account_alloc :: "u64 \<Rightarrow> pmm \<Rightarrow> pmm" where
  "pmm_account_alloc count p = p\<lparr>pg_freed := pg_freed p - count\<rparr>"

definition pmm_account_free :: "u64 \<Rightarrow> pmm \<Rightarrow> pmm" where
  "pmm_account_free count p = p\<lparr>pg_freed := pg_freed p + count\<rparr>"

definition pmm_mark_used :: "u64 \<Rightarrow> pmm \<Rightarrow> pmm res" where
  "pmm_mark_used idx p =
     (if idx \<ge> pmm_total_pages p then Inl (Panic ''pmm_mark_used: invalid page idx'')
      else Inr (BITMAP_SET idx p))"

definition pmm_mark_free :: "u64 \<Rightarrow> pmm \<Rightarrow> pmm res" where
  "pmm_mark_free idx p =
     (if idx \<ge> pmm_total_pages p then Inl (Panic ''pmm_mark_free: invalid page idx'')
      else Inr (BITMAP_CLEAR idx p))"

section \<open>Initialisation from the boot memory map\<close>

text \<open>\<open>pmm_scan\<close> zeroes the statistics and counts pages by type.\<close>

definition pmm_scan_entry :: "pmm_memmap_entry \<Rightarrow> pmm \<Rightarrow> pmm" where
  "pmm_scan_entry entry p =
     (let pages = e_length entry div PAGE_SIZE;
          p1 = p\<lparr>pg_total := pg_total p + pages\<rparr>
      in if e_type entry \<noteq> PMM_MEMMAP_USABLE then p1\<lparr>pg_none := pg_none p1 + pages\<rparr>
         else p1\<lparr>pg_usable := pg_usable p1 + pages\<rparr>)"

definition pmm_scan :: "pmm_memmap_entry list \<Rightarrow> pmm \<Rightarrow> pmm" where
  "pmm_scan mmap p =
     (let p0 = p\<lparr>pg_total := 0, pg_none := 0, pg_self := 0, pg_usable := 0, pg_freed := 0\<rparr>;
          p1 = fold pmm_scan_entry mmap p0
      in p1\<lparr>pg_freed := pg_usable p1\<rparr>)"

text \<open>
  \<open>pmm_pick_max_entry\<close> keeps the longest usable entry seen so far (the first of
  equals), its length, and the largest end address of any usable entry.
\<close>

definition pick_step ::
  "pmm_memmap_entry \<Rightarrow> pmm_memmap_entry option \<times> u64 \<times> u64 \<Rightarrow> pmm_memmap_entry option \<times> u64 \<times> u64"
where
  "pick_step entry st = (case st of (max_entry, max_length, max_end_addr) \<Rightarrow>
     if e_type entry \<noteq> PMM_MEMMAP_USABLE then st
     else let (me, ml) = (if e_length entry > max_length then (Some entry, e_length entry)
                          else (max_entry, max_length));
              end' = e_base entry + e_length entry
          in (me, ml, if end' > max_end_addr then end' else max_end_addr))"

definition pmm_pick_max_entry :: "pmm_memmap_entry list \<Rightarrow> (pmm_memmap_entry \<times> u64) res" where
  "pmm_pick_max_entry mmap =
     (case fold pick_step mmap (None, 0, 0) of
        (None, _, _) \<Rightarrow> Inl (Panic ''no usable entry'')
      | (Some e, _, max_end_addr) \<Rightarrow> Inr (e, max_end_addr))"

text \<open>
  \<open>pmm_install_bitmap\<close> sets \<open>pmm_total_pages\<close> and fills the bitmap bytes with
  \<open>0xff\<close>; the bytes behind the bitmap keep what memory holds there.
\<close>

definition pmm_install_bitmap :: "pmm_memmap_entry \<Rightarrow> u64 \<Rightarrow> pmm \<Rightarrow> (u64 \<times> pmm) res" where
  "pmm_install_bitmap max_entry max_end_addr p =
     (let total = (max_end_addr + (PAGE_SIZE - 1)) div PAGE_SIZE;
          bitmap_size = (total + 7) div 8;
          bitmap_pages = (bitmap_size + (PAGE_SIZE - 1)) div PAGE_SIZE
      in if e_length max_entry < bitmap_size
         then Inl (Panic ''PMM FATAL: largest usable region too small for bitmap'')
         else Inr (bitmap_pages,
                p\<lparr>pmm_total_pages := total,
                  pmm_bitmap := \<lambda>k. if k < bitmap_size then 0xff else pmm_bitmap p k\<rparr>))"

text \<open>
  \<open>pmm_release_usable\<close> frees the usable pages at or above 1 MiB.  The inner loop
  advances \<open>j\<close> by a page while \<open>j < length\<close>; its fuel is the number of iterations
  of a loop whose counter does not wrap, so \<open>Diverge\<close> is the endless loop of a
  length within a page of \<open>2 ^ 64\<close>.
\<close>

definition page_loop_fuel :: "pmm_memmap_entry \<Rightarrow> nat" where
  "page_loop_fuel entry = unat (e_length entry) div 4096 + 2"

definition release_page :: "pmm_memmap_entry \<Rightarrow> u64 \<Rightarrow> pmm \<times> u64 \<times> u64 \<Rightarrow> (pmm \<times> u64 \<times> u64) res" where
  "release_page entry j st = (case st of (p, dont_touch_page, lost_page) \<Rightarrow>
     let page_phys = e_base entry + j; idx = page_phys div PAGE_SIZE in
     if idx \<ge> pmm_total_pages p then Inr (p, dont_touch_page, lost_page + 1)
     else if page_phys < PMM_LOWMEM_LIMIT then Inr (p, dont_touch_page + 1, lost_page)
     else bind_res (pmm_mark_free idx p) (\<lambda>p'. Inr (p', dont_touch_page, lost_page)))"

fun release_entry ::
  "nat \<Rightarrow> pmm_memmap_entry \<Rightarrow> u64 \<Rightarrow> pmm \<times> u64 \<times> u64 \<Rightarrow> (pmm \<times> u64 \<times> u64) res"
where
  "release_entry 0 entry j st = Inl Diverge"
| "release_entry (Suc fuel) entry j st =
     (if j < e_length entry
      then bind_res (release_page entry j st) (release_entry fuel entry (j + PAGE_SIZE))
      else Inr st)"

definition pmm_release_usable :: "pmm_memmap_entry list \<Rightarrow> pmm \<Rightarrow> (pmm \<times> u64 \<times> u64) res" where
  "pmm_release_usable mmap p =
     fold_res (\<lambda>entry st. if e_type entry \<noteq> PMM_MEMMAP_USABLE then Inr st
                          else release_entry (page_loop_fuel entry) entry 0 st)
       mmap (p, 0, 0)"

fun protect_entry :: "nat \<Rightarrow> pmm_memmap_entry \<Rightarrow> u64 \<Rightarrow> pmm \<Rightarrow> pmm res" where
  "protect_entry 0 entry j p = Inl Diverge"
| "protect_entry (Suc fuel) entry j p =
     (if j < e_length entry then
        let idx = e_base entry div PAGE_SIZE + j div PAGE_SIZE in
        if idx \<ge> pmm_total_pages p then Inr p
        else if \<not> BITMAP_TEST idx p then Inl (Panic ''pmm_mark_protected: idx is FREE'')
        else protect_entry fuel entry (j + PAGE_SIZE) p
      else Inr p)"

definition pmm_mark_protected :: "pmm_memmap_entry list \<Rightarrow> u64 \<Rightarrow> pmm \<Rightarrow> pmm res" where
  "pmm_mark_protected mmap max_end_addr p =
     fold_res (\<lambda>entry p. if e_base entry \<ge> max_end_addr then Inr p
                         else if e_type entry = PMM_MEMMAP_USABLE then Inr p
                         else protect_entry (page_loop_fuel entry) entry 0 p) mmap p"

definition pmm_init_from_memmap :: "pmm_memmap_entry list \<Rightarrow> pmm \<Rightarrow> pmm res" where
  "pmm_init_from_memmap mmap p =
     bind_res (pmm_pick_max_entry mmap) (\<lambda>(max_entry, max_end_addr).
     bind_res (pmm_install_bitmap max_entry max_end_addr (pmm_scan mmap p)) (\<lambda>(bitmap_pages, p1).
     bind_res (pmm_release_usable mmap p1) (\<lambda>(p2, dont_touch_page, lost_page).
     let bitmap_page_start = e_base max_entry div PAGE_SIZE;
         p3 = p2\<lparr>pg_self := bitmap_pages,
                 pg_usable := pg_usable p2 - dont_touch_page - lost_page,
                 pg_freed := pg_freed p2 - dont_touch_page - lost_page - bitmap_pages\<rparr>
     in bind_res (fold_res (\<lambda>j q. if \<not> BITMAP_TEST (bitmap_page_start + j) q
                                  then pmm_mark_used (bitmap_page_start + j) q else Inr q)
                   (u64_upto bitmap_pages) p3)
          (pmm_mark_protected mmap max_end_addr))))"

section \<open>Allocation and release\<close>

text \<open>
  The scan of \<open>pmm_find_run\<close>: \<open>s\<close> is the start of the run being built and \<open>n\<close> its
  length so far; \<open>(uint64_t)-1\<close> reports that there is none.
\<close>

function find_run_loop :: "pmm \<Rightarrow> u64 \<Rightarrow> u64 \<Rightarrow> u64 \<Rightarrow> u64 \<Rightarrow> u64 \<Rightarrow> u64" where
  "find_run_loop p hi count i s n =
     (if i < hi then
        if \<not> BITMAP_TEST i p \<and> pmm_idx_safe p i then
          let s' = (if n = 0 then i else s); n' = n + 1 in
          if n' \<ge> count then s' else find_run_loop p hi count (i + 1) s' n'
        else find_run_loop p hi count (i + 1) s 0
      else - 1)"
  by pat_completeness auto
termination
  by (relation "measure (\<lambda>(p, hi, count, i, s, n). unat hi - unat i)")
    (auto simp: unat_u64_succ word_less_nat_alt)

definition pmm_find_run :: "pmm \<Rightarrow> u64 \<Rightarrow> u64 \<Rightarrow> u64 \<Rightarrow> u64" where
  "pmm_find_run p lo hi count = find_run_loop p hi count lo 0 0"

definition pmm_alloc_run :: "u64 \<Rightarrow> pmm \<Rightarrow> u64 \<times> pmm" where
  "pmm_alloc_run count p =
     (let start = pmm_find_run p 0 (pmm_total_pages p) count in
      if start = - 1 then (0, p)
      else (start * PAGE_SIZE,
            pmm_account_alloc count (fold (\<lambda>i. BITMAP_SET (start + i)) (u64_upto count) p)))"

definition pmm_alloc :: "pmm \<Rightarrow> u64 \<times> pmm" where
  "pmm_alloc p = pmm_alloc_run 1 p"

definition pmm_free :: "u64 \<Rightarrow> pmm \<Rightarrow> pmm res" where
  "pmm_free addr p =
     (if addr = 0 then Inr p
      else if addr AND (PAGE_SIZE - 1) \<noteq> 0 then Inl (Panic ''pmm_free: unaligned addr'')
      else let page_idx = addr div PAGE_SIZE in
        if page_idx \<ge> pmm_total_pages p then Inl (Panic ''pmm_free: invalid addr'')
        else if \<not> BITMAP_TEST page_idx p then Inl (Panic ''pmm_free: double free'')
        else Inr (pmm_account_free 1 (BITMAP_CLEAR page_idx p)))"

definition pmm_alloc_pages :: "u64 \<Rightarrow> pmm \<Rightarrow> u64 \<times> pmm" where
  "pmm_alloc_pages count p = (if count = 0 then (0, p) else pmm_alloc_run count p)"

definition pmm_free_pages :: "u64 \<Rightarrow> u64 \<Rightarrow> pmm \<Rightarrow> pmm res" where
  "pmm_free_pages ptr count p =
     (if ptr = 0 \<or> count = 0 then Inr p
      else let start = ptr div PAGE_SIZE in
        if start \<ge> pmm_total_pages p then Inl (Panic ''pmm_free_pages: invalid addr'')
        else if start + count > pmm_total_pages p then Inl (Panic ''pmm_free_pages: range exceeds total'')
        else bind_res
          (fold_res (\<lambda>i q. let idx = start + i in
               if \<not> BITMAP_TEST idx q then Inl (Panic ''pmm_free_pages: double free'')
               else Inr (BITMAP_CLEAR idx q)) (u64_upto count) p)
          (\<lambda>q. Inr (pmm_account_free count q)))"

section \<open>The bitmap as a set of free pages\<close>

declare find_run_loop.simps [simp del]

named_theorems pmm_frame \<open>fields an operation leaves alone\<close>

lemma unat_mod_8 [simp]: "unat ((i :: u64) mod 8) < 8"
  by (simp add: unat_mod)

lemma page_index_eq_iff: "(i :: u64) = j \<longleftrightarrow> i div 8 = j div 8 \<and> unat (i mod 8) = unat (j mod 8)"
  by (metis word_mod_div_equality word_unat_eq_iff)

lemma BITMAP_TEST_bit: "BITMAP_TEST i p \<longleftrightarrow> bit (pmm_bitmap p (i div 8)) (unat (i mod 8))"
  by (simp add: BITMAP_TEST_def bit_iff_and_push_bit_not_eq_0)

lemma bit_byte_or: "m < 8 \<Longrightarrow> bit ((w :: u8) OR 2 ^ n) m \<longleftrightarrow> bit w m \<or> m = n"
  by (auto simp: bit_simps)

lemma bit_byte_and_not: "m < 8 \<Longrightarrow> bit ((w :: u8) AND NOT (2 ^ n)) m \<longleftrightarrow> bit w m \<and> m \<noteq> n"
  by (auto simp: bit_simps)

lemma BITMAP_TEST_SET [simp]: "BITMAP_TEST j (BITMAP_SET i p) \<longleftrightarrow> j = i \<or> BITMAP_TEST j p"
  by (auto simp: BITMAP_TEST_bit BITMAP_SET_def bit_byte_or page_index_eq_iff [of j i])

lemma BITMAP_TEST_CLEAR [simp]: "BITMAP_TEST j (BITMAP_CLEAR i p) \<longleftrightarrow> j \<noteq> i \<and> BITMAP_TEST j p"
  by (auto simp: BITMAP_TEST_bit BITMAP_CLEAR_def bit_byte_and_not page_index_eq_iff [of j i])

lemma BITMAP_frame [simp, pmm_frame]:
  "pmm_total_pages (BITMAP_SET i p) = pmm_total_pages p"
  "pg_freed (BITMAP_SET i p) = pg_freed p"
  "pmm_total_pages (BITMAP_CLEAR i p) = pmm_total_pages p"
  "pg_freed (BITMAP_CLEAR i p) = pg_freed p"
  by (simp_all add: BITMAP_SET_def BITMAP_CLEAR_def)

lemma account_frame [simp, pmm_frame]:
  "pmm_total_pages (pmm_account_alloc n p) = pmm_total_pages p"
  "pmm_total_pages (pmm_account_free n p) = pmm_total_pages p"
  "BITMAP_TEST i (pmm_account_alloc n p) = BITMAP_TEST i p"
  "BITMAP_TEST i (pmm_account_free n p) = BITMAP_TEST i p"
  "pg_freed (pmm_account_alloc n p) = pg_freed p - n"
  "pg_freed (pmm_account_free n p) = pg_freed p + n"
  by (simp_all add: pmm_account_alloc_def pmm_account_free_def BITMAP_TEST_def)

definition free_pages :: "pmm \<Rightarrow> u64 set" where
  "free_pages p = {i. i < pmm_total_pages p \<and> \<not> BITMAP_TEST i p}"

definition pmm_inv :: "pmm \<Rightarrow> bool" where
  "pmm_inv p \<longleftrightarrow> pmm_total_pages p \<le> 0x10000000000000 \<and> pg_freed p = of_nat (card (free_pages p))"

definition available :: "pmm \<Rightarrow> u64 set" where
  "available p = {i \<in> free_pages p. PMM_LOWMEM_PAGES \<le> i}"

lemma available_iff: "i \<in> available p \<longleftrightarrow> \<not> BITMAP_TEST i p \<and> pmm_idx_safe p i"
  by (auto simp: available_def free_pages_def pmm_idx_safe_def)

lemma finite_free_pages [simp]: "finite (free_pages p)"
  by simp

lemma free_pages_SET [simp]: "free_pages (BITMAP_SET i p) = free_pages p - {i}"
  by (auto simp: free_pages_def)

lemma BITMAP_CLEAR_account:
  "BITMAP_CLEAR i (pmm_account_alloc n p) = pmm_account_alloc n (BITMAP_CLEAR i p)"
  by (simp add: BITMAP_CLEAR_def pmm_account_alloc_def)

lemma free_pages_CLEAR:
  "i < pmm_total_pages p \<Longrightarrow> free_pages (BITMAP_CLEAR i p) = insert i (free_pages p)"
  by (auto simp: free_pages_def)

lemma free_pages_account [simp]:
  "free_pages (pmm_account_alloc n p) = free_pages p"
  "free_pages (pmm_account_free n p) = free_pages p"
  by (simp_all add: free_pages_def)

lemma fold_SET:
  "free_pages (fold (\<lambda>i. BITMAP_SET (s + i)) xs p) = free_pages p - (\<lambda>i. s + i) ` set xs"
  "pmm_total_pages (fold (\<lambda>i. BITMAP_SET (s + i)) xs p) = pmm_total_pages p"
  "pg_freed (fold (\<lambda>i. BITMAP_SET (s + i)) xs p) = pg_freed p"
  by (induction xs arbitrary: p) auto

section \<open>First fit\<close>

text \<open>
  \<open>run_at p s n\<close>: the \<open>n\<close> pages from page number \<open>s\<close> on can all be given out.
  Page numbers are natural numbers here, so a run never wraps around.
\<close>

definition run_at :: "pmm \<Rightarrow> nat \<Rightarrow> nat \<Rightarrow> bool" where
  "run_at p s n \<longleftrightarrow> (\<forall>k\<in>{s..<s + n}. k < 2 ^ 64 \<and> (of_nat k :: u64) \<in> available p)"

definition first_fit :: "pmm \<Rightarrow> nat \<Rightarrow> nat \<Rightarrow> nat \<Rightarrow> u64 \<Rightarrow> bool" where
  "first_fit p lo hi n r \<longleftrightarrow>
     (if r = - 1 then (\<forall>m. lo \<le> m \<and> m + n \<le> hi \<longrightarrow> \<not> run_at p m n)
      else lo \<le> unat r \<and> unat r + n \<le> hi \<and> run_at p (unat r) n \<and>
           (\<forall>m. lo \<le> m \<and> m < unat r \<longrightarrow> \<not> run_at p m n))"

lemma run_at_0 [simp]: "run_at p s 0"
  by (simp add: run_at_def)

lemma run_at_Suc:
  "run_at p s (Suc n) \<longleftrightarrow> run_at p s n \<and> s + n < 2 ^ 64 \<and> (of_nat (s + n) :: u64) \<in> available p"
  by (auto simp: run_at_def atLeastLessThanSuc)

lemma run_atD: "run_at p s n \<Longrightarrow> s \<le> k \<Longrightarrow> k < s + n \<Longrightarrow> of_nat k \<in> available p"
  by (simp add: run_at_def)

lemma no_run_across:
  "i \<notin> available p \<Longrightarrow> m \<le> unat i \<Longrightarrow> unat i < m + c \<Longrightarrow> \<not> run_at p m c"
  using run_atD [of p m c "unat i"] by auto

lemma find_run_loop_first_fit:
  assumes "unat n < unat count" "lo + unat n \<le> unat i" "run_at p (unat i - unat n) (unat n)"
    and "n \<noteq> 0 \<Longrightarrow> s = i - n" "i \<le> hi"
    and "\<And>m. lo \<le> m \<Longrightarrow> m + unat n < unat i \<Longrightarrow> \<not> run_at p m (unat count)"
  shows "first_fit p lo (unat hi) (unat count) (find_run_loop p hi count i s n)"
  using assms
proof (induction p hi count i s n rule: find_run_loop.induct)
  case (1 p hi count i s n)
  show ?case
  proof (cases "i < hi")
    case False
    with "1.prems"(5) have "i = hi" by simp
    with "1.prems" show ?thesis
      by (subst find_run_loop.simps) (auto simp: first_fit_def)
  next
    case True
    note Si = unat_u64_succ [OF True]
    have ihi: "i + 1 \<le> hi" using True Si by (simp add: word_less_nat_alt word_le_nat_alt)
    show ?thesis
    proof (cases "i \<in> available p")
      case False
      have nofit: "\<not> run_at p m (unat count)" if "lo \<le> m" "m < unat (i + 1)" for m
        using that "1.prems"(1,6) Si no_run_across [OF False, of m "unat count"]
        by (cases "m + unat n < unat i") auto
      have "first_fit p lo (unat hi) (unat count) (find_run_loop p hi count (i + 1) s 0)"
        using "1.prems" False True ihi Si nofit
        by (intro "1.IH"(2)) (auto simp: available_iff)
      with True False show ?thesis
        by (subst find_run_loop.simps) (auto simp: available_iff)
    next
      case av: True
      define s' where "s' = (if n = 0 then i else s)"
      have le: "unat n \<le> unat i" using "1.prems"(2) by simp
      have s': "s' = i - n" using "1.prems"(4) by (auto simp: s'_def)
      have us': "unat s' = unat i - unat n"
        using le by (simp add: s' unat_sub word_le_nat_alt)
      have Sn: "unat (n + 1) = Suc (unat n)"
        using "1.prems"(1) by (intro unat_u64_succ [of _ count]) (simp add: word_less_nat_alt)
      have run: "run_at p (unat i - unat n) (unat (n + 1))"
        using "1.prems"(3) av le unat_u64_less [of i] by (simp add: Sn run_at_Suc)
      show ?thesis
      proof (cases "n + 1 \<ge> count")
        case True
        have eq: "unat count = Suc (unat n)"
          using True "1.prems"(1) Sn by (simp add: word_le_nat_alt)
        have "s' < hi" using \<open>i < hi\<close> us' by (simp add: word_less_nat_alt)
        then have "s' \<noteq> - 1" using word_order.extremum_strict by blast
        then have "first_fit p lo (unat hi) (unat count) s'"
          using run eq us' "1.prems"(2,6) le Sn \<open>i < hi\<close>
          by (auto simp: first_fit_def word_less_nat_alt)
        with True \<open>i < hi\<close> av show ?thesis
          by (subst find_run_loop.simps) (auto simp: available_iff Let_def s'_def)
      next
        case False
        have "first_fit p lo (unat hi) (unat count) (find_run_loop p hi count (i + 1) s' (n + 1))"
          using "1.prems" False \<open>i < hi\<close> av ihi Si Sn run s'
          by (intro "1.IH"(1)) (auto simp: available_iff s'_def word_less_nat_alt word_le_nat_alt)
        with False \<open>i < hi\<close> av show ?thesis
          by (subst find_run_loop.simps) (auto simp: available_iff Let_def s'_def)
      qed
    qed
  qed
qed

lemma pmm_find_run_first_fit:
  "0 < count \<Longrightarrow> first_fit p 0 (unat hi) (unat count) (pmm_find_run p 0 hi count)"
  unfolding pmm_find_run_def
  by (rule find_run_loop_first_fit) (auto simp: word_less_nat_alt)

section \<open>Allocation and release act on the free set\<close>

lemma first_fit_bounds:
  assumes "first_fit p 0 (unat (pmm_total_pages p)) (unat n) s" "s \<noteq> - 1" "n \<noteq> 0"
  shows "unat s + unat n \<le> unat (pmm_total_pages p)" and "256 \<le> s"
    and "u64_range s n \<subseteq> available p"
proof -
  from assms have run: "run_at p (unat s) (unat n)"
    and le: "unat s + unat n \<le> unat (pmm_total_pages p)" by (auto simp: first_fit_def)
  show "unat s + unat n \<le> unat (pmm_total_pages p)" by (rule le)
  have "0 < unat n" using assms(3) by (simp add: unat_gt_0)
  with run_atD [OF run, of "unat s"] show "256 \<le> s" by (simp add: available_def)
  show "u64_range s n \<subseteq> available p"
    using run_atD [OF run] by (fastforce simp: u64_range_def word_le_nat_alt)
qed

lemma card_free_diff:
  assumes "R \<subseteq> free_pages p" and "card R = unat n"
  shows "of_nat (card (free_pages p - R)) = of_nat (card (free_pages p)) - n"
proof -
  have "card R \<le> card (free_pages p)" using assms(1) by (intro card_mono) auto
  then show ?thesis using assms by (simp add: card_Diff_subset finite_subset [OF assms(1)])
qed

lemma pmm_total_pages_le: "pmm_inv p \<Longrightarrow> unat (pmm_total_pages p) \<le> 4503599627370496"
  by (simp add: pmm_inv_def word_le_nat_alt)

lemma pmm_alloc_runE:
  assumes "pmm_inv p" "n \<noteq> 0" "pmm_alloc_run n p = (a, p')"
  obtains (none) "a = 0" "p' = p" "first_fit p 0 (unat (pmm_total_pages p)) (unat n) (- 1)"
  | (run) s where "s \<noteq> - 1" "first_fit p 0 (unat (pmm_total_pages p)) (unat n) s"
      "a = s * PAGE_SIZE" "unat s < 4503599627370496" "256 \<le> s"
      "p' = pmm_account_alloc n (fold BITMAP_SET (map (\<lambda>i. s + i) (u64_upto n)) p)"
      "unat s + unat n \<le> unat (pmm_total_pages p)" "u64_range s n \<subseteq> available p"
      "set (map (\<lambda>i. s + i) (u64_upto n)) = u64_range s n" "card (u64_range s n) = unat n"
proof -
  define s where "s = pmm_find_run p 0 (pmm_total_pages p) n"
  have ff: "first_fit p 0 (unat (pmm_total_pages p)) (unat n) s"
    using assms(2) unfolding s_def by (intro pmm_find_run_first_fit) (simp add: word_neq_0_conv)
  show thesis
  proof (cases "s = - 1")
    case True
    then show thesis
      using none assms(3) ff by (auto simp: pmm_alloc_run_def Let_def s_def [symmetric])
  next
    case False
    note fb = first_fit_bounds [OF ff False assms(2)]
    note tot = pmm_total_pages_le [OF assms(1)]
    have "unat s < 4503599627370496"
      using fb(1) tot assms(2) unat_gt_0 [of n] by linarith
    moreover have "a = s * PAGE_SIZE"
      and "p' = pmm_account_alloc n (fold BITMAP_SET (map (\<lambda>i. s + i) (u64_upto n)) p)"
      using assms(3) False by (auto simp: pmm_alloc_run_def Let_def s_def [symmetric] fold_map comp_def)
    moreover have "unat s + unat n \<le> 18446744073709551616" using fb(1) tot by simp
    ultimately show thesis
      using run [OF False ff] fb u64_range_image [of s n] card_u64_range [of s n] by simp
  qed
qed

lemma pmm_alloc_run_spec:
  assumes "pmm_inv p" "count \<noteq> 0" "pmm_alloc_run count p = (a, p')"
  shows "if a = 0
         then p' = p \<and> (\<forall>m. m + unat count \<le> unat (pmm_total_pages p) \<longrightarrow> \<not> run_at p m (unat count))
         else page_aligned a \<and> PMM_LOWMEM_LIMIT \<le> a \<and>
              unat (a div PAGE_SIZE) + unat count \<le> unat (pmm_total_pages p) \<and>
              u64_range (a div PAGE_SIZE) count \<subseteq> available p \<and>
              free_pages p' = free_pages p - u64_range (a div PAGE_SIZE) count \<and>
              pg_freed p' = pg_freed p - count \<and>
              pmm_total_pages p' = pmm_total_pages p \<and> pmm_inv p' \<and>
              (\<forall>m < unat (a div PAGE_SIZE). \<not> run_at p m (unat count))"
  using assms
proof (cases rule: pmm_alloc_runE)
  case none
  then show ?thesis by (simp add: first_fit_def)
next
  case (run s)
  have fr: "free_pages p' = free_pages p - u64_range s count"
    unfolding run(6) by (simp add: fold_SET fold_map comp_def run(9) [simplified])
  have sub: "u64_range s count \<subseteq> free_pages p"
    using run(8) by (auto simp: available_def)
  have "pmm_inv p'"
    using assms(1) card_free_diff [OF sub run(10)]
    unfolding pmm_inv_def fr unfolding run(6) by (simp add: fold_SET fold_map comp_def)
  moreover have "a \<noteq> 0" "page_aligned a" "PMM_LOWMEM_LIMIT \<le> a" "a div PAGE_SIZE = s"
    using page_addr [OF run(4)] page_aligned_times [OF run(4)] run(5) by (auto simp: run(3) word_le_nat_alt unat_eq_zero)
  ultimately show ?thesis
    using run fr by (simp add: fold_SET fold_map comp_def first_fit_def)
qed

lemma pmm_free_success:
  assumes "pmm_inv p" "a \<noteq> 0" "page_aligned a" "a div PAGE_SIZE < pmm_total_pages p"
    "a div PAGE_SIZE \<notin> free_pages p"
  obtains p' where "pmm_free a p = Inr p'" "free_pages p' = insert (a div PAGE_SIZE) (free_pages p)"
    "pg_freed p' = pg_freed p + 1" "pmm_total_pages p' = pmm_total_pages p" "pmm_inv p'"
proof
  let ?q = "pmm_account_free 1 (BITMAP_CLEAR (a div PAGE_SIZE) p)"
  show "pmm_free a p = Inr ?q"
    using assms by (auto simp: pmm_free_def page_aligned_mask free_pages_def Let_def not_le)
  show f: "free_pages ?q = insert (a div PAGE_SIZE) (free_pages p)"
    using assms(4) by (simp add: free_pages_CLEAR)
  show "pmm_inv ?q"
    using assms(1,5) unfolding pmm_inv_def f by simp
qed simp_all

lemma pmm_free_success_iff:
  assumes "a \<noteq> 0"
  shows "(\<exists>p'. pmm_free a p = Inr p') \<longleftrightarrow>
    page_aligned a \<and> a div PAGE_SIZE < pmm_total_pages p \<and> a div PAGE_SIZE \<notin> free_pages p"
  using assms by (auto simp: pmm_free_def page_aligned_mask free_pages_def Let_def not_le split: if_splits)

subsection \<open>Setting and clearing the same bits\<close>

lemma BITMAP_SET_commute: "BITMAP_SET i (BITMAP_SET j p) = BITMAP_SET j (BITMAP_SET i p)"
  by (simp add: BITMAP_SET_def fun_upd_twist or.assoc or.left_commute or.commute
      split: if_splits)

lemma BITMAP_CLEAR_SET:
  assumes "\<not> BITMAP_TEST i p"
  shows "BITMAP_CLEAR i (BITMAP_SET i p) = p"
proof -
  let ?w = "pmm_bitmap p (i div 8)" and ?b = "2 ^ unat (i mod 8) :: u8"
  have "(?w OR ?b) AND NOT ?b = ?w"
    using assms by (intro bit_word_eqI) (auto simp: BITMAP_TEST_bit bit_simps)
  then show ?thesis by (simp add: BITMAP_CLEAR_def BITMAP_SET_def fun_upd_idem)
qed

lemma fold_SET_commute: "fold BITMAP_SET xs (BITMAP_SET i p) = BITMAP_SET i (fold BITMAP_SET xs p)"
  by (induction xs arbitrary: p) (simp_all add: BITMAP_SET_commute [of _ i])

lemma fold_SET_test: "BITMAP_TEST i (fold BITMAP_SET xs p) \<longleftrightarrow> i \<in> set xs \<or> BITMAP_TEST i p"
  by (induction xs arbitrary: p) auto

lemma clear_after_set:
  assumes "distinct xs" "\<forall>i\<in>set xs. \<not> BITMAP_TEST i p"
  shows "fold_res (\<lambda>i q. if \<not> BITMAP_TEST i q then Inl e else Inr (BITMAP_CLEAR i q)) xs
           (fold BITMAP_SET xs p) = Inr p"
  using assms
proof (induction xs)
  case (Cons x xs)
  then have "\<not> BITMAP_TEST x (fold BITMAP_SET xs p)" by (simp add: fold_SET_test)
  with Cons show ?case by (simp add: fold_SET_commute BITMAP_CLEAR_SET)
qed simp

lemma fold_res_map: "fold_res f (map g xs) s = fold_res (\<lambda>x. f (g x)) xs s"
  by (induction xs arbitrary: s) (simp_all add: bind_res_def split: sum.split)

lemma pmm_alloc_run_free_pages:
  assumes "pmm_inv p" "n \<noteq> 0" "pmm_alloc_run n p = (a, p')" "a \<noteq> 0"
  shows "pmm_free_pages a n p' = Inr p"
  using assms(1-3)
proof (cases rule: pmm_alloc_runE)
  case none
  with assms(4) show ?thesis by simp
next
  case (run s)
  let ?xs = "map (\<lambda>i. s + i) (u64_upto n)" and ?e = "Panic ''pmm_free_pages: double free''"
  let ?step = "\<lambda>i q. if \<not> BITMAP_TEST i q then Inl ?e else Inr (BITMAP_CLEAR i q)"
  have "unat (s + n) = unat s + unat n"
    using run(7) pmm_total_pages_le [OF assms(1)] by (intro unat_u64_add) simp
  then have rng: "s < pmm_total_pages p" "\<not> s + n > pmm_total_pages p"
    using run(7) assms(2) unat_gt_0 [of n] by (auto simp: word_less_nat_alt)
  have clear: "\<forall>i\<in>set ?xs. \<not> BITMAP_TEST i p"
    unfolding run(9) using run(8) by (auto simp: available_iff)
  have dist: "distinct ?xs" by (simp add: distinct_map)
  have acc: "fold_res ?step xs (pmm_account_alloc n q) =
      bind_res (fold_res ?step xs q) (\<lambda>r. Inr (pmm_account_alloc n r))" for xs q
    by (induction xs arbitrary: q) (simp_all add: BITMAP_CLEAR_account)
  have tot': "pmm_total_pages p' = pmm_total_pages p"
    unfolding run(6) by (simp add: fold_SET fold_map comp_def)
  have "fold_res ?step ?xs p' = Inr (pmm_account_alloc n p)"
    unfolding run(6) acc clear_after_set [OF dist clear] by simp
  moreover have "a div PAGE_SIZE = s" using page_addr [OF run(4)] run(3) by simp
  ultimately show ?thesis
    using assms(2,4) rng
    by (simp add: pmm_free_pages_def Let_def tot' fold_res_map)
      (simp add: pmm_account_alloc_def pmm_account_free_def)
qed

section \<open>The page-provider contract\<close>

text \<open>
  What the clients of the allocator rely on: an allocated page is aligned, was
  owned by nobody and is owned afterwards; releasing an owned page gives up
  exactly that page; releasing any other page is a panic.
\<close>

fun alloc_many :: "('s \<Rightarrow> u64 \<times> 's) \<Rightarrow> nat \<Rightarrow> 's \<Rightarrow> u64 list \<times> 's" where
  "alloc_many alloc 0 s = ([], s)"
| "alloc_many alloc (Suc n) s =
     (let (a, s1) = alloc s in
      if a = 0 then ([], s1) else let (as, s2) = alloc_many alloc n s1 in (a # as, s2))"

locale page_provider =
  fixes alloc :: "'s \<Rightarrow> u64 \<times> 's" and free :: "u64 \<Rightarrow> 's \<Rightarrow> 's res"
    and inv :: "'s \<Rightarrow> bool" and owns :: "'s \<Rightarrow> u64 \<Rightarrow> bool"
  assumes alloc_fresh: "inv s \<Longrightarrow> alloc s = (a, s') \<Longrightarrow> a \<noteq> 0 \<Longrightarrow>
      inv s' \<and> page_aligned a \<and> \<not> owns s a \<and> (\<forall>b. owns s' b \<longleftrightarrow> owns s b \<or> b = a)"
    and alloc_fail: "inv s \<Longrightarrow> alloc s = (0, s') \<Longrightarrow> s' = s"
    and free_owned: "inv s \<Longrightarrow> owns s a \<Longrightarrow>
      \<exists>s'. free a s = Inr s' \<and> inv s' \<and> (\<forall>b. owns s' b \<longleftrightarrow> owns s b \<and> b \<noteq> a)"
    and free_foreign: "inv s \<Longrightarrow> a \<noteq> 0 \<Longrightarrow> \<not> owns s a \<Longrightarrow> \<exists>e. free a s = Inl e"
begin

lemma alloc_many_fresh:
  assumes "inv s" "alloc_many alloc n s = (as, s')"
  shows "inv s' \<and> distinct as \<and> (\<forall>a\<in>set as. page_aligned a \<and> \<not> owns s a) \<and>
    (\<forall>b. owns s' b \<longleftrightarrow> owns s b \<or> b \<in> set as)"
  using assms
proof (induction n arbitrary: s as)
  case (Suc n)
  obtain a s1 where al: "alloc s = (a, s1)" by fastforce
  show ?case
  proof (cases "a = 0")
    case True
    with Suc.prems al alloc_fail [of s s1] show ?thesis by auto
  next
    case False
    obtain as' s2 where am: "alloc_many alloc n s1 = (as', s2)" by fastforce
    note fr = alloc_fresh [OF Suc.prems(1) al False]
    moreover have eq: "as = a # as'" "s' = s2" using Suc.prems(2) al am False by simp_all
    moreover have "inv s2 \<and> distinct as' \<and> (\<forall>a\<in>set as'. page_aligned a \<and> \<not> owns s1 a) \<and>
        (\<forall>b. owns s2 b \<longleftrightarrow> owns s1 b \<or> b \<in> set as')"
      using Suc.IH [of s1 as'] fr am eq by simp
    ultimately show ?thesis by simp blast
  qed
qed simp

lemma free_all:
  assumes "inv s" "distinct as" "\<forall>a\<in>set as. owns s a"
  shows "\<exists>s'. fold_res free as s = Inr s' \<and> inv s' \<and> (\<forall>b. owns s' b \<longleftrightarrow> owns s b \<and> b \<notin> set as)"
  using assms
proof (induction as arbitrary: s)
  case (Cons a as)
  then obtain s1 where s1: "free a s = Inr s1" "inv s1" "\<forall>b. owns s1 b \<longleftrightarrow> owns s b \<and> b \<noteq> a"
    using free_owned [of s a] by auto
  with Cons.prems Cons.IH [of s1] show ?case by auto
qed simp

lemma alloc_many_free_all:
  assumes "inv s" "alloc_many alloc n s = (as, s')" "distinct bs" "set bs = set as"
  shows "\<exists>s''. fold_res free bs s' = Inr s'' \<and> inv s'' \<and> (\<forall>b. owns s'' b \<longleftrightarrow> owns s b)"
proof -
  note am = alloc_many_fresh [OF assms(1,2)]
  have "\<exists>s''. fold_res free bs s' = Inr s'' \<and> inv s'' \<and> (\<forall>b. owns s'' b \<longleftrightarrow> owns s' b \<and> b \<notin> set bs)"
    using am assms(3,4) by (intro free_all) simp_all
  with am assms(4) show ?thesis by (simp only:) blast
qed

lemma free_twice:
  assumes "inv s" "owns s a" "a \<noteq> 0" "free a s = Inr s'"
  shows "\<exists>e. free a s' = Inl e"
  using assms free_owned [of s a] free_foreign [of s' a] by auto

end

definition pmm_owns :: "pmm \<Rightarrow> u64 \<Rightarrow> bool" where
  "pmm_owns p a \<longleftrightarrow> a \<noteq> 0 \<and> page_aligned a \<and> a div PAGE_SIZE < pmm_total_pages p \<and>
     a div PAGE_SIZE \<notin> free_pages p"

lemma pmm_alloc_fresh:
  assumes "pmm_inv p" "pmm_alloc p = (a, p')" "a \<noteq> 0"
  shows "pmm_inv p' \<and> page_aligned a \<and> \<not> pmm_owns p a \<and> (\<forall>b. pmm_owns p' b \<longleftrightarrow> pmm_owns p b \<or> b = a)"
proof -
  have spec: "pmm_inv p'" "page_aligned a" "a div PAGE_SIZE \<in> available p"
    "free_pages p' = free_pages p - {a div PAGE_SIZE}" "pmm_total_pages p' = pmm_total_pages p"
    using pmm_alloc_run_spec [OF assms(1) _ assms(2) [unfolded pmm_alloc_def]] assms(3) by auto
  then have "a div PAGE_SIZE < pmm_total_pages p" "a div PAGE_SIZE \<in> free_pages p"
    by (auto simp: available_def free_pages_def)
  moreover have "b div PAGE_SIZE = a div PAGE_SIZE \<longleftrightarrow> b = a" if "page_aligned b" for b
    using page_aligned_eq_iff [OF that spec(2)] .
  ultimately have "pmm_owns p' b \<longleftrightarrow> pmm_owns p b \<or> b = a" for b
    unfolding pmm_owns_def spec(4,5) using spec(2) assms(3) by blast
  with spec(1,2) \<open>a div PAGE_SIZE \<in> free_pages p\<close> show ?thesis
    by (simp add: pmm_owns_def)
qed

interpretation pp: page_provider pmm_alloc pmm_free pmm_inv pmm_owns
proof
  fix p p' a
  show "pmm_inv p \<Longrightarrow> pmm_alloc p = (a, p') \<Longrightarrow> a \<noteq> 0 \<Longrightarrow>
    pmm_inv p' \<and> page_aligned a \<and> \<not> pmm_owns p a \<and> (\<forall>b. pmm_owns p' b \<longleftrightarrow> pmm_owns p b \<or> b = a)"
    by (rule pmm_alloc_fresh)
  show "pmm_inv p \<Longrightarrow> pmm_alloc p = (0, p') \<Longrightarrow> p' = p"
    using pmm_alloc_run_spec [of p 1 0 p'] by (simp add: pmm_alloc_def)
  show "pmm_inv p \<Longrightarrow> pmm_owns p a \<Longrightarrow>
    \<exists>p'. pmm_free a p = Inr p' \<and> pmm_inv p' \<and> (\<forall>b. pmm_owns p' b \<longleftrightarrow> pmm_owns p b \<and> b \<noteq> a)"
    unfolding pmm_owns_def by (erule pmm_free_success [of p a]) (auto simp: page_aligned_eq_iff)
  show "pmm_inv p \<Longrightarrow> a \<noteq> 0 \<Longrightarrow> \<not> pmm_owns p a \<Longrightarrow> \<exists>e. pmm_free a p = Inl e"
    using pmm_free_success_iff [of a p] by (cases "pmm_free a p") (auto simp: pmm_owns_def)
qed

section \<open>Properties\<close>

text \<open>A machine with 264 pages, all of them free, for the concrete instances below.\<close>

definition pmm_example :: pmm where
  "pmm_example = \<lparr>pmm_bitmap = \<lambda>_. 0, pmm_total_pages = 264, pg_total = 264, pg_none = 0,
     pg_self = 0, pg_usable = 264, pg_freed = 264\<rparr>"

lemma pmm_example_inv: "pmm_inv pmm_example"
  by (simp add: pmm_inv_def pmm_example_def free_pages_def BITMAP_TEST_def card_u64_less)

text \<open>
  (C1) \<open>pmm_alloc_pages\<close> is a correct first-fit allocator.  On a state whose
  \<open>freed\<close> counter counts the clear bits, a request for \<open>n > 0\<close> pages that returns
  a non-null address returns a page-aligned address at or above 1 MiB; the \<open>n\<close>
  pages from there were all free and in range, they are exactly the pages that
  stop being free, the counter drops by \<open>n\<close> and the invariant is kept, and no
  lower run of \<open>n\<close> pages would have done.  A null result changes nothing and
  means that there is no run of \<open>n\<close> free pages at all.
\<close>
theorem pmm_alloc_pages_first_fit:
  assumes "pmm_inv p" "n \<noteq> 0" "pmm_alloc_pages n p = (a, p')"
  shows "if a = 0
         then p' = p \<and> (\<forall>m. m + unat n \<le> unat (pmm_total_pages p) \<longrightarrow> \<not> run_at p m (unat n))
         else page_aligned a \<and> PMM_LOWMEM_LIMIT \<le> a \<and>
              unat (a div PAGE_SIZE) + unat n \<le> unat (pmm_total_pages p) \<and>
              u64_range (a div PAGE_SIZE) n \<subseteq> available p \<and>
              free_pages p' = free_pages p - u64_range (a div PAGE_SIZE) n \<and>
              pg_freed p' = pg_freed p - n \<and>
              pmm_total_pages p' = pmm_total_pages p \<and> pmm_inv p' \<and>
              (\<forall>m < unat (a div PAGE_SIZE). \<not> run_at p m (unat n))"
  using assms by (intro pmm_alloc_run_spec) (simp_all add: pmm_alloc_pages_def)

theorem pmm_alloc_pages_first_fit_witness:
  "fst (pmm_alloc_pages 2 pmm_example) = 0x100000 \<and>
   free_pages (snd (pmm_alloc_pages 2 pmm_example)) = free_pages pmm_example - u64_range 256 2"
proof -
  have a: "fst (pmm_alloc_pages 2 pmm_example) = 0x100000" by code_simp
  then have "pmm_alloc_pages 2 pmm_example = (0x100000, snd (pmm_alloc_pages 2 pmm_example))"
    by (metis prod.collapse)
  from pmm_alloc_pages_first_fit [OF pmm_example_inv _ this] a show ?thesis by simp
qed

text \<open>
  (C2) Releasing what was allocated restores the allocator exactly: after
  \<open>pmm_alloc_pages\<close> has returned a non-null address, \<open>pmm_free_pages\<close> with that
  address and count does not panic and gives back the very state before the
  allocation, bitmap and counters included.
\<close>
theorem pmm_alloc_free_pages_roundtrip:
  assumes "pmm_inv p" "pmm_alloc_pages n p = (a, p')" "a \<noteq> 0"
  shows "pmm_free_pages a n p' = Inr p"
  using assms by (intro pmm_alloc_run_free_pages) (auto simp: pmm_alloc_pages_def split: if_splits)

theorem pmm_alloc_free_pages_roundtrip_witness:
  "pmm_free_pages 0x100000 2 (snd (pmm_alloc_pages 2 pmm_example)) = Inr pmm_example"
proof -
  have "fst (pmm_alloc_pages 2 pmm_example) = 0x100000" by code_simp
  then have "pmm_alloc_pages 2 pmm_example = (0x100000, snd (pmm_alloc_pages 2 pmm_example))"
    by (metis prod.collapse)
  from pmm_alloc_free_pages_roundtrip [OF pmm_example_inv this] show ?thesis by simp
qed

text \<open>
  (C3) \<open>pmm_free\<close> of a non-null address returns normally exactly when the address
  is page aligned, lies below \<open>pmm_total_pages\<close> and its page is in use; then the
  page becomes free, the counter grows by one and the invariant is kept.  In
  every other case (unaligned, out of range, double free) it panics.
\<close>
theorem pmm_free_exact:
  assumes "pmm_inv p" "a \<noteq> 0"
  shows "if page_aligned a \<and> a div PAGE_SIZE < pmm_total_pages p \<and> a div PAGE_SIZE \<notin> free_pages p
         then \<exists>p'. pmm_free a p = Inr p' \<and> free_pages p' = insert (a div PAGE_SIZE) (free_pages p) \<and>
                pg_freed p' = pg_freed p + 1 \<and> pmm_inv p'
         else \<exists>e. pmm_free a p = Inl e"
proof (cases "page_aligned a \<and> a div PAGE_SIZE < pmm_total_pages p \<and> a div PAGE_SIZE \<notin> free_pages p")
  case True
  then obtain p' where "pmm_free a p = Inr p'" "free_pages p' = insert (a div PAGE_SIZE) (free_pages p)"
    "pg_freed p' = pg_freed p + 1" "pmm_inv p'"
    using pmm_free_success [OF assms] by blast
  with True show ?thesis by simp
next
  case False
  then show ?thesis
    using pmm_free_success_iff [OF assms(2), of p] by (cases "pmm_free a p") auto
qed

theorem pmm_free_exact_witness: "\<exists>e. pmm_free 0x101000 pmm_example = Inl e"
  using pmm_free_exact [OF pmm_example_inv, of "0x101000"]
  by (simp add: free_pages_def pmm_example_def BITMAP_TEST_def)

text \<open>
  Pages handed out by successive calls of \<open>pmm_alloc\<close> are page aligned,
  pairwise distinct and were owned by nobody, and releasing them in any order
  with \<open>pmm_free\<close> never panics and leaves exactly the pages owned before.
\<close>
theorem pmm_alloc_many_distinct:
  assumes "pmm_inv p" "alloc_many pmm_alloc n p = (as, p')" "distinct bs" "set bs = set as"
  shows "distinct as \<and> (\<forall>a\<in>set as. page_aligned a \<and> \<not> pmm_owns p a) \<and>
    (\<exists>q. fold_res pmm_free bs p' = Inr q \<and> pmm_inv q \<and> (\<forall>b. pmm_owns q b \<longleftrightarrow> pmm_owns p b))"
  using pp.alloc_many_fresh [OF assms(1,2)] pp.alloc_many_free_all [OF assms] by blast

theorem pmm_alloc_many_distinct_witness:
  "distinct (fst (alloc_many pmm_alloc 2 pmm_example)) \<and>
   fst (alloc_many pmm_alloc 2 pmm_example) = [0x100000, 0x101000]"
proof -
  have "fst (alloc_many pmm_alloc 2 pmm_example) = [0x100000, 0x101000]" by code_simp
  then have "alloc_many pmm_alloc 2 pmm_example = ([0x100000, 0x101000], snd (alloc_many pmm_alloc 2 pmm_example))"
    by (metis prod.collapse)
  from pmm_alloc_many_distinct [OF pmm_example_inv this, of "[0x101000, 0x100000]"]
  show ?thesis using \<open>fst (alloc_many pmm_alloc 2 pmm_example) = [0x100000, 0x101000]\<close> by auto
qed

end
