(* ===== verification/Pmm_Init.thy ===== *)
theory Pmm_Init
  imports Pmm
begin

text \<open>
  Initialisation of the page allocator: \<open>pmm_init_from_memmap\<close> run on a memory
  map whose usable entries are page aligned and overlap no other entry, as the
  boot protocol promises.  The lemmas follow the phases of the code (scan, choice
  of the largest entry, bitmap installation, release of the usable pages, marking
  of the bitmap's own pages, self check) and end with the exact set of free pages.
\<close>

abbreviation usable :: "pmm_memmap_entry \<Rightarrow> bool" where
  "usable e \<equiv> e_type e = PMM_MEMMAP_USABLE"

definition e_end :: "pmm_memmap_entry \<Rightarrow> nat" where
  "e_end e = unat (e_base e) + unat (e_length e)"

definition apart :: "pmm_memmap_entry \<Rightarrow> pmm_memmap_entry \<Rightarrow> bool" where
  "apart e f \<longleftrightarrow> (\<not> usable e \<and> \<not> usable f) \<or> e_end e \<le> unat (e_base f) \<or> e_end f \<le> unat (e_base e)"

definition memmap_ok :: "pmm_memmap_entry list \<Rightarrow> bool" where
  "memmap_ok mmap \<longleftrightarrow>
     list_all (\<lambda>e. e_end e \<le> 18446744073709547520 \<and>
       (usable e \<longrightarrow> page_aligned (e_base e) \<and> page_aligned (e_length e))) mmap \<and>
     sorted_wrt apart mmap"

definition entry_pages :: "pmm_memmap_entry \<Rightarrow> u64 set" where
  "entry_pages e = u64_range (e_base e div PAGE_SIZE) (e_length e div PAGE_SIZE)"

definition usable_pages :: "pmm_memmap_entry list \<Rightarrow> u64 set" where
  "usable_pages mmap = (\<Union>e\<in>{e \<in> set mmap. usable e}. entry_pages e)"

section \<open>Releasing the pages of one entry\<close>

lemma unat_page_times: "k * 4096 < 18446744073709551616 \<Longrightarrow> unat (of_nat k * 4096 :: u64) = k * 4096"
  by (simp add: unat_word_ariths)

lemma release_entry_fold:
  assumes "unat (e_length e) = n * 4096" "n * 4096 < 18446744073709547521" "k \<le> n" "n - k < fuel"
  shows "release_entry fuel e (of_nat k * 4096) st =
    fold_res (\<lambda>i. release_page e (of_nat i * 4096)) [k..<n] st"
  using assms
proof (induction fuel arbitrary: k st)
  case (Suc fuel)
  have k: "unat (of_nat k * 4096 :: u64) = k * 4096"
    using Suc.prems by (intro unat_page_times) simp
  show ?case
  proof (cases "k = n")
    case True
    then show ?thesis using k Suc.prems(1) by (simp add: word_less_nat_alt)
  next
    case False
    with Suc.prems have kn: "k < n" by simp
    have "release_entry fuel e (of_nat k * 4096 + PAGE_SIZE) =
      fold_res (\<lambda>i. release_page e (of_nat i * 4096)) [Suc k..<n]"
      using Suc.IH [of "Suc k"] Suc.prems kn by (intro ext) (simp add: algebra_simps)
    with kn k Suc.prems(1) show ?thesis
      by (simp add: word_less_nat_alt upt_conv_Cons)
  qed
qed simp

definition aligned_entry :: "pmm_memmap_entry \<Rightarrow> nat \<Rightarrow> nat \<Rightarrow> bool" where
  "aligned_entry e b n \<longleftrightarrow> unat (e_base e) = b * 4096 \<and> unat (e_length e) = n * 4096 \<and>
     (b + n) * 4096 \<le> 18446744073709547520"

lemma aligned_entry_page:
  assumes "aligned_entry e b n" "i < n"
  shows "unat (e_base e + of_nat i * 4096) = (b + i) * 4096"
    and "(e_base e + of_nat i * 4096) div 4096 = of_nat (b + i)"
proof -
  have "unat (of_nat i * 4096 :: u64) = i * 4096"
    using assms by (intro unat_page_times) (simp add: aligned_entry_def)
  then show *: "unat (e_base e + of_nat i * 4096) = (b + i) * 4096"
    using assms by (subst unat_u64_add) (simp_all add: aligned_entry_def)
  show "(e_base e + of_nat i * 4096) div 4096 = of_nat (b + i)"
    unfolding word_unat_eq_iff unat_div * using assms
    by (simp add: aligned_entry_def del: of_nat_add)
qed

lemma entry_pages_aligned:
  assumes "aligned_entry e b n"
  shows "entry_pages e = (\<lambda>i. of_nat (b + i)) ` {0..<n}"
proof -
  have u: "unat (e_base e div 4096) = b" "unat (e_length e div 4096) = n"
    using assms by (simp_all add: aligned_entry_def unat_div)
  have "x \<in> entry_pages e \<longleftrightarrow> b \<le> unat x \<and> unat x < b + n" for x
    by (simp add: entry_pages_def u64_range_def word_le_nat_alt u)
  moreover have "(\<exists>i<n. x = of_nat (b + i)) \<longleftrightarrow> b \<le> unat x \<and> unat x < b + n" for x :: u64
  proof
    assume "\<exists>i<n. x = of_nat (b + i)"
    then obtain i where i: "i < n" "x = of_nat (b + i)" by blast
    then have "unat x = b + i" using assms by (simp add: aligned_entry_def del: of_nat_add)
    with i show "b \<le> unat x \<and> unat x < b + n" by simp
  next
    assume "b \<le> unat x \<and> unat x < b + n"
    then show "\<exists>i<n. x = of_nat (b + i)"
      by (intro exI [of _ "unat x - b"]) (auto simp del: of_nat_add)
  qed
  ultimately show ?thesis by (auto simp: image_iff atLeast0LessThan Bex_def simp del: of_nat_add)
qed

lemma inj_on_entry:
  "aligned_entry e b n \<Longrightarrow> inj_on (\<lambda>i. of_nat (b + i) :: u64) {0..<n}"
  by (intro inj_onI) (simp add: aligned_entry_def of_nat_u64_eq_iff del: of_nat_add)

lemma release_page_aligned:
  assumes "aligned_entry e b n" "i < n" "of_nat (b + i) < pmm_total_pages p"
  shows "release_page e (of_nat i * 4096) (p, d, l) =
    Inr (if of_nat (b + i) < (256 :: u64) then (p, d + 1, l)
         else (BITMAP_CLEAR (of_nat (b + i)) p, d, l))"
proof -
  have "unat (of_nat (b + i) :: u64) = b + i"
    using assms by (simp add: aligned_entry_def del: of_nat_add)
  then have "e_base e + of_nat i * 4096 < 0x100000 \<longleftrightarrow> of_nat (b + i) < (256 :: u64)"
    using aligned_entry_page [OF assms(1,2)]
    by (simp add: word_less_nat_alt del: of_nat_add) linarith
  moreover have "\<not> pmm_total_pages p \<le> of_nat (b + i)" using assms(3) by (simp only: not_le)
  ultimately show ?thesis
    using aligned_entry_page(2) [OF assms(1,2)]
    by (simp add: release_page_def Let_def pmm_mark_free_def del: of_nat_add)
qed

text \<open>Two allocator states that differ in the bitmap only.\<close>

definition same_counters :: "pmm \<Rightarrow> pmm \<Rightarrow> bool" where
  "same_counters p q \<longleftrightarrow> (\<exists>m. q = p\<lparr>pmm_bitmap := m\<rparr>)"

lemma same_counters_refl [simp]: "same_counters p p"
  unfolding same_counters_def by (rule exI [of _ "pmm_bitmap p"]) simp

lemma same_counters_trans: "same_counters p q \<Longrightarrow> same_counters q r \<Longrightarrow> same_counters p r"
  by (auto simp: same_counters_def)

lemma same_counters_bits [simp]:
  "same_counters p (BITMAP_CLEAR i p)" "same_counters p (BITMAP_SET i p)"
  by (auto simp: same_counters_def BITMAP_CLEAR_def BITMAP_SET_def)

lemma same_countersD:
  assumes "same_counters p q"
  shows "pmm_total_pages q = pmm_total_pages p" "pg_usable q = pg_usable p" "pg_freed q = pg_freed p"
    "pg_total q = pg_total p" "pg_none q = pg_none p" "pg_self q = pg_self p"
  using assms by (auto simp: same_counters_def)

abbreviation high_pages :: "u64 set" where "high_pages \<equiv> {i. 256 \<le> i}"
abbreviation low_pages :: "u64 set" where "low_pages \<equiv> {i. i < 256}"

lemma release_pages_fold:
  assumes "aligned_entry e b n" "set xs \<subseteq> {0..<n}" "\<forall>i\<in>set xs. of_nat (b + i) < pmm_total_pages p"
    "distinct xs"
  shows "\<exists>p'. fold_res (\<lambda>i. release_page e (of_nat i * 4096)) xs (p, d, l) =
      Inr (p', d + of_nat (card ((\<lambda>i. of_nat (b + i)) ` set xs \<inter> low_pages)), l) \<and>
    free_pages p' = free_pages p \<union> ((\<lambda>i. of_nat (b + i)) ` set xs \<inter> high_pages) \<and> same_counters p p'"
  using assms
proof (induction xs arbitrary: p d)
  case (Cons x xs)
  let ?f = "\<lambda>i. of_nat (b + i) :: u64"
  have x: "x < n" "?f x < pmm_total_pages p" using Cons.prems by auto
  have notin: "?f x \<notin> ?f ` set xs"
    using inj_on_entry [OF assms(1)] Cons.prems(2,4) by (auto dest!: inj_onD simp del: of_nat_add)
  note step = release_page_aligned [OF assms(1) x]
  show ?case
  proof (cases "?f x < 256")
    case True
    have "?f ` set (x # xs) \<inter> low_pages = insert (?f x) (?f ` set xs \<inter> low_pages)"
      using True by (auto simp del: of_nat_add)
    moreover have "?f ` set (x # xs) \<inter> high_pages = ?f ` set xs \<inter> high_pages"
      using True by (auto simp del: of_nat_add)
    ultimately show ?thesis
      using Cons.IH [of p "d + 1"] Cons.prems True step notin
      by (simp add: add.assoc del: of_nat_add)
  next
    case False
    have "?f ` set (x # xs) \<inter> low_pages = ?f ` set xs \<inter> low_pages"
      using False by (auto simp del: of_nat_add)
    moreover have "?f ` set (x # xs) \<inter> high_pages = insert (?f x) (?f ` set xs \<inter> high_pages)"
      using False by (auto simp: not_less simp del: of_nat_add)
    ultimately show ?thesis
      using Cons.IH [of "BITMAP_CLEAR (?f x) p" d] Cons.prems False step x(2)
        same_counters_trans [OF same_counters_bits(1), of "?f x" p]
      by (auto simp: free_pages_CLEAR simp del: of_nat_add)
  qed
qed simp

section \<open>Releasing every usable entry\<close>

definition covered :: "pmm_memmap_entry list \<Rightarrow> u64 \<Rightarrow> bool" where
  "covered mmap tot \<longleftrightarrow> (\<forall>e\<in>set mmap. usable e \<longrightarrow>
     (\<exists>b n. aligned_entry e b n \<and> (\<forall>i<n. of_nat (b + i) < tot)))"

lemma release_entry_aligned:
  assumes "aligned_entry e b n" "\<forall>i<n. of_nat (b + i) < pmm_total_pages p"
  shows "\<exists>p'. release_entry (page_loop_fuel e) e 0 (p, d, l) =
      Inr (p', d + of_nat (card (entry_pages e \<inter> low_pages)), l) \<and>
    free_pages p' = free_pages p \<union> (entry_pages e \<inter> high_pages) \<and> same_counters p p'"
proof -
  have "release_entry (page_loop_fuel e) e (of_nat 0 * 4096) (p, d, l) =
      fold_res (\<lambda>i. release_page e (of_nat i * 4096)) [0..<n] (p, d, l)"
    using assms(1) by (intro release_entry_fold) (auto simp: aligned_entry_def page_loop_fuel_def)
  moreover have "\<exists>p'. fold_res (\<lambda>i. release_page e (of_nat i * 4096)) [0..<n] (p, d, l) =
      Inr (p', d + of_nat (card ((\<lambda>i. of_nat (b + i)) ` set [0..<n] \<inter> low_pages)), l) \<and>
    free_pages p' = free_pages p \<union> ((\<lambda>i. of_nat (b + i)) ` set [0..<n] \<inter> high_pages) \<and> same_counters p p'"
    using assms by (intro release_pages_fold) (auto simp del: of_nat_add)
  ultimately show ?thesis by (simp add: entry_pages_aligned [OF assms(1)] del: of_nat_add)
qed

definition low_count :: "pmm_memmap_entry list \<Rightarrow> nat" where
  "low_count mmap = sum_list (map (\<lambda>e. card (entry_pages e \<inter> low_pages)) (filter usable mmap))"

lemma release_usable_fold:
  assumes "covered mmap (pmm_total_pages p)"
  shows "\<exists>p'. fold_res (\<lambda>e st. if \<not> usable e then Inr st else release_entry (page_loop_fuel e) e 0 st)
      mmap (p, d, l) = Inr (p', d + of_nat (low_count mmap), l) \<and>
    free_pages p' = free_pages p \<union> (usable_pages mmap \<inter> high_pages) \<and> same_counters p p'"
  using assms
proof (induction mmap arbitrary: p d)
  case Nil
  then show ?case by (simp add: usable_pages_def low_count_def)
next
  case (Cons e mmap)
  show ?case
  proof (cases "usable e")
    case False
    then have "usable_pages (e # mmap) = usable_pages mmap" "low_count (e # mmap) = low_count mmap"
      by (auto simp: usable_pages_def low_count_def)
    with False Cons show ?thesis by (simp add: covered_def)
  next
    case True
    then obtain b n where "aligned_entry e b n" "\<forall>i<n. of_nat (b + i) < pmm_total_pages p"
      using Cons.prems by (auto simp: covered_def simp del: of_nat_add)
    from release_entry_aligned [OF this, of d l] obtain q where
      q: "release_entry (page_loop_fuel e) e 0 (p, d, l) =
           Inr (q, d + of_nat (card (entry_pages e \<inter> low_pages)), l)"
         "free_pages q = free_pages p \<union> (entry_pages e \<inter> high_pages)" "same_counters p q" by blast
    have "covered mmap (pmm_total_pages q)"
      using Cons.prems q(3) by (simp add: covered_def same_countersD)
    from Cons.IH [OF this] obtain p' where
      p': "fold_res (\<lambda>e st. if \<not> usable e then Inr st else release_entry (page_loop_fuel e) e 0 st)
            mmap (q, d + of_nat (card (entry_pages e \<inter> low_pages)), l) =
          Inr (p', d + of_nat (card (entry_pages e \<inter> low_pages)) + of_nat (low_count mmap), l)"
        "free_pages p' = free_pages q \<union> (usable_pages mmap \<inter> high_pages)" "same_counters q p'" by blast
    have "usable_pages (e # mmap) = entry_pages e \<union> usable_pages mmap"
      "low_count (e # mmap) = card (entry_pages e \<inter> low_pages) + low_count mmap"
      using True by (auto simp: usable_pages_def low_count_def)
    with True q p' same_counters_trans [OF q(3) p'(3)] show ?thesis
      by (auto simp: add.assoc)
  qed
qed

section \<open>Counting pages\<close>

lemma aligned_entry_of:
  assumes "page_aligned (e_base e)" "page_aligned (e_length e)" "e_end e \<le> 18446744073709547520"
  shows "aligned_entry e (unat (e_base e div 4096)) (unat (e_length e div 4096))"
proof -
  have "unat x = unat (x div 4096) * 4096" if "page_aligned x" for x
    using that dvd_div_mult_self [of 4096 "unat x"]
    by (simp add: page_aligned_def word_unat_eq_iff unat_mod unat_div mod_eq_0_iff_dvd)
  with assms show ?thesis by (simp add: aligned_entry_def e_end_def add_mult_distrib)
qed

lemma memmap_ok_entry:
  assumes "memmap_ok mmap" "e \<in> set mmap"
  shows "e_end e \<le> 18446744073709547520" and "usable e \<Longrightarrow> aligned_entry e (unat (e_base e div 4096)) (unat (e_length e div 4096))"
  using assms aligned_entry_of [of e] by (auto simp: memmap_ok_def list_all_iff)

lemma entry_pages_bytes:
  assumes "aligned_entry e b n"
  shows "i \<in> entry_pages e \<longleftrightarrow> unat (e_base e) \<le> unat i * 4096 \<and> unat i * 4096 + 4096 \<le> e_end e"
proof -
  have "unat (e_base e div 4096) = b" "unat (e_length e div 4096) = n"
    using assms by (simp_all add: aligned_entry_def unat_div)
  then show ?thesis
    using assms by (auto simp: entry_pages_def u64_range_def aligned_entry_def e_end_def word_le_nat_alt)
qed

lemma apart_pages_disjoint:
  assumes "apart e f" "usable e" "usable f" "aligned_entry e b n" "aligned_entry f c m"
  shows "entry_pages e \<inter> entry_pages f = {}"
  using assms entry_pages_bytes [OF assms(4)] entry_pages_bytes [OF assms(5)]
  by (fastforce simp: apart_def)

lemma sum_card_usable:
  assumes "memmap_ok mmap"
  shows "sum_list (map (\<lambda>e. card (entry_pages e \<inter> A)) (filter usable mmap)) = card (usable_pages mmap \<inter> A)"
  using assms
proof (induction mmap)
  case (Cons e mmap)
  have ok: "memmap_ok mmap" using Cons.prems by (simp add: memmap_ok_def)
  show ?case
  proof (cases "usable e")
    case True
    have "entry_pages e \<inter> entry_pages f = {}" if "f \<in> set mmap" "usable f" for f
      using that True Cons.prems memmap_ok_entry(2) [OF Cons.prems]
      by (intro apart_pages_disjoint) (auto simp: memmap_ok_def)
    then have "(entry_pages e \<inter> A) \<inter> (usable_pages mmap \<inter> A) = {}"
      by (auto simp: usable_pages_def)
    moreover have "usable_pages (e # mmap) \<inter> A = (entry_pages e \<inter> A) \<union> (usable_pages mmap \<inter> A)"
      using True by (auto simp: usable_pages_def)
    ultimately show ?thesis using True Cons.IH [OF ok] by (simp add: card_Un_disjoint)
  next
    case False
    then have "usable_pages (e # mmap) = usable_pages mmap" by (auto simp: usable_pages_def)
    with False Cons.IH [OF ok] show ?thesis by simp
  qed
qed (simp add: usable_pages_def)

lemma card_entry_pages:
  assumes "aligned_entry e b n"
  shows "of_nat (card (entry_pages e)) = e_length e div 4096"
proof -
  have "unat (e_base e div 4096) + unat (e_length e div 4096) \<le> 18446744073709551616"
    using assms by (simp add: aligned_entry_def unat_div)
  from card_u64_range [OF this] show ?thesis by (simp add: entry_pages_def)
qed

lemma scan_fold:
  "pg_usable (fold pmm_scan_entry mmap p) =
     pg_usable p + sum_list (map (\<lambda>e. e_length e div 4096) (filter usable mmap))"
  by (induction mmap arbitrary: p) (simp_all add: pmm_scan_entry_def Let_def algebra_simps)

lemma scan_usable:
  assumes "memmap_ok mmap"
  shows "pg_usable (pmm_scan mmap p) = of_nat (card (usable_pages mmap))"
    and "pg_freed (pmm_scan mmap p) = of_nat (card (usable_pages mmap))"
proof -
  have "map (\<lambda>e. e_length e div 4096) (filter usable mmap) =
      map (\<lambda>e. of_nat (card (entry_pages e \<inter> UNIV))) (filter usable mmap)"
    using memmap_ok_entry(2) [OF assms] by (auto intro!: map_cong card_entry_pages [symmetric])
  then have "sum_list (map (\<lambda>e. e_length e div 4096) (filter usable mmap)) =
      of_nat (sum_list (map (\<lambda>e. card (entry_pages e \<inter> UNIV)) (filter usable mmap)))"
    by (simp only: of_nat_sum_list_map)
  then show "pg_usable (pmm_scan mmap p) = of_nat (card (usable_pages mmap))"
    unfolding sum_card_usable [OF assms] by (simp add: pmm_scan_def Let_def scan_fold)
  then show "pg_freed (pmm_scan mmap p) = of_nat (card (usable_pages mmap))"
    by (simp add: pmm_scan_def Let_def)
qed

section \<open>Choosing the entry for the bitmap\<close>

definition pick_inv :: "pmm_memmap_entry set \<Rightarrow> pmm_memmap_entry option \<times> u64 \<times> u64 \<Rightarrow> bool" where
  "pick_inv S st = (case st of (me, ml, mx) \<Rightarrow>
     (case me of None \<Rightarrow> ml = 0 | Some e \<Rightarrow> e \<in> S \<and> usable e \<and> e_length e = ml \<and> 0 < ml) \<and>
     (\<forall>f\<in>S. usable f \<longrightarrow> e_length f \<le> ml \<and> e_base f + e_length f \<le> mx) \<and>
     (mx = 0 \<or> (\<exists>f\<in>S. usable f \<and> mx = e_base f + e_length f)))"

lemma pick_step_inv:
  assumes "pick_inv S st"
  shows "pick_inv (insert e S) (pick_step e st)"
proof -
  obtain me ml mx where st: "st = (me, ml, mx)" by (cases st)
  show ?thesis
  proof (cases "usable e")
    case False
    with assms show ?thesis by (auto simp: st pick_inv_def pick_step_def split: option.splits)
  next
    case True
    have pos: "0 < e_length e" if "ml < e_length e" using that by (metis word_neq_0_conv word_not_simps(1))
    show ?thesis
      using assms True pos
      by (auto simp: st pick_inv_def pick_step_def Let_def not_less split: option.splits)
  qed
qed

lemma pick_fold_inv: "pick_inv S st \<Longrightarrow> pick_inv (S \<union> set mmap) (fold pick_step mmap st)"
proof (induction mmap arbitrary: S st)
  case (Cons e mmap)
  from Cons.IH [OF pick_step_inv [OF Cons.prems, of e]] show ?case by simp
qed simp

lemma pick_max_entry:
  assumes "pmm_pick_max_entry mmap = Inr (e, mx)"
  shows "e \<in> set mmap" "usable e" "0 < e_length e"
    and "\<And>f. f \<in> set mmap \<Longrightarrow> usable f \<Longrightarrow> e_length f \<le> e_length e \<and> e_base f + e_length f \<le> mx"
    and "mx = 0 \<or> (\<exists>f\<in>set mmap. usable f \<and> mx = e_base f + e_length f)"
  using assms pick_fold_inv [of "{}" "(None, 0, 0)" mmap]
  by (auto simp: pmm_pick_max_entry_def pick_inv_def split: prod.splits option.splits)

definition bitmap_size :: "u64 \<Rightarrow> u64" where
  "bitmap_size mx = ((mx + 4095) div 4096 + 7) div 8"

definition bitmap_page_count :: "u64 \<Rightarrow> u64" where
  "bitmap_page_count mx = (bitmap_size mx + 4095) div 4096"

lemma unat_plus_4095: "unat mx \<le> 18446744073709547520 \<Longrightarrow> unat (mx + 4095 :: u64) = unat mx + 4095"
  by (subst unat_u64_add) simp_all

lemma unat_total:
  assumes "unat mx \<le> 18446744073709547520"
  shows "unat ((mx + 4095) div 4096 :: u64) = (unat mx + 4095) div 4096"
  by (simp add: unat_div unat_plus_4095 [OF assms])

lemma unat_bitmap_size:
  assumes "unat mx \<le> 18446744073709547520"
  shows "unat (bitmap_size mx) = ((unat mx + 4095) div 4096 + 7) div 8"
proof -
  have "unat ((mx + 4095) div 4096 + 7 :: u64) = (unat mx + 4095) div 4096 + 7"
    using assms by (subst unat_u64_add) (simp_all add: unat_total)
  then show ?thesis by (simp add: bitmap_size_def unat_div)
qed

lemma unat_bitmap_page_count:
  assumes "unat mx \<le> 18446744073709547520"
  shows "unat (bitmap_page_count mx) = (unat (bitmap_size mx) + 4095) div 4096"
proof -
  have "unat (bitmap_size mx) \<le> 18446744073709547520"
    using assms by (simp add: unat_bitmap_size)
  then show ?thesis by (simp add: bitmap_page_count_def unat_div unat_plus_4095)
qed

lemma install_bitmap:
  assumes "bitmap_size mx \<le> e_length e" "unat mx \<le> 18446744073709547520"
  shows "\<exists>q. pmm_install_bitmap e mx p = Inr (bitmap_page_count mx, q) \<and> free_pages q = {} \<and>
    pmm_total_pages q = (mx + 4095) div 4096 \<and> pg_usable q = pg_usable p \<and> pg_freed q = pg_freed p"
proof -
  let ?q = "p\<lparr>pmm_total_pages := (mx + 4095) div 4096,
             pmm_bitmap := \<lambda>k. if k < bitmap_size mx then 0xff else pmm_bitmap p k\<rparr>"
  have "i div 8 < bitmap_size mx" if "i < (mx + 4095) div 4096" for i
    using that unfolding word_less_nat_alt unat_bitmap_size [OF assms(2)] unat_total [OF assms(2)]
    by (simp add: unat_div)
  moreover have "bit (0xff :: u8) k" if "k < 8" for k
  proof -
    have "(0xff :: u8) = - 1" by simp
    then show ?thesis using that by (simp only: bit_minus_1_iff) simp
  qed
  ultimately have "free_pages ?q = {}"
    by (auto simp: free_pages_def BITMAP_TEST_bit simp del: bit_numeral_word_iff)
  moreover have "pmm_install_bitmap e mx p = Inr (bitmap_page_count mx, ?q)"
    using assms(1) by (simp add: pmm_install_bitmap_def Let_def bitmap_size_def bitmap_page_count_def not_less)
  ultimately show ?thesis by auto
qed

lemma covered_total:
  assumes "memmap_ok mmap" "pmm_pick_max_entry mmap = Inr (e, mx)"
  shows "covered mmap ((mx + 4095) div 4096)" and "unat mx \<le> 18446744073709547520"
proof -
  have un: "unat (e_base f + e_length f) = e_end f" if "f \<in> set mmap" for f
    using memmap_ok_entry(1) [OF assms(1) that] unfolding e_end_def
    by (intro unat_u64_add) simp
  show mx: "unat mx \<le> 18446744073709547520"
    using pick_max_entry(5) [OF assms(2)] un memmap_ok_entry(1) [OF assms(1)] by auto
  have "of_nat (b + i) < (mx + 4095) div 4096"
    if f: "f \<in> set mmap" "usable f" and al: "aligned_entry f b n" and i: "i < n" for f b n i
  proof -
    have "e_end f \<le> unat mx"
      using pick_max_entry(4) [OF assms(2) f] un [OF f(1)] by (simp add: word_le_nat_alt)
    then have "(b + n) * 4096 \<le> unat mx" using al by (simp add: aligned_entry_def e_end_def)
    moreover have "unat (of_nat (b + i) :: u64) = b + i"
      using al i by (simp add: aligned_entry_def del: of_nat_add)
    ultimately show ?thesis
      using i by (simp add: word_less_nat_alt unat_total [OF mx] del: of_nat_add)
  qed
  then show "covered mmap ((mx + 4095) div 4096)"
    using memmap_ok_entry(2) [OF assms(1)] unfolding covered_def by blast
qed

lemma memmap_ok_pair:
  assumes "memmap_ok mmap" "e \<in> set mmap" "f \<in> set mmap" "e \<noteq> f"
  shows "apart e f \<or> apart f e"
proof -
  obtain i j where ij: "i < length mmap" "j < length mmap" "mmap ! i = e" "mmap ! j = f"
    using assms(2,3) by (auto simp: in_set_conv_nth)
  with assms(1,4) show ?thesis
    by (cases i j rule: linorder_cases) (auto simp: memmap_ok_def sorted_wrt_iff_nth_less)
qed

section \<open>The bitmap's own pages and the self check\<close>

lemma mark_bitmap_fold:
  assumes "\<forall>j\<in>set xs. s + j < pmm_total_pages p"
  shows "\<exists>q. fold_res (\<lambda>j q. if \<not> BITMAP_TEST (s + j) q then pmm_mark_used (s + j) q else Inr q) xs p = Inr q \<and>
    free_pages q = free_pages p - (\<lambda>j. s + j) ` set xs \<and> same_counters p q"
  using assms
proof (induction xs arbitrary: p)
  case (Cons x xs)
  show ?case
  proof (cases "BITMAP_TEST (s + x) p")
    case True
    then have "s + x \<notin> free_pages p" by (simp add: free_pages_def)
    with True Cons show ?thesis by fastforce
  next
    case False
    have "\<not> pmm_total_pages p \<le> s + x" using Cons.prems by (simp add: not_le)
    then have "pmm_mark_used (s + x) p = Inr (BITMAP_SET (s + x) p)" by (simp add: pmm_mark_used_def)
    moreover obtain q where "fold_res (\<lambda>j q. if \<not> BITMAP_TEST (s + j) q then pmm_mark_used (s + j) q else Inr q)
        xs (BITMAP_SET (s + x) p) = Inr q"
      "free_pages q = free_pages p - {s + x} - (\<lambda>j. s + j) ` set xs" "same_counters (BITMAP_SET (s + x) p) q"
      using Cons.IH [of "BITMAP_SET (s + x) p"] Cons.prems by auto
    moreover from this have "same_counters p q"
      using same_counters_trans same_counters_bits(2) by blast
    ultimately show ?thesis using False by auto
  qed
qed simp

lemma protect_entry_ok:
  assumes "unat (e_length e) \<le> 18446744073709547520" "unat (e_length e) + 4096 \<le> (k + fuel) * 4096" "0 < fuel"
    and "k * 4096 < 18446744073709551616"
    and "\<And>k. k * 4096 < unat (e_length e) \<Longrightarrow>
      pmm_total_pages p \<le> e_base e div 4096 + of_nat k \<or> BITMAP_TEST (e_base e div 4096 + of_nat k) p"
  shows "protect_entry fuel e (of_nat k * 4096) p = Inr p"
  using assms(2-4)
proof (induction fuel arbitrary: k)
  case (Suc fuel)
  note uk = unat_page_times [OF Suc.prems(3)]
  show ?case
  proof (cases "k * 4096 < unat (e_length e)")
    case False
    then show ?thesis using uk by (simp add: word_less_nat_alt)
  next
    case True
    have dv: "(of_nat k * 4096 :: u64) div 4096 = of_nat k"
      unfolding word_unat_eq_iff unat_div uk using Suc.prems(3) by simp
    have "protect_entry fuel e (of_nat (Suc k) * 4096) p = Inr p"
      using Suc.prems True assms(1) by (intro Suc.IH) auto
    then have "protect_entry fuel e (of_nat k * 4096 + 4096) p = Inr p" by (simp add: algebra_simps)
    with assms(5) [OF True] dv show ?thesis by (auto simp: Let_def)
  qed
qed simp

lemma self_check_ok:
  assumes "memmap_ok mmap" "free_pages p \<subseteq> usable_pages mmap" "e \<in> set mmap" "\<not> usable e"
  shows "protect_entry (page_loop_fuel e) e 0 p = Inr p"
proof -
  note en = memmap_ok_entry(1) [OF assms(1,3)]
  have chk: "pmm_total_pages p \<le> e_base e div 4096 + of_nat k \<or> BITMAP_TEST (e_base e div 4096 + of_nat k) p"
    if k: "k * 4096 < unat (e_length e)" for k
  proof (rule ccontr)
    assume neg: "\<not> ?thesis"
    let ?i = "e_base e div 4096 + of_nat k :: u64"
    have ui: "unat ?i = unat (e_base e) div 4096 + k"
      using k en unfolding e_end_def by (subst unat_u64_add) (simp_all add: unat_div)
    from neg assms(2) have "?i \<in> usable_pages mmap" by (auto simp: free_pages_def not_le)
    then obtain f where f: "f \<in> set mmap" "usable f" "?i \<in> entry_pages f" by (auto simp: usable_pages_def)
    have "unat (e_base f) \<le> unat ?i * 4096" "unat ?i * 4096 + 4096 \<le> e_end f"
      using f(3) entry_pages_bytes [OF memmap_ok_entry(2) [OF assms(1) f(1,2)]] by auto
    moreover have "apart e f \<or> apart f e"
      using assms(1,3,4) f(1,2) by (intro memmap_ok_pair) auto
    moreover have "unat (e_base e) div 4096 * 4096 + 4096 > unat (e_base e)"
      using div_mod_decomp [of "unat (e_base e)" 4096] mod_less_divisor [of 4096 "unat (e_base e)"] by linarith
    ultimately show False
      using k ui assms(4) f(2) unfolding apart_def e_end_def by (auto simp: add_mult_distrib)
  qed
  have "protect_entry (page_loop_fuel e) e (of_nat 0 * 4096) p = Inr p"
    using en chk by (intro protect_entry_ok) (auto simp: page_loop_fuel_def e_end_def)
  then show ?thesis by simp
qed

lemma protected_fold_ok:
  assumes "memmap_ok mmap" "free_pages p \<subseteq> usable_pages mmap"
  shows "pmm_mark_protected mmap mx p = Inr p"
proof -
  have "set xs \<subseteq> set mmap \<Longrightarrow>
    fold_res (\<lambda>e p. if e_base e \<ge> mx then Inr p else if usable e then Inr p
                    else protect_entry (page_loop_fuel e) e 0 p) xs p = Inr p" for xs
    by (induction xs) (auto simp: self_check_ok [OF assms])
  then show ?thesis by (simp add: pmm_mark_protected_def)
qed

section \<open>The allocator after initialisation\<close>

lemma bitmap_pages_inside:
  assumes "aligned_entry e b n" "bitmap_size mx \<le> e_length e" "unat mx \<le> 18446744073709547520"
  shows "u64_range (e_base e div 4096) (bitmap_page_count mx) \<subseteq> entry_pages e"
proof -
  have "unat (bitmap_size mx) \<le> n * 4096"
    using assms(1,2) by (simp add: aligned_entry_def word_le_nat_alt)
  then have "unat (bitmap_page_count mx) \<le> n"
    by (simp add: unat_bitmap_page_count [OF assms(3)])
  moreover have "unat (e_length e div 4096) = n" using assms(1) by (simp add: aligned_entry_def unat_div)
  ultimately show ?thesis by (auto simp: entry_pages_def u64_range_def)
qed

lemma own_pages_usable:
  assumes ok: "memmap_ok mmap" and pick: "pmm_pick_max_entry mmap = Inr (e, mx)"
    and high: "PMM_LOWMEM_LIMIT \<le> e_base e" and fits: "bitmap_size mx \<le> e_length e"
    and mx: "unat mx \<le> 18446744073709547520"
  shows "u64_range (e_base e div 4096) (bitmap_page_count mx) \<subseteq> usable_pages mmap \<inter> high_pages"
proof -
  note al = memmap_ok_entry(2) [OF ok pick_max_entry(1,2) [OF pick]]
  have "entry_pages e \<subseteq> usable_pages mmap"
    using pick_max_entry(1,2) [OF pick] by (auto simp: usable_pages_def)
  moreover have "256 \<le> e_base e div 4096" using high by (simp add: word_le_nat_alt unat_div)
  ultimately show ?thesis
    using bitmap_pages_inside [OF al fits mx] by (fastforce simp: u64_range_def)
qed

lemma pmm_init_lemma:
  assumes ok: "memmap_ok mmap" and pick: "pmm_pick_max_entry mmap = Inr (e, mx)"
    and high: "PMM_LOWMEM_LIMIT \<le> e_base e" and fits: "bitmap_size mx \<le> e_length e"
  defines "own \<equiv> u64_range (e_base e div 4096) (bitmap_page_count mx)"
  shows "\<exists>p'. pmm_init_from_memmap mmap p = Inr p' \<and> pmm_inv p' \<and>
    free_pages p' = usable_pages mmap \<inter> high_pages - own \<and>
    pmm_total_pages p' = (mx + 4095) div 4096 \<and> pg_self p' = bitmap_page_count mx \<and>
    pg_usable p' = of_nat (card (usable_pages mmap \<inter> high_pages))"
proof -
  note cov = covered_total [OF ok pick] and sc = scan_usable [OF ok, of p]
  let ?U = "usable_pages mmap"
  obtain p1 where p1: "pmm_install_bitmap e mx (pmm_scan mmap p) = Inr (bitmap_page_count mx, p1)"
    "free_pages p1 = {}" "pmm_total_pages p1 = (mx + 4095) div 4096"
    "pg_usable p1 = of_nat (card ?U)" "pg_freed p1 = of_nat (card ?U)"
    using install_bitmap [OF fits cov(2)] sc by metis
  obtain p2 where p2: "pmm_release_usable mmap p1 = Inr (p2, of_nat (card (?U \<inter> low_pages)), 0)"
    "free_pages p2 = ?U \<inter> high_pages" "same_counters p1 p2"
    using release_usable_fold [of mmap p1 0 0] cov(1) p1(2,3) sum_card_usable [OF ok, of low_pages]
    unfolding pmm_release_usable_def low_count_def by auto
  have own_sub: "own \<subseteq> free_pages p2"
    unfolding own_def p2(2) by (rule own_pages_usable [OF ok pick high fits cov(2)])
  have splitU: "card ?U = card (?U \<inter> low_pages) + card (?U \<inter> high_pages)"
    by (subst card_Un_disjoint [symmetric]) (auto intro!: arg_cong [where f = card] simp: not_le)
  have bound: "unat (e_base e div 4096) + unat (bitmap_page_count mx) \<le> 18446744073709551616"
    using cov(2) by (simp add: unat_div unat_bitmap_page_count unat_bitmap_size)
      (use unat_u64_less [of "e_base e"] in linarith)
  note img = u64_range_image [OF bound, folded own_def] and card_own = card_u64_range [OF bound, folded own_def]
  define p3 where "p3 = p2\<lparr>pg_self := bitmap_page_count mx,
      pg_usable := pg_usable p2 - of_nat (card (?U \<inter> low_pages)) - 0,
      pg_freed := pg_freed p2 - of_nat (card (?U \<inter> low_pages)) - 0 - bitmap_page_count mx\<rparr>"
  have f3: "free_pages p3 = free_pages p2" "pmm_total_pages p3 = pmm_total_pages p2"
    by (simp_all add: p3_def free_pages_def BITMAP_TEST_def)
  have "e_base e div 4096 + j < pmm_total_pages p3" if "j < bitmap_page_count mx" for j
    using that img own_sub f3 by (auto simp: free_pages_def)
  then obtain p4 where p4: "fold_res (\<lambda>j q. if \<not> BITMAP_TEST (e_base e div 4096 + j) q
        then pmm_mark_used (e_base e div 4096 + j) q else Inr q) (u64_upto (bitmap_page_count mx)) p3 = Inr p4"
    "free_pages p4 = ?U \<inter> high_pages - own" "same_counters p3 p4"
    using mark_bitmap_fold [of "u64_upto (bitmap_page_count mx)" "e_base e div 4096" p3] img f3 p2(2) by auto
  have "pmm_init_from_memmap mmap p = Inr p4"
    using pick p1(1) p2(1) p4(1) protected_fold_ok [OF ok, of p4 mx] p4(2)
    by (auto simp: pmm_init_from_memmap_def Let_def p3_def)
  moreover have tot: "pmm_total_pages p4 = (mx + 4095) div 4096"
    using p4(3) f3 p2(3) p1(3) by (simp add: same_countersD)
  moreover have "pg_self p4 = bitmap_page_count mx"
    and us: "pg_usable p4 = of_nat (card (?U \<inter> high_pages))"
    and fr: "pg_freed p4 = of_nat (card (?U \<inter> high_pages)) - bitmap_page_count mx"
    using p4(3) p2(3) p1(4,5) splitU by (simp_all add: same_countersD p3_def)
  moreover have "pmm_inv p4"
    using card_free_diff [OF own_sub card_own] tot fr p2(2) p4(2)
    by (simp add: pmm_inv_def word_le_nat_alt unat_total [OF cov(2)] cov(2)) (use cov(2) in linarith)
  ultimately show ?thesis using p4(2) by blast
qed

section \<open>Property\<close>

text \<open>
  (C4) Initialisation establishes the allocator's invariant.  For a memory map
  whose usable entries are page aligned and overlap nothing, whose largest usable
  entry lies above 1 MiB and can hold the bitmap, \<open>pmm_init_from_memmap\<close> returns
  (no panic, every loop ends); the free pages are exactly the usable pages at or
  above 1 MiB minus the pages the bitmap itself occupies, \<open>freed\<close> counts them,
  and \<open>self\<close> and \<open>usable\<close> are the sizes their names say.
\<close>
theorem pmm_init_establishes_inv:
  assumes "memmap_ok mmap" "pmm_pick_max_entry mmap = Inr (e, mx)"
    and "PMM_LOWMEM_LIMIT \<le> e_base e" "bitmap_size mx \<le> e_length e"
  shows "\<exists>p'. pmm_init_from_memmap mmap p = Inr p' \<and> pmm_inv p' \<and>
    free_pages p' = usable_pages mmap \<inter> high_pages -
      u64_range (e_base e div PAGE_SIZE) (bitmap_page_count mx) \<and>
    pmm_total_pages p' = (mx + 4095) div 4096 \<and> pg_self p' = bitmap_page_count mx \<and>
    pg_usable p' = of_nat (card (usable_pages mmap \<inter> high_pages))"
  using pmm_init_lemma [OF assms] .

definition memmap_example :: "pmm_memmap_entry list" where
  "memmap_example =
    [\<lparr>e_base = 0, e_length = 0x9f000, e_type = 0\<rparr>, \<lparr>e_base = 0x9fc00, e_length = 0x60400, e_type = 1\<rparr>,
     \<lparr>e_base = 0x100000, e_length = 0x300000, e_type = 0\<rparr>]"

theorem pmm_init_establishes_inv_witness:
  "memmap_ok memmap_example \<and>
   (\<exists>p'. pmm_init_from_memmap memmap_example pmm_example = Inr p' \<and> pmm_inv p' \<and> pg_self p' = 1 \<and>
     pmm_total_pages p' = 1024)"
proof -
  let ?e = "\<lparr>e_base = 0x100000, e_length = 0x300000, e_type = 0\<rparr> :: pmm_memmap_entry"
  have ok: "memmap_ok memmap_example"
    by (simp add: memmap_ok_def memmap_example_def e_end_def apart_def page_aligned_def)
  have "pmm_pick_max_entry memmap_example = Inr (?e, 0x400000)"
    by (simp add: pmm_pick_max_entry_def memmap_example_def pick_step_def Let_def)
  from pmm_init_establishes_inv [OF ok this, of pmm_example] ok show ?thesis
    by (auto simp: bitmap_size_def bitmap_page_count_def)
qed

end
