(* ===== verification/Kstring.thy ===== *)
theory Kstring
  imports LaOS_Prelude
begin

text \<open>
  The freestanding string and memory routines (\<open>kernel/string.c\<close>).  The memory
  routines act on a byte-addressed memory, so that overlapping ranges are visible;
  the string routines read a buffer given as the list of bytes from the pointer
  on, and return \<open>None\<close> when they would read past the end of that buffer.
\<close>

section \<open>Memory routines\<close>

type_synonym memory = "u64 \<Rightarrow> u8"

definition copy_byte :: "u64 \<Rightarrow> u64 \<Rightarrow> u64 \<Rightarrow> memory \<Rightarrow> memory" where
  "copy_byte dest src i m = m(dest + i := m (src + i))"

definition memcpy :: "u64 \<Rightarrow> u64 \<Rightarrow> u64 \<Rightarrow> memory \<Rightarrow> memory" where
  "memcpy dest src n m = fold (copy_byte dest src) (u64_upto n) m"

definition memset :: "u64 \<Rightarrow> u8 \<Rightarrow> u64 \<Rightarrow> memory \<Rightarrow> memory" where
  "memset s c n m = fold (\<lambda>i m. m(s + i := c)) (u64_upto n) m"

definition memmove :: "u64 \<Rightarrow> u64 \<Rightarrow> u64 \<Rightarrow> memory \<Rightarrow> memory" where
  "memmove dest src n m =
     (if src > dest then fold (copy_byte dest src) (u64_upto n) m
      else if src < dest then fold (copy_byte dest src) (rev (u64_upto n)) m
      else m)"

fun memcmp_loop :: "memory \<Rightarrow> u64 \<Rightarrow> u64 \<Rightarrow> u64 list \<Rightarrow> int" where
  "memcmp_loop m s1 s2 [] = 0"
| "memcmp_loop m s1 s2 (i # is) =
     (if m (s1 + i) \<noteq> m (s2 + i) then (if m (s1 + i) < m (s2 + i) then - 1 else 1)
      else memcmp_loop m s1 s2 is)"

definition memcmp :: "u64 \<Rightarrow> u64 \<Rightarrow> u64 \<Rightarrow> memory \<Rightarrow> int" where
  "memcmp s1 s2 n m = memcmp_loop m s1 s2 (u64_upto n)"

section \<open>String routines\<close>

fun strlen_loop :: "u8 list \<Rightarrow> nat \<Rightarrow> nat option" where
  "strlen_loop [] n = None"
| "strlen_loop (c # s) n = (if c \<noteq> 0 then strlen_loop s (n + 1) else Some n)"

text \<open>\<open>strlen\<close> of a null pointer is \<open>0\<close>; a pointer is the buffer it points into.\<close>

definition strlen :: "u8 list option \<Rightarrow> nat option" where
  "strlen s = (case s of None \<Rightarrow> Some 0 | Some b \<Rightarrow> strlen_loop b 0)"

fun strcmp :: "u8 list \<Rightarrow> u8 list \<Rightarrow> int option" where
  "strcmp (a # s1) (b # s2) =
     (if a \<noteq> 0 \<and> a = b then strcmp s1 s2 else Some (int (unat a) - int (unat b)))"
| "strcmp _ _ = None"

fun strstr_match :: "u8 list \<Rightarrow> u8 list \<Rightarrow> bool option" where
  "strstr_match (h # hs) (n # ns) =
     (if h \<noteq> 0 \<and> n \<noteq> 0 \<and> h = n then strstr_match hs ns else Some (n = 0))"
| "strstr_match _ _ = None"

text \<open>The result is the offset of the match in the haystack, \<open>Some None\<close> for NULL.\<close>

fun strstr_loop :: "nat \<Rightarrow> u8 list \<Rightarrow> u8 list \<Rightarrow> nat option option" where
  "strstr_loop off [] needle = None"
| "strstr_loop off (h # hs) [] = None"
| "strstr_loop off (h # hs) (n # ns) =
     (if h = 0 then Some None
      else if h \<noteq> n then strstr_loop (Suc off) hs (n # ns)
      else case strstr_match (h # hs) (n # ns) of
             None \<Rightarrow> None
           | Some True \<Rightarrow> Some (Some off)
           | Some False \<Rightarrow> strstr_loop (Suc off) hs (n # ns))"

fun strstr :: "u8 list \<Rightarrow> u8 list \<Rightarrow> nat option option" where
  "strstr haystack [] = None"
| "strstr haystack (n # ns) = (if n = 0 then Some (Some 0) else strstr_loop 0 haystack (n # ns))"

section \<open>Copying ranges\<close>

definition no_wrap :: "u64 \<Rightarrow> u64 \<Rightarrow> bool" where
  "no_wrap p n \<longleftrightarrow> unat p + unat n \<le> 18446744073709551616"

lemma add_left_cancel_u64: "(p + i :: u64) = p + j \<longleftrightarrow> i = j"
  by simp

lemma no_wrap_less:
  assumes "no_wrap p n" "i < n"
  shows "unat (p + i) = unat p + unat i"
  using assms by (simp add: no_wrap_def word_less_nat_alt unat_u64_add)

lemma copy_fold_get:
  fixes dest src :: u64 and m :: memory
  assumes "distinct is" "\<And>k j. k < length is \<Longrightarrow> j < k \<Longrightarrow> src + is ! k \<noteq> dest + is ! j"
  shows "fold (copy_byte dest src) is m a =
    (if a \<in> (\<lambda>i. dest + i) ` set is then m (src + (a - dest)) else m a)"
  using assms
proof (induction "is" arbitrary: m)
  case (Cons i "is")
  let ?m = "copy_byte dest src i m"
  have IH: "fold (copy_byte dest src) is ?m a =
    (if a \<in> (\<lambda>i. dest + i) ` set is then ?m (src + (a - dest)) else ?m a)"
  proof (rule Cons.IH)
    show "distinct is" using Cons.prems(1) by simp
    show "src + is ! k \<noteq> dest + is ! j" if "k < length is" "j < k" for k j
      using Cons.prems(2) [of "Suc k" "Suc j"] that by simp
  qed
  show ?case
  proof (cases "a \<in> (\<lambda>i. dest + i) ` set is")
    case True
    then obtain j where j: "j \<in> set is" "a = dest + j" by blast
    then obtain k where "k < length is" "is ! k = j" by (auto simp: in_set_conv_nth)
    then have "src + j \<noteq> dest + i" using Cons.prems(2) [of "Suc k" 0] by simp
    moreover have "a - dest = j" using j(2) by simp
    ultimately show ?thesis using IH True by (simp add: copy_byte_def [of dest src i])
  next
    case False
    with IH show ?thesis by (auto simp: copy_byte_def [of dest src i])
  qed
qed simp

lemma fold_set_get:
  "fold (\<lambda>i m. m(s + i := c)) is m a = (if a \<in> (\<lambda>i. s + i) ` set is then c else m a)"
  by (induction "is" arbitrary: m) auto

lemma range_offset_iff:
  assumes "no_wrap p n"
  shows "a \<in> (\<lambda>i. p + i) ` {i. i < n} \<longleftrightarrow> a \<in> u64_range p n"
  using u64_range_image [of p n] assms by (simp add: no_wrap_def)

lemma memmove_get:
  assumes "no_wrap dest n" "no_wrap src n"
  shows "memmove dest src n m a = (if a \<in> u64_range dest n then m (src + (a - dest)) else m a)"
proof -
  consider "src > dest" | "src < dest" | "src = dest" by (meson linorder_less_linear)
  then show ?thesis
  proof cases
    case 1
    have "src + u64_upto n ! k \<noteq> dest + u64_upto n ! j" if kj: "k < length (u64_upto n)" "j < k" for k j
    proof -
      have "unat (src + u64_upto n ! k) = unat src + k" "unat (dest + u64_upto n ! j) = unat dest + j"
        using assms kj unat_u64_less [of n]
        by (simp_all add: u64_upto_nth no_wrap_less word_less_nat_alt)
      with 1 kj show ?thesis unfolding word_unat_eq_iff word_less_nat_alt by linarith
    qed
    then show ?thesis
      using copy_fold_get [of "u64_upto n" src dest m a] 1 range_offset_iff [OF assms(1), of a]
      by (simp add: memmove_def)
  next
    case 2
    have "src + rev (u64_upto n) ! k \<noteq> dest + rev (u64_upto n) ! j"
      if kj: "k < length (rev (u64_upto n))" "j < k" for k j
    proof -
      have "unat (src + rev (u64_upto n) ! k) = unat src + (unat n - Suc k)"
        "unat (dest + rev (u64_upto n) ! j) = unat dest + (unat n - Suc j)"
        using assms kj unat_u64_less [of n]
        by (simp_all add: rev_nth u64_upto_nth no_wrap_less word_less_nat_alt del: of_nat_diff)
      moreover have "unat n - Suc k < unat n - Suc j" using kj by simp
      ultimately show ?thesis using 2 unfolding word_unat_eq_iff word_less_nat_alt by linarith
    qed
    then show ?thesis
      using copy_fold_get [of "rev (u64_upto n)" src dest m a] 2 range_offset_iff [OF assms(1), of a]
      by (simp add: memmove_def leD [OF less_imp_le [OF 2]])
  next
    case 3
    then show ?thesis by (simp add: memmove_def)
  qed
qed

lemma memset_get:
  "no_wrap s n \<Longrightarrow> memset s c n m a = (if a \<in> u64_range s n then c else m a)"
  using range_offset_iff [of s n a] by (simp add: memset_def fold_set_get)

lemma memcpy_eq_memmove:
  assumes "no_wrap dest n" "no_wrap src n"
    and "src > dest \<or> u64_range dest n \<inter> u64_range src n = {}"
  shows "memcpy dest src n m = memmove dest src n m"
proof (cases "src > dest")
  case True
  then show ?thesis by (simp add: memcpy_def memmove_def)
next
  case False
  with assms(3) have disj: "u64_range dest n \<inter> u64_range src n = {}" by blast
  have "src + i \<noteq> dest + j" if "i < n" "j < n" for i j
    using that disj range_offset_iff [OF assms(1)] range_offset_iff [OF assms(2)]
    by (metis disjoint_iff imageI mem_Collect_eq)
  then have "src + u64_upto n ! k \<noteq> dest + u64_upto n ! j"
    if "k < length (u64_upto n)" "j < k" for k j
    using that nth_mem [of k "u64_upto n"] nth_mem [of j "u64_upto n"] by simp
  then have "memcpy dest src n m a = (if a \<in> u64_range dest n then m (src + (a - dest)) else m a)" for a
    using copy_fold_get [of "u64_upto n" src dest m a] range_offset_iff [OF assms(1), of a]
    by (simp add: memcpy_def)
  then show ?thesis using memmove_get [OF assms(1,2)] by (intro ext) simp
qed

lemma memcmp_loop_zero: "memcmp_loop m p q is = 0 \<longleftrightarrow> (\<forall>i\<in>set is. m (p + i) = m (q + i))"
  by (induction "is") auto

section \<open>C strings\<close>

definition cstring :: "u8 list \<Rightarrow> u8 list \<Rightarrow> bool" where
  "cstring b s \<longleftrightarrow> 0 \<notin> set s \<and> (\<exists>r. b = s @ 0 # r)"

lemma strlen_loop_cstring: "cstring b s \<Longrightarrow> strlen_loop b n = Some (n + length s)"
proof -
  have "0 \<notin> set s \<Longrightarrow> strlen_loop (s @ 0 # r) n = Some (n + length s)" for r
    by (induction s arbitrary: n) auto
  then show "cstring b s \<Longrightarrow> ?thesis" by (auto simp: cstring_def)
qed

lemma strlen_loop_overrun: "strlen_loop b n = None \<longleftrightarrow> 0 \<notin> set b"
  by (induction b n rule: strlen_loop.induct) auto

lemma strcmp_cstring:
  assumes "0 \<notin> set s" "0 \<notin> set t"
  shows "\<exists>v. strcmp (s @ 0 # r) (t @ 0 # r') = Some v \<and> (v = 0 \<longleftrightarrow> s = t) \<and>
    (v < 0 \<longleftrightarrow> ord_class.lexordp s t)"
  using assms
proof (induction s arbitrary: t)
  case Nil
  then show ?case by (cases t) (auto simp: uint_0_iff less_le)
next
  case (Cons a s)
  show ?case
  proof (cases t)
    case Nil
    then show ?thesis using Cons.prems by (auto simp: uint_0_iff)
  next
    case t: (Cons b t')
    show ?thesis
    proof (cases "a = b")
      case True
      then show ?thesis using Cons.IH [of t'] Cons.prems t by auto
    next
      case False
      then show ?thesis
        using Cons.prems t by (auto simp: word_less_def word_uint_eq_iff)
    qed
  qed
qed

lemma strstr_match_prefix:
  "0 \<notin> set hs \<Longrightarrow> 0 \<notin> set ns \<Longrightarrow>
   strstr_match (hs @ 0 # r) (ns @ 0 # r') = Some (take (length ns) hs = ns)"
proof (induction hs arbitrary: ns)
  case Nil
  then show ?case by (cases ns) auto
next
  case (Cons h hs)
  then show ?case by (cases ns) auto
qed

definition occurs_at :: "u8 list \<Rightarrow> u8 list \<Rightarrow> nat \<Rightarrow> bool" where
  "occurs_at hs ns k \<longleftrightarrow> k < length hs \<and> take (length ns) (drop k hs) = ns"

lemma strstr_loop_first:
  assumes "0 \<notin> set hs" "0 \<notin> set ns" "ns \<noteq> []"
  shows "\<exists>res. strstr_loop off (hs @ 0 # r) (ns @ 0 # r') = Some res \<and>
    (case res of None \<Rightarrow> \<forall>k. \<not> occurs_at hs ns k
     | Some k \<Rightarrow> off \<le> k \<and> occurs_at hs ns (k - off) \<and> (\<forall>j<k - off. \<not> occurs_at hs ns j))"
  using assms
proof (induction hs arbitrary: off)
  case Nil
  then show ?case by (cases ns) (auto simp: occurs_at_def)
next
  case (Cons h hs)
  obtain n ns' where ns: "ns = n # ns'" using Cons.prems(3) by (cases ns) auto
  have occ_Suc: "occurs_at (h # hs) ns (Suc k) \<longleftrightarrow> occurs_at hs ns k" for k
    by (simp add: occurs_at_def)
  have occ_0: "occurs_at (h # hs) ns 0 \<longleftrightarrow> take (length ns) (h # hs) = ns" by (simp add: occurs_at_def)
  have m: "strstr_match (h # hs @ 0 # r) (n # ns' @ 0 # r') = Some (take (length ns) (h # hs) = ns)"
    using strstr_match_prefix [of "h # hs" ns r r'] Cons.prems ns by simp
  show ?case
  proof (cases "take (length ns) (h # hs) = ns")
    case True
    then have "h = n" using ns by simp
    with True m occ_0 ns Cons.prems show ?thesis by auto
  next
    case False
    obtain res where res: "strstr_loop (Suc off) (hs @ 0 # r) (ns @ 0 # r') = Some res"
      "case res of None \<Rightarrow> \<forall>k. \<not> occurs_at hs ns k
       | Some k \<Rightarrow> Suc off \<le> k \<and> occurs_at hs ns (k - Suc off) \<and> (\<forall>j<k - Suc off. \<not> occurs_at hs ns j)"
      using Cons.IH [of "Suc off"] Cons.prems by auto
    have eq: "strstr_loop off ((h # hs) @ 0 # r) (ns @ 0 # r') = Some res"
      using False m res(1) ns Cons.prems by auto
    show ?thesis
    proof (cases res)
      case None
      then have "\<not> occurs_at (h # hs) ns k" for k
        using res(2) False occ_0 occ_Suc by (cases k) auto
      with None eq show ?thesis by auto
    next
      case (Some k)
      then have k: "Suc off \<le> k" "occurs_at hs ns (k - Suc off)" "\<forall>j<k - Suc off. \<not> occurs_at hs ns j"
        using res(2) by auto
      have ks: "k - off = Suc (k - Suc off)" using k(1) by simp
      have "\<not> occurs_at (h # hs) ns j" if "j < k - off" for j
        using that k(3) False occ_0 occ_Suc ks by (cases j) auto
      with Some eq k occ_Suc ks show ?thesis by auto
    qed
  qed
qed

section \<open>Properties\<close>

text \<open>
  (C17) \<open>memmove\<close> copies correctly for every overlap: as long as neither range
  wraps around the address space, each byte of the destination range holds the
  byte the source range held before the call, and no other byte changes.
\<close>
theorem memmove_correct:
  assumes "no_wrap dest n" "no_wrap src n"
  shows "memmove dest src n m a = (if a \<in> u64_range dest n then m (src + (a - dest)) else m a)"
  using memmove_get [OF assms] .

theorem memmove_correct_witness:
  "memmove 12 10 5 (\<lambda>a. ucast a) 16 = 14 \<and> memmove 12 10 5 (\<lambda>a. ucast a) 17 = 17"
  using memmove_correct [of 12 5 10 "\<lambda>a. ucast a" 16] memmove_correct [of 12 5 10 "\<lambda>a. ucast a" 17]
  by (simp add: no_wrap_def u64_range_def)

text \<open>
  \<open>strcmp\<close> on two NUL-terminated strings reads no byte behind either
  terminator, returns zero exactly for equal strings and a negative value exactly
  when the first is smaller in the lexicographic order of unsigned bytes.
\<close>
theorem strcmp_lexicographic:
  assumes "cstring b1 s" "cstring b2 t"
  shows "\<exists>v. strcmp b1 b2 = Some v \<and> (v = 0 \<longleftrightarrow> s = t) \<and> (v < 0 \<longleftrightarrow> ord_class.lexordp s t)"
  using assms strcmp_cstring [of s t] by (auto simp: cstring_def)

theorem strcmp_lexicographic_witness: "strcmp [97, 98, 0] [97, 99, 0, 7] = Some (- 1)"
proof -
  have "cstring [97, 98, 0] [97, 98]" "cstring [97, 99, 0, 7] [97, 99]" by (auto simp: cstring_def)
  from strcmp_lexicographic [OF this] show ?thesis by simp
qed

text \<open>
  \<open>strstr\<close> finds the first occurrence: for NUL-terminated arguments it
  terminates without reading past a terminator and returns the smallest offset at
  which the needle occurs, NULL when it occurs nowhere, and offset 0 for an empty
  needle.
\<close>
theorem strstr_first_occurrence:
  assumes "cstring b1 hs" "cstring b2 ns"
  shows "\<exists>res. strstr b1 b2 = Some res \<and>
    (case res of None \<Rightarrow> ns \<noteq> [] \<and> (\<forall>k. \<not> occurs_at hs ns k)
     | Some k \<Rightarrow> if ns = [] then k = 0 else occurs_at hs ns k \<and> (\<forall>j<k. \<not> occurs_at hs ns j))"
proof (cases "ns = []")
  case True
  with assms(2) show ?thesis by (auto simp: cstring_def)
next
  case False
  then obtain r r' where b: "b1 = hs @ 0 # r" "b2 = ns @ 0 # r'" "0 \<notin> set hs" "0 \<notin> set ns"
    using assms by (auto simp: cstring_def)
  then have "strstr b1 b2 = strstr_loop 0 b1 b2" using False by (cases ns) auto
  with strstr_loop_first [OF b(3,4) False, of 0 r r'] False b show ?thesis
    by (auto split: option.splits)
qed

theorem strstr_first_occurrence_witness: "strstr [97, 98, 97, 98, 99, 0] [97, 98, 99, 0] = Some (Some 2)"
proof -
  have "cstring [97, 98, 97, 98, 99, 0] [97, 98, 97, 98, 99]" "cstring [97, 98, 99, 0] [97, 98, 99]"
    by (auto simp: cstring_def)
  from strstr_first_occurrence [OF this] show ?thesis by simp
qed

end
