(* ===== verification/Klist.thy ===== *)
theory Klist
  imports LaOS_Prelude
begin

text \<open>
  Intrusive circular doubly linked lists (\<open>kernel/list.h\<close>), at the level of the
  pointers: a node is an address, its \<open>next\<close> and \<open>prev\<close> fields are two maps, and
  every C assignment is one map update, in the order of the source.

  \<open>dlist s h xs\<close> relates a store to the HOL list of the nodes linked to the head
  \<open>h\<close>.  The lemmas show that each primitive implements the list operation its
  clients use it for (so the other theories of the development work on HOL lists),
  that traversal ends and visits exactly these nodes, and, for the RCU variants,
  what a lock-free reader can see between any two stores of the writer.
\<close>

section \<open>Nodes and primitives\<close>

record links =
  lnext :: "u64 \<Rightarrow> u64"
  lprev :: "u64 \<Rightarrow> u64"

definition set_next :: "u64 \<Rightarrow> u64 \<Rightarrow> links \<Rightarrow> links" where
  "set_next n v s = s\<lparr>lnext := (lnext s)(n := v)\<rparr>"

definition set_prev :: "u64 \<Rightarrow> u64 \<Rightarrow> links \<Rightarrow> links" where
  "set_prev n v s = s\<lparr>lprev := (lprev s)(n := v)\<rparr>"

definition list_init :: "u64 \<Rightarrow> links \<Rightarrow> links" where
  "list_init ptr s = set_prev ptr ptr (set_next ptr ptr s)"

definition list_add_between :: "u64 \<Rightarrow> u64 \<Rightarrow> u64 \<Rightarrow> links \<Rightarrow> links" where
  "list_add_between newn prev next s =
     set_next prev newn (set_prev newn prev (set_next newn next (set_prev next newn s)))"

definition list_add :: "u64 \<Rightarrow> u64 \<Rightarrow> links \<Rightarrow> links" where
  "list_add newn head s = list_add_between newn head (lnext s head) s"

definition list_add_tail :: "u64 \<Rightarrow> u64 \<Rightarrow> links \<Rightarrow> links" where
  "list_add_tail newn head s = list_add_between newn (lprev s head) head s"

definition list_del_between :: "u64 \<Rightarrow> u64 \<Rightarrow> links \<Rightarrow> links" where
  "list_del_between prev next s = set_next prev next (set_prev next prev s)"

definition list_del :: "u64 \<Rightarrow> links \<Rightarrow> links" where
  "list_del entry s =
     set_prev entry 0 (set_next entry 0 (list_del_between (lprev s entry) (lnext s entry) s))"

definition list_del_init :: "u64 \<Rightarrow> links \<Rightarrow> links" where
  "list_del_init entry s =
     (let s1 = list_del_between (lprev s entry) (lnext s entry) s
      in set_next entry entry (set_prev entry entry s1))"

definition list_empty :: "u64 \<Rightarrow> links \<Rightarrow> bool" where
  "list_empty head s \<longleftrightarrow> lnext s head = head"

definition list_first_entry :: "u64 \<Rightarrow> links \<Rightarrow> u64" where
  "list_first_entry head s = lnext s head"

definition list_last_entry :: "u64 \<Rightarrow> links \<Rightarrow> u64" where
  "list_last_entry head s = lprev s head"

text \<open>
  \<open>list_for_each\<close> from position \<open>pos\<close>: the nodes visited before the head is met
  again, or \<open>None\<close> when the fuel runs out first.  \<open>list_size\<close> counts them.
\<close>

fun list_for_each :: "nat \<Rightarrow> u64 \<Rightarrow> u64 \<Rightarrow> links \<Rightarrow> u64 list option" where
  "list_for_each 0 head pos s = None"
| "list_for_each (Suc fuel) head pos s =
     (if pos = head then Some []
      else map_option ((#) pos) (list_for_each fuel head (lnext s pos) s))"

fun list_for_each_reverse :: "nat \<Rightarrow> u64 \<Rightarrow> u64 \<Rightarrow> links \<Rightarrow> u64 list option" where
  "list_for_each_reverse 0 head pos s = None"
| "list_for_each_reverse (Suc fuel) head pos s =
     (if pos = head then Some []
      else map_option ((#) pos) (list_for_each_reverse fuel head (lprev s pos) s))"

definition list_size :: "nat \<Rightarrow> u64 \<Rightarrow> links \<Rightarrow> nat option" where
  "list_size fuel head s = map_option length (list_for_each fuel head (lnext s head) s)"

text \<open>
  \<open>list_for_each_safe\<close> with a body that unlinks the current node: the successor is
  read before the body runs.
\<close>

fun list_del_each_safe :: "nat \<Rightarrow> u64 \<Rightarrow> u64 \<Rightarrow> u64 \<Rightarrow> links \<Rightarrow> (u64 list \<times> links) option" where
  "list_del_each_safe 0 head pos n s = None"
| "list_del_each_safe (Suc fuel) head pos n s =
     (if pos = head then Some ([], s)
      else let s1 = list_del pos s in
        map_option (\<lambda>(xs, t). (pos # xs, t)) (list_del_each_safe fuel head n (lnext s1 n) s1))"

section \<open>RCU variants as sequences of stores\<close>

datatype store = StNext u64 u64 | StPrev u64 u64

fun do_store :: "store \<Rightarrow> links \<Rightarrow> links" where
  "do_store (StNext n v) s = set_next n v s"
| "do_store (StPrev n v) s = set_prev n v s"

definition list_add_between_rcu :: "u64 \<Rightarrow> u64 \<Rightarrow> u64 \<Rightarrow> store list" where
  "list_add_between_rcu newn prev next =
     [StNext newn next, StPrev newn prev, StPrev next newn, StNext prev newn]"

definition list_add_rcu :: "u64 \<Rightarrow> u64 \<Rightarrow> links \<Rightarrow> store list" where
  "list_add_rcu newn head s = list_add_between_rcu newn head (lnext s head)"

definition list_add_tail_rcu :: "u64 \<Rightarrow> u64 \<Rightarrow> links \<Rightarrow> store list" where
  "list_add_tail_rcu newn head s = list_add_between_rcu newn (lprev s head) head"

definition list_del_rcu :: "u64 \<Rightarrow> links \<Rightarrow> store list" where
  "list_del_rcu entry s = [StNext (lprev s entry) (lnext s entry), StPrev (lnext s entry) (lprev s entry)]"

abbreviation run_stores :: "store list \<Rightarrow> links \<Rightarrow> links" where
  "run_stores sts s \<equiv> fold do_store sts s"

section \<open>Paths and the abstraction to lists\<close>

named_theorems link_simps \<open>field access after link updates\<close>

fun lpath :: "(u64 \<Rightarrow> u64) \<Rightarrow> u64 \<Rightarrow> u64 list \<Rightarrow> u64 \<Rightarrow> bool" where
  "lpath f a [] b \<longleftrightarrow> f a = b"
| "lpath f a (x # xs) b \<longleftrightarrow> f a = x \<and> lpath f x xs b"

definition dlist :: "links \<Rightarrow> u64 \<Rightarrow> u64 list \<Rightarrow> bool" where
  "dlist s h xs \<longleftrightarrow> distinct (h # xs) \<and> lpath (lnext s) h xs h \<and> lpath (lprev s) h (rev xs) h"

lemma set_fields [simp, link_simps]:
  "lnext (set_next n v s) = (lnext s)(n := v)" "lprev (set_next n v s) = lprev s"
  "lnext (set_prev n v s) = lnext s" "lprev (set_prev n v s) = (lprev s)(n := v)"
  by (simp_all add: set_next_def set_prev_def)

lemma lpath_append: "lpath f a (xs @ y # ys) b \<longleftrightarrow> lpath f a xs y \<and> lpath f y ys b"
  by (induction xs arbitrary: a) auto

lemma lpath_upd [simp]: "p \<noteq> a \<Longrightarrow> p \<notin> set xs \<Longrightarrow> lpath (f(p := q)) a xs b = lpath f a xs b"
  by (induction xs arbitrary: a) auto

lemma lpath_unique:
  "lpath f a xs b \<Longrightarrow> lpath f a ys b \<Longrightarrow> b \<notin> set xs \<Longrightarrow> b \<notin> set ys \<Longrightarrow> xs = ys"
proof (induction xs arbitrary: a ys)
  case Nil
  then show ?case by (cases ys) auto
next
  case (Cons x xs)
  then show ?case by (cases ys) auto
qed

lemma lpath_last_upd:
  "distinct (a # xs) \<Longrightarrow> lpath f a xs b \<Longrightarrow> lpath (f(last (a # xs) := c)) a xs c"
proof (induction xs arbitrary: a)
  case (Cons x xs)
  then have "last (x # xs) \<noteq> a" by (metis distinct.simps(2) last_in_set list.simps(3))
  with Cons show ?case by simp
qed simp

lemma dlist_distinct: "dlist s h xs \<Longrightarrow> distinct xs \<and> h \<notin> set xs"
  by (simp add: dlist_def)

lemma dlist_empty_iff: "dlist s h xs \<Longrightarrow> list_empty h s \<longleftrightarrow> xs = []"
  by (cases xs) (auto simp: dlist_def list_empty_def)

lemma dlist_first: "dlist s h (x # xs) \<Longrightarrow> list_first_entry h s = x"
  by (simp add: dlist_def list_first_entry_def)

lemma dlist_last: "dlist s h (xs @ [x]) \<Longrightarrow> list_last_entry h s = x"
  by (simp add: dlist_def list_last_entry_def)

lemma dlist_unique: "dlist s h xs \<Longrightarrow> dlist s h ys \<Longrightarrow> xs = ys"
  using lpath_unique [of "lnext s" h xs h ys] by (auto simp: dlist_def)

lemma dlist_init: "dlist (list_init h s) h []"
  by (simp add: dlist_def list_init_def)

section \<open>Insertion and removal\<close>

lemma hd_rev_snoc: "hd (rev xs @ [h]) = last (h # xs)"
  by (cases xs rule: rev_cases) auto

lemma last_rev_cons: "last (h # rev xs) = hd (xs @ [h])"
  by (cases xs) auto

lemma last_notin: "distinct (h # as @ bs) \<Longrightarrow> last (h # as) \<notin> set bs"
  by (cases as rule: rev_cases) auto

lemma lpath_insert:
  assumes "distinct (h # as @ bs)" "n \<notin> set (h # as @ bs)" "lpath f h (as @ bs) h"
  shows "lpath (f(n := hd (bs @ [h]), last (h # as) := n)) h (as @ n # bs) h"
proof -
  have ln: "last (h # as) \<noteq> n" "last (h # as) \<notin> set bs"
    using assms(2) last_notin [OF assms(1)] last_in_set [of "h # as"] by auto
  have upd: "f(n := hd (bs @ [h]), last (h # as) := n) = f(last (h # as) := n, n := hd (bs @ [h]))"
    using ln by (simp add: fun_upd_twist)
  show ?thesis
  proof (cases bs)
    case Nil
    then have "lpath (f(last (h # as) := n)) h as n"
      using assms by (intro lpath_last_upd [where b = h]) auto
    with assms Nil show ?thesis unfolding upd by (simp add: lpath_append)
  next
    case (Cons b bs')
    then have p: "lpath f h as b" "lpath f b bs' h" using assms(3) by (auto simp: lpath_append)
    then have "lpath (f(last (h # as) := n)) h as n"
      using assms(1) by (intro lpath_last_upd [where b = b]) auto
    with assms Cons p ln show ?thesis unfolding upd by (simp add: lpath_append del: last.simps)
  qed
qed

lemma lpath_remove:
  assumes "distinct (h # as @ e # bs)" "lpath f h (as @ e # bs) h"
  shows "lpath (f(last (h # as) := hd (bs @ [h]))) h (as @ bs) h"
proof -
  have p: "lpath f h as e" "lpath f e bs h" using assms(2) by (auto simp: lpath_append)
  have "lpath (f(last (h # as) := hd (bs @ [h]))) h as (hd (bs @ [h]))"
    using assms(1) p(1) by (intro lpath_last_upd [where b = e]) auto
  moreover have "last (h # as) \<notin> set bs" using last_notin [of h as "e # bs"] assms(1) by auto
  ultimately show ?thesis
    using p(2) by (cases bs) (auto simp: lpath_append simp del: last.simps)
qed

lemma dlist_add_between:
  assumes "dlist s h (as @ bs)" "n \<notin> set (h # as @ bs)"
  shows "dlist (list_add_between n (last (h # as)) (hd (bs @ [h])) s) h (as @ n # bs)"
proof -
  let ?p = "last (h # as)" and ?x = "hd (bs @ [h])"
  have d: "distinct (h # as @ bs)" and nx: "lpath (lnext s) h (as @ bs) h"
    and pv: "lpath (lprev s) h (rev bs @ rev as) h"
    using assms(1) by (simp_all add: dlist_def)
  have "?x \<noteq> n" using assms(2) by (cases bs) auto
  then have tw: "(lprev s)(?x := n, n := ?p) = (lprev s)(n := ?p, ?x := n)" by (simp add: fun_upd_twist)
  have "distinct (h # rev bs @ rev as)" using d by auto
  from lpath_insert [OF this _ pv, of n] assms(2)
  have "lpath ((lprev s)(n := ?p, ?x := n)) h (rev bs @ n # rev as) h"
    by (simp only: hd_rev_snoc last_rev_cons) auto
  moreover have "lpath ((lnext s)(n := ?x, ?p := n)) h (as @ n # bs) h"
    using lpath_insert [OF d assms(2) nx] .
  ultimately show ?thesis
    using d assms(2) by (simp add: dlist_def list_add_between_def tw del: last.simps) auto
qed

lemma dlist_adjacent:
  assumes "dlist s h (as @ e # bs)"
  shows "lprev s e = last (h # as)" "lnext s e = hd (bs @ [h])"
proof -
  show "lnext s e = hd (bs @ [h])"
    using assms by (cases bs) (auto simp: dlist_def lpath_append)
  have "lpath (lprev s) h (rev bs @ e # rev as) h" using assms by (simp add: dlist_def)
  then have "lpath (lprev s) e (rev as) h" by (simp add: lpath_append)
  then show "lprev s e = last (h # as)"
    using hd_rev_snoc [of as h] by (cases "rev as") auto
qed

lemma dlist_ends:
  assumes "dlist s h xs"
  shows "lnext s h = hd (xs @ [h])" "lprev s h = last (h # xs)"
proof -
  show "lnext s h = hd (xs @ [h])" using assms by (cases xs) (auto simp: dlist_def)
  show "lprev s h = last (h # xs)" using assms by (cases xs rule: rev_cases) (auto simp: dlist_def)
qed

lemma dlist_add: "dlist s h xs \<Longrightarrow> n \<notin> set (h # xs) \<Longrightarrow> dlist (list_add n h s) h (n # xs)"
  using dlist_add_between [of s h "[]" xs n] by (simp add: list_add_def dlist_ends)

lemma dlist_add_tail: "dlist s h xs \<Longrightarrow> n \<notin> set (h # xs) \<Longrightarrow> dlist (list_add_tail n h s) h (xs @ [n])"
  using dlist_add_between [of s h xs "[]" n] by (simp add: list_add_tail_def dlist_ends)

lemma dlist_del_between:
  assumes "dlist s h (as @ e # bs)"
  shows "dlist (list_del_between (lprev s e) (lnext s e) s) h (as @ bs)"
proof -
  have d: "distinct (h # as @ e # bs)" and nx: "lpath (lnext s) h (as @ e # bs) h"
    and pv: "lpath (lprev s) h (rev bs @ e # rev as) h"
    using assms by (simp_all add: dlist_def)
  have "distinct (h # rev bs @ e # rev as)" using d by auto
  from lpath_remove [OF this pv]
  have "lpath ((lprev s)(hd (bs @ [h]) := last (h # as))) h (rev bs @ rev as) h"
    by (simp only: hd_rev_snoc last_rev_cons)
  with d lpath_remove [OF d nx] show ?thesis
    by (simp add: dlist_def list_del_between_def dlist_adjacent [OF assms] del: last.simps)
qed

lemma dlist_frame:
  assumes "dlist s h xs" "e \<notin> set (h # xs)"
  shows "dlist (set_next e v s) h xs" "dlist (set_prev e v s) h xs"
  using assms by (auto simp: dlist_def)

lemma dlist_del_split:
  assumes "dlist s h (as @ e # bs)"
  shows "dlist (list_del e s) h (as @ bs)" "dlist (list_del_init e s) h (as @ bs)"
proof -
  have e: "e \<notin> set (h # as @ bs)" using assms by (auto simp: dlist_def)
  note base = dlist_del_between [OF assms]
  show "dlist (list_del e s) h (as @ bs)"
    unfolding list_del_def by (intro dlist_frame base e)
  show "dlist (list_del_init e s) h (as @ bs)"
    unfolding list_del_init_def Let_def by (intro dlist_frame base e)
qed

lemma dlist_del:
  assumes "dlist s h xs" "e \<in> set xs"
  shows "dlist (list_del e s) h (remove1 e xs)"
proof -
  obtain as bs where xs: "xs = as @ e # bs" "e \<notin> set as" using assms(2) split_list_first by metis
  then show ?thesis using dlist_del_split(1) [of s h as e bs] assms(1) by (simp add: remove1_append)
qed

lemma dlist_del_init:
  assumes "dlist s h xs" "e \<in> set xs"
  shows "dlist (list_del_init e s) h (remove1 e xs)" "dlist (list_del_init e s) e []"
proof -
  obtain as bs where xs: "xs = as @ e # bs" "e \<notin> set as" using assms(2) split_list_first by metis
  then show "dlist (list_del_init e s) h (remove1 e xs)"
    using dlist_del_split(2) [of s h as e bs] assms(1) by (simp add: remove1_append)
  show "dlist (list_del_init e s) e []" by (simp add: list_del_init_def dlist_def Let_def)
qed

section \<open>Traversal\<close>

lemma list_for_each_path:
  "lpath (lnext s) a xs h \<Longrightarrow> h \<notin> set xs \<Longrightarrow> length xs < fuel \<Longrightarrow>
   list_for_each fuel h (lnext s a) s = Some xs"
proof (induction xs arbitrary: a fuel)
  case Nil
  then show ?case by (cases fuel) auto
next
  case (Cons x xs)
  then show ?case by (cases fuel) auto
qed

lemma list_for_each_reverse_path:
  "lpath (lprev s) a xs h \<Longrightarrow> h \<notin> set xs \<Longrightarrow> length xs < fuel \<Longrightarrow>
   list_for_each_reverse fuel h (lprev s a) s = Some xs"
proof (induction xs arbitrary: a fuel)
  case Nil
  then show ?case by (cases fuel) auto
next
  case (Cons x xs)
  then show ?case by (cases fuel) auto
qed

lemma list_size_dlist: "dlist s h xs \<Longrightarrow> length xs < fuel \<Longrightarrow> list_size fuel h s = Some (length xs)"
  using list_for_each_path [of s h xs h fuel] by (auto simp: list_size_def dlist_def)

lemma list_del_each_safe_dlist:
  assumes "dlist s h xs" "length xs < fuel"
  shows "\<exists>t. list_del_each_safe fuel h (lnext s h) (lnext s (lnext s h)) s = Some (xs, t) \<and> dlist t h []"
  using assms
proof (induction xs arbitrary: s fuel)
  case Nil
  then show ?case by (cases fuel) (auto simp: dlist_def)
next
  case (Cons x xs)
  from Cons.prems(2) obtain fuel' where f: "fuel = Suc fuel'" "length xs < fuel'" by (cases fuel) auto
  have d1: "dlist (list_del x s) h xs" using dlist_del [OF Cons.prems(1), of x] by simp
  have "lnext s h = x" using dlist_ends(1) [OF Cons.prems(1)] by simp
  moreover have "lnext s x = lnext (list_del x s) h"
    using dlist_adjacent(2) [of s h "[]" x xs] Cons.prems(1) dlist_ends(1) [OF d1] by simp
  moreover have "x \<noteq> h" using dlist_distinct [OF Cons.prems(1)] by auto
  ultimately show ?case using Cons.IH [OF d1 f(2)] f(1) by (auto simp: Let_def)
qed

section \<open>The queue contract\<close>

text \<open>
  The part of the interface that queues built on these lists use: append at the
  tail, look at the first node, unlink a node, test for emptiness.
\<close>

fun push_all :: "(u64 \<Rightarrow> u64 \<Rightarrow> 's \<Rightarrow> 's) \<Rightarrow> u64 \<Rightarrow> u64 list \<Rightarrow> 's \<Rightarrow> 's" where
  "push_all push h [] s = s"
| "push_all push h (x # xs) s = push_all push h xs (push x h s)"

fun pop_all :: "(u64 \<Rightarrow> 's \<Rightarrow> bool) \<Rightarrow> (u64 \<Rightarrow> 's \<Rightarrow> u64) \<Rightarrow> (u64 \<Rightarrow> 's \<Rightarrow> 's) \<Rightarrow> nat \<Rightarrow> u64 \<Rightarrow> 's \<Rightarrow> u64 list" where
  "pop_all emp first del 0 h s = []"
| "pop_all emp first del (Suc n) h s =
     (if emp h s then [] else first h s # pop_all emp first del n h (del (first h s) s))"

locale intrusive_queue =
  fixes repr :: "'s \<Rightarrow> u64 \<Rightarrow> u64 list \<Rightarrow> bool"
    and push :: "u64 \<Rightarrow> u64 \<Rightarrow> 's \<Rightarrow> 's" and first :: "u64 \<Rightarrow> 's \<Rightarrow> u64"
    and del :: "u64 \<Rightarrow> 's \<Rightarrow> 's" and emp :: "u64 \<Rightarrow> 's \<Rightarrow> bool"
  assumes repr_distinct: "repr s h xs \<Longrightarrow> distinct (h # xs)"
    and push_repr: "repr s h xs \<Longrightarrow> n \<notin> set (h # xs) \<Longrightarrow> repr (push n h s) h (xs @ [n])"
    and first_repr: "repr s h (x # xs) \<Longrightarrow> first h s = x"
    and del_repr: "repr s h xs \<Longrightarrow> e \<in> set xs \<Longrightarrow> repr (del e s) h (remove1 e xs)"
    and emp_repr: "repr s h xs \<Longrightarrow> emp h s \<longleftrightarrow> xs = []"
begin

lemma push_all_repr:
  "repr s h xs \<Longrightarrow> distinct (h # xs @ ys) \<Longrightarrow> repr (push_all push h ys s) h (xs @ ys)"
proof (induction ys arbitrary: s xs)
  case (Cons y ys)
  then have "repr (push y h s) h (xs @ [y])" by (intro push_repr) auto
  from Cons.IH [OF this] Cons.prems(2) show ?case by simp
qed simp

lemma pop_all_repr: "repr s h xs \<Longrightarrow> pop_all emp first del n h s = take n xs"
proof (induction n arbitrary: s xs)
  case (Suc n)
  show ?case
  proof (cases xs)
    case Nil
    with Suc.prems emp_repr show ?thesis by simp
  next
    case (Cons x xs')
    have "repr (del x s) h xs'" using del_repr [OF Suc.prems, of x] Cons by simp
    with Suc Cons show ?thesis using emp_repr [OF Suc.prems] first_repr by simp
  qed
qed simp

lemma fifo:
  assumes "repr s h []" "distinct (h # xs)" "length xs \<le> n"
  shows "pop_all emp first del n h (push_all push h xs s) = xs"
  using pop_all_repr [of "push_all push h xs s" h xs n] push_all_repr [OF assms(1), of xs] assms by simp

end

interpretation kl: intrusive_queue dlist list_add_tail list_first_entry list_del list_empty
  by unfold_locales
    (auto simp: dlist_distinct dlist_empty_iff dlist_first intro: dlist_add_tail dlist_del)

section \<open>What a lock-free reader sees\<close>

text \<open>
  The nodes a reader meets from the head (or from the node it stands on) after
  any prefix of the writer's stores.
\<close>

definition nodes_after :: "u64 \<Rightarrow> u64 list \<Rightarrow> u64 list" where
  "nodes_after x ys = tl (dropWhile (\<lambda>y. y \<noteq> x) ys)"

text \<open>
  A reader on the head or on any node of \<open>ys\<close> reaches the nodes of \<open>ys\<close> behind it, in
  order, and then the head.
\<close>

definition reader_sees :: "nat \<Rightarrow> u64 \<Rightarrow> u64 list \<Rightarrow> links \<Rightarrow> bool" where
  "reader_sees fuel h ys s \<longleftrightarrow>
     (\<forall>x\<in>set (h # ys). list_for_each fuel h (lnext s x) s = Some (nodes_after x (h # ys)))"

lemma lpath_after: "lpath f a ys b \<Longrightarrow> x \<in> set (a # ys) \<Longrightarrow> lpath f x (nodes_after x (a # ys)) b"
proof (induction ys arbitrary: a)
  case (Cons y ys)
  then show ?case by (cases "x = a") (auto simp: nodes_after_def)
qed (simp add: nodes_after_def)

lemma nodes_after_subset: "set (nodes_after x (a # ys)) \<subseteq> set ys" "length (nodes_after x (a # ys)) \<le> length ys"
proof -
  have "nodes_after x (a # ys) = ys \<or> nodes_after x (a # ys) = tl (dropWhile (\<lambda>y. y \<noteq> x) ys)"
    by (auto simp: nodes_after_def)
  moreover have "set (tl (dropWhile (\<lambda>y. y \<noteq> x) ys)) \<subseteq> set ys"
    by (metis list.sel(2) list.set_sel(2) set_dropWhileD subsetI)
  moreover have "length (tl (dropWhile (\<lambda>y. y \<noteq> x) ys)) \<le> length ys"
    using length_dropWhile_le [of "\<lambda>y. y \<noteq> x" ys] by simp
  ultimately show "set (nodes_after x (a # ys)) \<subseteq> set ys" "length (nodes_after x (a # ys)) \<le> length ys" by auto
qed

lemma lpath_reader:
  assumes "lpath (lnext s) h ys h" "h \<notin> set ys" "length ys < fuel"
  shows "reader_sees fuel h ys s"
  unfolding reader_sees_def
proof
  fix x assume x: "x \<in> set (h # ys)"
  show "list_for_each fuel h (lnext s x) s = Some (nodes_after x (h # ys))"
    using nodes_after_subset [of x h ys] assms(2,3) by (intro list_for_each_path lpath_after assms(1) x) auto
qed

lemma rcu_add_prefix:
  assumes "dlist s h (as @ bs)" "n \<notin> set (h # as @ bs)" "k \<le> 4"
  defines "sts \<equiv> list_add_between_rcu n (last (h # as)) (hd (bs @ [h]))"
  shows "lpath (lnext (run_stores (take k sts) s)) h (if k < 4 then as @ bs else as @ n # bs) h"
proof -
  let ?s = "run_stores (take k sts) s"
  have nx: "lpath (lnext s) h (as @ bs) h" "distinct (h # as @ bs)" using assms(1) by (simp_all add: dlist_def)
  have "lnext ?s = (if k = 0 then lnext s else if k < 4 then (lnext s)(n := hd (bs @ [h]))
      else (lnext s)(n := hd (bs @ [h]), last (h # as) := n))"
    using assms(3) unfolding sts_def list_add_between_rcu_def
    by (auto simp: le_Suc_eq numeral_eq_Suc simp del: last.simps)
  then show ?thesis
    using nx assms(2,3) lpath_insert [OF nx(2) assms(2) nx(1)] by (auto simp del: last.simps)
qed

lemma rcu_add_final:
  "n \<noteq> p \<Longrightarrow> n \<noteq> x \<Longrightarrow> run_stores (list_add_between_rcu n p x) s = list_add_between n p x s"
  by (simp add: list_add_between_rcu_def list_add_between_def set_next_def set_prev_def fun_upd_twist)

lemma rcu_del_prefix:
  assumes "dlist s h (as @ e # bs)" "k \<le> 2"
  defines "s' \<equiv> run_stores (take k (list_del_rcu e s)) s"
  shows "lpath (lnext s') h (if k = 0 then as @ e # bs else as @ bs) h" and "lpath (lnext s') e bs h"
proof -
  have d: "distinct (h # as @ e # bs)" and nx: "lpath (lnext s) h (as @ e # bs) h"
    using assms(1) by (simp_all add: dlist_def)
  have upd: "lnext s' = (if k = 0 then lnext s else (lnext s)(last (h # as) := hd (bs @ [h])))"
    using assms(2) unfolding s'_def list_del_rcu_def dlist_adjacent [OF assms(1)]
    by (auto simp: le_Suc_eq numeral_eq_Suc simp del: last.simps)
  then show "lpath (lnext s') h (if k = 0 then as @ e # bs else as @ bs) h"
    using nx lpath_remove [OF d nx] by (simp del: last.simps)
  have "last (h # as) \<notin> set (e # bs)" by (rule last_notin) (use d in simp)
  with upd nx show "lpath (lnext s') e bs h" by (auto simp: lpath_append simp del: last.simps)
qed

lemma rcu_del_reader:
  assumes "dlist s h xs" "e \<in> set xs" "j \<le> 2" "length xs < fuel"
  shows "reader_sees fuel h (if j = 0 then xs else remove1 e xs) (run_stores (take j (list_del_rcu e s)) s)"
    and "list_for_each fuel h (lnext (run_stores (take j (list_del_rcu e s)) s) e)
      (run_stores (take j (list_del_rcu e s)) s) = Some (nodes_after e xs)"
proof -
  obtain as bs where xs: "xs = as @ e # bs" "e \<notin> set as" using assms(2) split_list_first by metis
  have d: "dlist s h (as @ e # bs)" using assms(1) xs by simp
  have h: "h \<notin> set xs" using assms(1) by (simp add: dlist_def)
  have r: "remove1 e xs = as @ bs" "nodes_after e xs = bs"
    using xs by (simp_all add: remove1_append nodes_after_def dropWhile_append)
  show "reader_sees fuel h (if j = 0 then xs else remove1 e xs) (run_stores (take j (list_del_rcu e s)) s)"
    using rcu_del_prefix(1) [OF d assms(3)] h assms(4) unfolding r(1) by (intro lpath_reader) (auto simp: xs(1) split: if_splits)
  show "list_for_each fuel h (lnext (run_stores (take j (list_del_rcu e s)) s) e)
      (run_stores (take j (list_del_rcu e s)) s) = Some (nodes_after e xs)"
    unfolding r(2) using rcu_del_prefix(2) [OF d assms(3)] h assms(4) xs(1) by (intro list_for_each_path) auto
qed

lemma rcu_del_final:
  assumes "dlist s h xs" "e \<in> set xs"
  shows "dlist (run_stores (list_del_rcu e s) s) h (remove1 e xs)"
proof -
  obtain as bs where xs: "xs = as @ e # bs" "e \<notin> set as" using assms(2) split_list_first by metis
  have "run_stores (list_del_rcu e s) s = list_del_between (lprev s e) (lnext s e) s"
    by (simp add: list_del_rcu_def list_del_between_def set_next_def set_prev_def)
  then show ?thesis using dlist_del_between [of s h as e bs] assms(1) xs by (simp add: remove1_append)
qed

section \<open>Properties\<close>

text \<open>
  (C15) The list primitives implement the list operations.  On a well-formed circular
  list that represents \<open>xs\<close>, empty or not: \<open>list_add\<close> puts a new node in front,
  \<open>list_add_tail\<close> at the end; \<open>list_empty\<close> tests for the empty list; the first and the last
  entry are the ends of \<open>xs\<close>; forward and backward traversals and \<open>list_size\<close> end and see the
  nodes in order, and so does the traversal that unlinks every node it meets.
  For each node of the list, \<open>list_del\<close> removes exactly this node and clears its
  links, and \<open>list_del_init\<close> removes it and leaves it a list of its own.
\<close>
theorem list_primitives_refine:
  assumes "dlist s h xs" "n \<notin> set (h # xs)" "length xs < fuel"
  shows "dlist (list_add n h s) h (n # xs) \<and> dlist (list_add_tail n h s) h (xs @ [n]) \<and>
    (list_empty h s \<longleftrightarrow> xs = []) \<and> list_first_entry h s = hd (xs @ [h]) \<and> list_last_entry h s = last (h # xs) \<and>
    list_for_each fuel h (lnext s h) s = Some xs \<and>
    list_for_each_reverse fuel h (lprev s h) s = Some (rev xs) \<and> list_size fuel h s = Some (length xs) \<and>
    (\<exists>t. list_del_each_safe fuel h (lnext s h) (lnext s (lnext s h)) s = Some (xs, t) \<and> dlist t h []) \<and>
    (\<forall>e\<in>set xs. dlist (list_del e s) h (remove1 e xs) \<and> lnext (list_del e s) e = 0 \<and> lprev (list_del e s) e = 0 \<and>
       dlist (list_del_init e s) h (remove1 e xs) \<and> dlist (list_del_init e s) e [])"
proof (intro conjI ballI)
  show "dlist (list_add n h s) h (n # xs)" "dlist (list_add_tail n h s) h (xs @ [n])" "list_empty h s \<longleftrightarrow> xs = []"
    using assms dlist_add dlist_add_tail dlist_empty_iff by blast+
  show "list_first_entry h s = hd (xs @ [h])" "list_last_entry h s = last (h # xs)"
    using dlist_ends [OF assms(1)] by (simp_all add: list_first_entry_def list_last_entry_def)
  show "list_for_each fuel h (lnext s h) s = Some xs" "list_for_each_reverse fuel h (lprev s h) s = Some (rev xs)"
    using assms list_for_each_path [of s h xs h fuel] list_for_each_reverse_path [of s h "rev xs" h fuel]
    by (auto simp: dlist_def)
  show "list_size fuel h s = Some (length xs)" using list_size_dlist [OF assms(1,3)] .
  show "\<exists>t. list_del_each_safe fuel h (lnext s h) (lnext s (lnext s h)) s = Some (xs, t) \<and> dlist t h []"
    using list_del_each_safe_dlist [OF assms(1,3)] .
qed (use assms(1) dlist_del dlist_del_init in \<open>simp_all add: list_del_def\<close>)

theorem list_primitives_refine_witness:
  "dlist (list_del_init 2 (list_add_tail 3 1 (list_add 2 1 (list_init 1 \<lparr>lnext = \<lambda>_. 0, lprev = \<lambda>_. 0\<rparr>)))) 1 [3] \<and>
   dlist (list_add 2 1 (list_init 1 \<lparr>lnext = \<lambda>_. 0, lprev = \<lambda>_. 0\<rparr>)) 1 [2]"
proof -
  let ?s0 = "list_init 1 \<lparr>lnext = \<lambda>_. 0, lprev = \<lambda>_. 0\<rparr>"
  have s1: "dlist (list_add 2 1 ?s0) 1 [2]" using list_primitives_refine [OF dlist_init, of 2 1 1] by simp
  have "dlist (list_add_tail 3 1 (list_add 2 1 ?s0)) 1 [2, 3]" using list_primitives_refine [OF s1, of 3 2] by simp
  from list_primitives_refine [OF this, of 4 3] s1 show ?thesis by simp
qed

text \<open>
  A queue filled with \<open>list_add_tail\<close> and emptied from the front with
  \<open>list_first_entry\<close> and \<open>list_del\<close> is first in, first out.
\<close>
theorem list_queue_fifo:
  assumes "dlist s h []" "distinct (h # xs)" "length xs \<le> n"
  shows "pop_all list_empty list_first_entry list_del n h (push_all list_add_tail h xs s) = xs"
  using kl.fifo [OF assms] .

theorem list_queue_fifo_witness:
  "pop_all list_empty list_first_entry list_del 5 1
     (push_all list_add_tail 1 [7, 5, 9] (list_init 1 \<lparr>lnext = \<lambda>_. 0, lprev = \<lambda>_. 0\<rparr>)) = [7, 5, 9]"
  using list_queue_fifo [OF dlist_init, of 1 "[7, 5, 9]" 5] by simp

text \<open>
  (C16) Readers of an RCU list never see a broken list.  After any number of the four
  stores of \<open>list_add_rcu\<close> or \<open>list_add_tail_rcu\<close>, on an empty or a filled list, a reader that
  stands on the head or on any node goes on through the rest of the old list, and once all
  stores are done through the rest of the new list.  After any number of the two stores of
  \<open>list_del_rcu\<close> it goes on through the rest of the old or of the shortened list, and a reader
  that stands on the removed node still reaches the nodes behind it.  When all
  stores are done, the list is well formed in both directions.
\<close>
theorem rcu_reader_consistent:
  assumes "dlist s h xs" "n \<notin> set (h # xs)" "length xs + 1 < fuel"
  shows "(\<forall>k\<le>4. reader_sees fuel h (if k < 4 then xs else n # xs) (run_stores (take k (list_add_rcu n h s)) s)) \<and>
    dlist (run_stores (list_add_rcu n h s) s) h (n # xs) \<and>
    (\<forall>k\<le>4. reader_sees fuel h (if k < 4 then xs else xs @ [n]) (run_stores (take k (list_add_tail_rcu n h s)) s)) \<and>
    dlist (run_stores (list_add_tail_rcu n h s) s) h (xs @ [n]) \<and>
    (\<forall>e\<in>set xs. (\<forall>j\<le>2. let s' = run_stores (take j (list_del_rcu e s)) s in
         reader_sees fuel h (if j = 0 then xs else remove1 e xs) s' \<and>
         list_for_each fuel h (lnext s' e) s' = Some (nodes_after e xs)) \<and>
       dlist (run_stores (list_del_rcu e s) s) h (remove1 e xs))"
proof (intro conjI allI impI ballI)
  have h: "h \<notin> set xs" "h \<noteq> n" using assms(1,2) by (auto simp: dlist_def)
  have hd: "list_add_rcu n h s = list_add_between_rcu n (last (h # [])) (hd (xs @ [h]))"
    using dlist_ends(1) [OF assms(1)] by (simp add: list_add_rcu_def)
  have tl: "list_add_tail_rcu n h s = list_add_between_rcu n (last (h # xs)) (hd ([] @ [h]))"
    using dlist_ends(2) [OF assms(1)] by (simp add: list_add_tail_rcu_def)
  show "reader_sees fuel h (if k < 4 then xs else n # xs) (run_stores (take k (list_add_rcu n h s)) s)" if "k \<le> 4" for k
    using rcu_add_prefix [of s h "[]" xs n k] that assms h unfolding hd
    by (intro lpath_reader) (auto split: if_splits simp del: last.simps)
  show "reader_sees fuel h (if k < 4 then xs else xs @ [n]) (run_stores (take k (list_add_tail_rcu n h s)) s)" if "k \<le> 4" for k
    using rcu_add_prefix [of s h xs "[]" n k] that assms h unfolding tl
    by (intro lpath_reader) (auto split: if_splits simp del: last.simps)
  have n: "last (h # xs) \<noteq> n" "hd (xs @ [h]) \<noteq> n" using assms(2) last_in_set [of "h # xs"] by (auto simp: hd_append)
  show "dlist (run_stores (list_add_rcu n h s) s) h (n # xs)"
    using dlist_add_between [of s h "[]" xs n] assms rcu_add_final n h unfolding hd by simp
  show "dlist (run_stores (list_add_tail_rcu n h s) s) h (xs @ [n])"
    using dlist_add_between [of s h xs "[]" n] assms rcu_add_final n h unfolding tl by (simp del: last.simps)
next
  fix e j assume e: "e \<in> set xs" and j: "(j :: nat) \<le> 2"
  show "let s' = run_stores (take j (list_del_rcu e s)) s in
      reader_sees fuel h (if j = 0 then xs else remove1 e xs) s' \<and> list_for_each fuel h (lnext s' e) s' = Some (nodes_after e xs)"
    using rcu_del_reader [OF assms(1) e j] assms(3) by (simp add: Let_def)
next
  fix e assume "e \<in> set xs"
  then show "dlist (run_stores (list_del_rcu e s) s) h (remove1 e xs)" using rcu_del_final [OF assms(1)] by simp
qed

theorem rcu_reader_consistent_witness:
  "list_for_each 9 1 2 (run_stores (list_add_rcu 2 1 (list_init 1 \<lparr>lnext = \<lambda>_. 0, lprev = \<lambda>_. 0\<rparr>))
     (list_init 1 \<lparr>lnext = \<lambda>_. 0, lprev = \<lambda>_. 0\<rparr>)) = Some [2] \<and>
   dlist (run_stores (list_del_rcu 2 (list_add 2 1 (list_init 1 \<lparr>lnext = \<lambda>_. 0, lprev = \<lambda>_. 0\<rparr>)))
     (list_add 2 1 (list_init 1 \<lparr>lnext = \<lambda>_. 0, lprev = \<lambda>_. 0\<rparr>))) 1 []"
proof -
  let ?s = "list_init 1 \<lparr>lnext = \<lambda>_. 0, lprev = \<lambda>_. 0\<rparr>"
  have i: "dlist ?s 1 []" by (rule dlist_init)
  have "reader_sees 9 1 [2] (run_stores (take 4 (list_add_rcu 2 1 ?s)) ?s)"
    using rcu_reader_consistent [OF i, of 2 9, THEN conjunct1, THEN spec, of 4] by simp
  then have "list_for_each 9 1 (lnext (run_stores (list_add_rcu 2 1 ?s) ?s) 1) (run_stores (list_add_rcu 2 1 ?s) ?s) = Some [2]"
    by (simp add: reader_sees_def nodes_after_def list_add_rcu_def list_add_between_rcu_def)
  moreover have "lnext (run_stores (list_add_rcu 2 1 ?s) ?s) 1 = 2"
    by (simp add: list_add_rcu_def list_add_between_rcu_def list_init_def)
  moreover have "dlist (list_add 2 1 ?s) 1 [2]" using dlist_add [OF i, of 2] by simp
  from rcu_reader_consistent [OF this, of 3 9, THEN conjunct2, THEN conjunct2, THEN conjunct2, THEN conjunct2, THEN bspec, of 2]
  have "dlist (run_stores (list_del_rcu 2 (list_add 2 1 ?s)) (list_add 2 1 ?s)) 1 []" by simp
  ultimately show ?thesis by simp
qed

end
