(* ===== verification/Vmm.thy ===== *)
theory Vmm
  imports Pmm
begin

text \<open>
  Four-level page tables (\<open>kernel/vmm.c\<close>, \<open>kernel/arch/x86_64/vmm_arch.h\<close>).

  Physical memory is seen as pages of 512 64-bit entries: \<open>m_pages m t i\<close> is entry
  \<open>i\<close> of the page at physical address \<open>t\<close>.  The higher-half direct map makes every
  physical page addressable at a fixed offset, so \<open>phys_to_virt\<close> and
  \<open>virt_to_phys\<close> disappear and a table pointer is the physical address of its page.
  The state further holds the page allocator, the page-table root register, the
  kernel's root table and the TLB maintenance requests issued so far.  Every
  operation runs under \<open>vmm_lock\<close> (or before other CPUs start) and is one
  transition; \<open>Inl\<close> is the panic on an existing mapping.
\<close>

section \<open>Entries and addresses\<close>

abbreviation PTE_PRESENT :: u64 where "PTE_PRESENT \<equiv> 1"
abbreviation PTE_WRITABLE :: u64 where "PTE_WRITABLE \<equiv> 2"
abbreviation PTE_USER :: u64 where "PTE_USER \<equiv> 4"
abbreviation PTE_HUGE :: u64 where "PTE_HUGE \<equiv> 0x80"
abbreviation PTE_NX :: u64 where "PTE_NX \<equiv> 0x8000000000000000"
abbreviation PTE_ADDR_MASK :: u64 where "PTE_ADDR_MASK \<equiv> 0x000ffffffffff000"

definition pte_present :: "u64 \<Rightarrow> bool" where
  "pte_present e \<longleftrightarrow> e AND PTE_PRESENT \<noteq> 0"

definition PTE_IS_LEAF :: "u64 \<Rightarrow> bool" where
  "PTE_IS_LEAF e \<longleftrightarrow> e AND (PTE_PRESENT OR PTE_HUGE) = PTE_PRESENT OR PTE_HUGE"

definition PML4_IDX :: "u64 \<Rightarrow> u64" where "PML4_IDX v = drop_bit 39 v AND 0x1FF"
definition PDPT_IDX :: "u64 \<Rightarrow> u64" where "PDPT_IDX v = drop_bit 30 v AND 0x1FF"
definition PD_IDX :: "u64 \<Rightarrow> u64" where "PD_IDX v = drop_bit 21 v AND 0x1FF"
definition PT_IDX :: "u64 \<Rightarrow> u64" where "PT_IDX v = drop_bit 12 v AND 0x1FF"

section \<open>Machine state\<close>

datatype tlb_op = FlushOne u64 | BroadcastFlush

record mach =
  m_pmm :: pmm
  m_pages :: "u64 \<Rightarrow> u64 \<Rightarrow> u64"
  m_kernel_pml4 :: u64
  m_cr3 :: u64
  m_tlb :: "tlb_op list"

definition set_entry :: "u64 \<Rightarrow> u64 \<Rightarrow> u64 \<Rightarrow> mach \<Rightarrow> mach" where
  "set_entry t i e m = m\<lparr>m_pages := (m_pages m)(t := (m_pages m t)(i := e))\<rparr>"

definition zero_page :: "u64 \<Rightarrow> mach \<Rightarrow> mach" where
  "zero_page t m = m\<lparr>m_pages := (m_pages m)(t := \<lambda>_. 0)\<rparr>"

definition alloc_page :: "mach \<Rightarrow> u64 \<times> mach" where
  "alloc_page m = (case pmm_alloc (m_pmm m) of (a, p) \<Rightarrow> (a, m\<lparr>m_pmm := p\<rparr>))"

definition tlb :: "tlb_op \<Rightarrow> mach \<Rightarrow> mach" where
  "tlb r m = m\<lparr>m_tlb := m_tlb m @ [r]\<rparr>"

section \<open>Lookup\<close>

definition vmm_is_mapped :: "u64 \<Rightarrow> u64 \<Rightarrow> mach \<Rightarrow> bool" where
  "vmm_is_mapped pml4 v m =
     (let e4 = m_pages m pml4 (PML4_IDX v) in
      if \<not> pte_present e4 then False else
      let e3 = m_pages m (e4 AND NOT 0xFFF) (PDPT_IDX v) in
      if \<not> pte_present e3 then False else if PTE_IS_LEAF e3 then True else
      let e2 = m_pages m (e3 AND NOT 0xFFF) (PD_IDX v) in
      if \<not> pte_present e2 then False else if PTE_IS_LEAF e2 then True else
      let e1 = m_pages m (e2 AND NOT 0xFFF) (PT_IDX v) in
      if \<not> pte_present e1 then False else True)"

definition vmm_get_phys :: "u64 \<Rightarrow> u64 \<Rightarrow> mach \<Rightarrow> u64 res" where
  "vmm_get_phys pml4 v m =
     (if pml4 > 0x00007FFFFFFFFFFF then Inl (Panic ''ERROR: vmm_get_phys received a VIRTUAL address'')
      else Inr (
        let e4 = m_pages m pml4 (PML4_IDX v) in
        if \<not> pte_present e4 then 0 else
        let e3 = m_pages m (e4 AND NOT 0xFFF) (PDPT_IDX v) in
        if \<not> pte_present e3 then 0
        else if PTE_IS_LEAF e3 then (e3 AND NOT 0x3FFFFFFF) + (v AND 0x3FFFFFFF) else
        let e2 = m_pages m (e3 AND NOT 0xFFF) (PD_IDX v) in
        if \<not> pte_present e2 then 0
        else if PTE_IS_LEAF e2 then (e2 AND NOT 0x1FFFFF) + (v AND 0x1FFFFF) else
        let e1 = m_pages m (e2 AND NOT 0xFFF) (PT_IDX v) in
        if \<not> pte_present e1 then 0 else e1 AND NOT 0xFFF))"

section \<open>Unmapping\<close>

definition vmm_unmap_raw :: "u64 \<Rightarrow> u64 \<Rightarrow> mach \<Rightarrow> int \<times> mach" where
  "vmm_unmap_raw pml4 vaddr m =
     (let v = vaddr AND NOT (PAGE_SIZE - 1);
          e4 = m_pages m pml4 (PML4_IDX v) in
      if \<not> pte_present e4 then (- 1, m) else
      let pdpt = e4 AND PTE_ADDR_MASK; e3 = m_pages m pdpt (PDPT_IDX v) in
      if \<not> pte_present e3 then (- 1, m) else
      let pd = e3 AND PTE_ADDR_MASK; e2 = m_pages m pd (PD_IDX v) in
      if \<not> pte_present e2 then (- 1, m) else
      let pt = e2 AND PTE_ADDR_MASK in
      (0, tlb (FlushOne v) (set_entry pt (PT_IDX v) 0 m)))"

definition vmm_unmap :: "u64 \<Rightarrow> u64 \<Rightarrow> mach \<Rightarrow> int \<times> mach" where
  "vmm_unmap pml4 vaddr m =
     (let (n, m1) = vmm_unmap_raw pml4 vaddr m in
      (n, if n = 0 then tlb BroadcastFlush m1 else m1))"

section \<open>Mapping\<close>

text \<open>
  One level of the walk of \<open>__vmm_map\<close>: make entry \<open>i\<close> of table \<open>t\<close> a writable table
  entry (allocating and clearing a table when it is absent, splitting a large page
  into the next smaller size when it is one) and return the next table, or \<open>None\<close>
  when no page is available.
\<close>

definition table_entry :: "u64 \<Rightarrow> u64 \<Rightarrow> u64" where
  "table_entry new_pt flags = new_pt OR PTE_PRESENT OR PTE_WRITABLE OR (flags AND PTE_USER)"

definition fresh_table :: "u64 \<Rightarrow> u64 \<Rightarrow> u64 \<Rightarrow> mach \<Rightarrow> u64 option \<times> mach" where
  "fresh_table flags t i m =
     (let (new_pt, m1) = alloc_page m in
      if new_pt = 0 then (None, m1)
      else let m2 = set_entry t i (table_entry new_pt flags) (zero_page new_pt m1)
           in (Some (m_pages m2 t i AND PTE_ADDR_MASK), m2))"

definition widen_entry :: "u64 \<Rightarrow> u64 \<Rightarrow> u64 \<Rightarrow> mach \<Rightarrow> u64 option \<times> mach" where
  "widen_entry flags t i m =
     (let m1 = set_entry t i (m_pages m t i OR PTE_WRITABLE) m;
          tu = flags AND PTE_USER;
          m2 = (if tu \<noteq> 0 then set_entry t i (m_pages m1 t i OR tu) m1 else m1)
      in (Some (m_pages m2 t i AND PTE_ADDR_MASK), m2))"

definition split_block :: "u64 \<Rightarrow> u64 \<Rightarrow> u64 \<Rightarrow> u64 \<Rightarrow> mach \<Rightarrow> bool \<times> mach" where
  "split_block step flags t i m =
     (let block_base = m_pages m t i AND PTE_ADDR_MASK;
          block_attrs = m_pages m t i AND NOT PTE_ADDR_MASK;
          (new_pt, m1) = alloc_page m in
      if new_pt = 0 then (False, m1)
      else let m2 = zero_page new_pt m1;
               m3 = fold (\<lambda>j. set_entry new_pt j ((block_base + j * step) OR block_attrs)) (u64_upto 512) m2
           in (True, set_entry t i (table_entry new_pt flags) m3))"

definition vmm_map_pml4_level :: "u64 \<Rightarrow> u64 \<Rightarrow> u64 \<Rightarrow> mach \<Rightarrow> u64 option \<times> mach" where
  "vmm_map_pml4_level flags t i m =
     (if \<not> pte_present (m_pages m t i) then fresh_table flags t i m else widen_entry flags t i m)"

definition vmm_map_pdpt_level :: "u64 \<Rightarrow> u64 \<Rightarrow> u64 \<Rightarrow> mach \<Rightarrow> u64 option \<times> mach" where
  "vmm_map_pdpt_level flags t i m =
     (if \<not> pte_present (m_pages m t i) then fresh_table flags t i m
      else if PTE_IS_LEAF (m_pages m t i) then
        (case split_block 0x200000 flags t i m of
           (False, m1) \<Rightarrow> (None, m1) | (True, m1) \<Rightarrow> widen_entry flags t i m1)
      else widen_entry flags t i m)"

definition vmm_map_pd_level :: "u64 \<Rightarrow> u64 \<Rightarrow> u64 \<Rightarrow> u64 \<Rightarrow> mach \<Rightarrow> u64 option \<times> mach" where
  "vmm_map_pd_level v flags t i m =
     (if \<not> pte_present (m_pages m t i) then fresh_table flags t i m
      else if PTE_IS_LEAF (m_pages m t i) then
        (case split_block 0x1000 flags t i m of
           (False, m1) \<Rightarrow> (None, m1) | (True, m1) \<Rightarrow> widen_entry flags t i (tlb (FlushOne v) m1))
      else widen_entry flags t i m)"

definition vmm_map_pt_level :: "u64 \<Rightarrow> u64 \<Rightarrow> u64 \<Rightarrow> bool \<Rightarrow> u64 \<Rightarrow> mach \<Rightarrow> (int \<times> mach) res" where
  "vmm_map_pt_level v paddr flags overwrite_ok pt m =
     (if pte_present (m_pages m pt (PT_IDX v)) \<and> \<not> overwrite_ok
      then Inl (Panic ''VMM: Overwriting mapping'')
      else Inr (0, tlb (FlushOne v) (set_entry pt (PT_IDX v) (paddr OR flags) m)))"

definition vmm_map_raw :: "u64 \<Rightarrow> u64 \<Rightarrow> u64 \<Rightarrow> u64 \<Rightarrow> bool \<Rightarrow> mach \<Rightarrow> (int \<times> mach) res" where
  "vmm_map_raw pml4 vaddr paddr0 flags overwrite_ok m =
     (let v = vaddr AND NOT (PAGE_SIZE - 1); paddr = paddr0 AND PTE_ADDR_MASK in
      case vmm_map_pml4_level flags pml4 (PML4_IDX v) m of
        (None, m1) \<Rightarrow> Inr (- 1, m1)
      | (Some pdpt, m1) \<Rightarrow>
      (case vmm_map_pdpt_level flags pdpt (PDPT_IDX v) m1 of
        (None, m2) \<Rightarrow> Inr (- 1, m2)
      | (Some pd, m2) \<Rightarrow>
      (case vmm_map_pd_level v flags pd (PD_IDX v) m2 of
        (None, m3) \<Rightarrow> Inr (- 1, m3)
      | (Some pt, m3) \<Rightarrow> vmm_map_pt_level v paddr flags overwrite_ok pt m3)))"

definition vmm_remap :: "u64 \<Rightarrow> u64 \<Rightarrow> u64 \<Rightarrow> u64 \<Rightarrow> mach \<Rightarrow> (int \<times> mach) res" where
  "vmm_remap pml4 vaddr paddr flags m =
     bind_res (vmm_map_raw pml4 vaddr paddr flags True m) (\<lambda>(n, m1). Inr (n, tlb BroadcastFlush m1))"

definition vmm_map :: "u64 \<Rightarrow> u64 \<Rightarrow> u64 \<Rightarrow> u64 \<Rightarrow> mach \<Rightarrow> (int \<times> mach) res" where
  "vmm_map pml4 vaddr paddr flags m = vmm_map_raw pml4 vaddr paddr flags False m"

definition vmm_map_global :: "u64 \<Rightarrow> u64 \<Rightarrow> u64 \<Rightarrow> mach \<Rightarrow> (int \<times> mach) res" where
  "vmm_map_global vaddr paddr flags m =
     bind_res (vmm_map (m_kernel_pml4 m) vaddr paddr flags m) (\<lambda>(n, m1).
       if n = - 1 then Inr (- 1, m1) else Inr (0, tlb BroadcastFlush m1))"

fun map_region_loop :: "u64 \<Rightarrow> u64 \<Rightarrow> u64 \<Rightarrow> u64 \<Rightarrow> u64 list \<Rightarrow> mach \<Rightarrow> (int \<times> mach) res" where
  "map_region_loop pml4 v_start p_start flags [] m = Inr (0, m)"
| "map_region_loop pml4 v_start p_start flags (offset # os) m =
     bind_res (vmm_map_raw pml4 (v_start + offset) (p_start + offset) flags False m) (\<lambda>(n, m1).
       if n < 0 then Inr (- 1, m1) else map_region_loop pml4 v_start p_start flags os m1)"

text \<open>
  The loop of \<open>vmm_map_region\<close> runs over the multiples of the page size below
  \<open>aligned_size\<close>, itself a multiple of the page size.
\<close>

definition vmm_map_region :: "u64 \<Rightarrow> u64 \<Rightarrow> u64 \<Rightarrow> u64 \<Rightarrow> u64 \<Rightarrow> mach \<Rightarrow> (int \<times> mach) res" where
  "vmm_map_region pml4 vaddr paddr sz flags m =
     (let v_start = vaddr AND NOT (PAGE_SIZE - 1);
          p_start = paddr AND NOT (PAGE_SIZE - 1);
          end_vaddr = vaddr + sz;
          aligned_size = ((end_vaddr + (PAGE_SIZE - 1)) AND NOT (PAGE_SIZE - 1)) - v_start
      in map_region_loop pml4 v_start p_start flags
           (map (\<lambda>k. k * PAGE_SIZE) (u64_upto (aligned_size div PAGE_SIZE))) m)"

definition vmm_map_user :: "u64 \<Rightarrow> u64 \<Rightarrow> u64 \<Rightarrow> u64 \<Rightarrow> mach \<Rightarrow> (int \<times> mach) res" where
  "vmm_map_user pml4 vaddr paddr flags m = vmm_map pml4 vaddr paddr (flags OR PTE_USER) m"

definition vmm_map_specific :: "u64 \<Rightarrow> u64 \<Rightarrow> u64 \<Rightarrow> u64 \<Rightarrow> mach \<Rightarrow> mach res" where
  "vmm_map_specific pml4 vaddr paddr flags m =
     bind_res (vmm_map pml4 vaddr paddr flags m) (\<lambda>(_, m1). Inr m1)"

section \<open>Creating, initialising and destroying address spaces\<close>

definition upper_half :: "u64 list" where
  "upper_half = map (\<lambda>i. i + 256) (u64_upto 256)"

text \<open>
  \<open>vmm_create_user_pml4\<close> does not test the result of \<open>pmm_alloc\<close>: when it is null,
  the page at physical address 0 is cleared and filled.
\<close>

definition vmm_create_user_pml4 :: "mach \<Rightarrow> u64 \<times> mach" where
  "vmm_create_user_pml4 m =
     (let (new_pml4, m1) = alloc_page m;
          m2 = zero_page new_pml4 m1;
          k_pml4 = m_kernel_pml4 m2 AND NOT 0xFFF;
          m3 = fold (\<lambda>i q. set_entry new_pml4 i (m_pages q k_pml4 i) q) upper_half m2
      in (new_pml4, m3))"

definition vmm_init_bsp :: "mach \<Rightarrow> (u64 \<times> mach) res" where
  "vmm_init_bsp m =
     (let (phys_pml4, m1) = alloc_page m;
          m2 = (zero_page phys_pml4 m1)\<lparr>m_kernel_pml4 := phys_pml4\<rparr>;
          old = m_cr3 m2;
          copy = (\<lambda>i q. if m_pages q old i \<noteq> 0 then set_entry phys_pml4 i (m_pages q old i) q else q);
          m3 = fold copy upper_half (copy 0 m2)
      in bind_res (vmm_map old phys_pml4 phys_pml4 (PTE_PRESENT OR PTE_WRITABLE) m3)
           (\<lambda>(_, m4). Inr (phys_pml4, m4)))"

definition vmm_init_ap :: "mach \<Rightarrow> u64" where
  "vmm_init_ap m = m_kernel_pml4 m"

definition preallocate_entry :: "u64 \<Rightarrow> mach \<Rightarrow> mach" where
  "preallocate_entry i m =
     (let pml4 = m_kernel_pml4 m in
      if pte_present (m_pages m pml4 i) then m
      else let (new_pt, m1) = alloc_page m in
        if new_pt = 0 then m1
        else set_entry pml4 i (new_pt OR PTE_PRESENT OR PTE_WRITABLE) (zero_page new_pt m1))"

definition vmm_preallocate_kernel_range :: "mach \<Rightarrow> mach" where
  "vmm_preallocate_kernel_range m = fold preallocate_entry upper_half m"

text \<open>
  The access through \<open>secret_vaddr\<close> reaches the first word of the new page.  Without a
  mapping it faults, which the model leaves undefined; so does the read through the alias.
\<close>

definition vmm_test_secret_base :: "mach \<Rightarrow> mach res" where
  "vmm_test_secret_base m =
     (let (phys_page, m1) = alloc_page m in
      if phys_page = 0 then Inr m1
      else bind_res (vmm_map_raw (m_kernel_pml4 m1) 0x10000000000 phys_page (PTE_PRESENT OR PTE_WRITABLE) False m1)
        (\<lambda>(n, m2). if n \<noteq> 0 then Inl Undefined
           else let m3 = set_entry phys_page 0 0xCAFEBABE m2 in
             bind_res (vmm_map_raw (m_kernel_pml4 m3) 0x20000000000 phys_page (PTE_PRESENT OR PTE_WRITABLE) False m3)
               (\<lambda>(n', m4). if n' \<noteq> 0 then Inl Undefined else Inr m4)))"

definition vmm_init :: "bool \<Rightarrow> mach \<Rightarrow> mach res" where
  "vmm_init ap m =
     bind_res (if ap then Inr (vmm_init_ap m, m) else vmm_init_bsp m) (\<lambda>(phys_pml4, m1).
     let m2 = m1\<lparr>m_cr3 := phys_pml4\<rparr> in
     bind_res (if ap then Inr m2 else vmm_test_secret_base m2) (\<lambda>m3.
     Inr (vmm_preallocate_kernel_range m3)))"

definition free_page :: "u64 \<Rightarrow> mach \<Rightarrow> mach res" where
  "free_page a m = bind_res (pmm_free a (m_pmm m)) (\<lambda>p. Inr (m\<lparr>m_pmm := p\<rparr>))"

definition free_pages_run :: "u64 \<Rightarrow> u64 \<Rightarrow> mach \<Rightarrow> mach res" where
  "free_pages_run a n m = bind_res (pmm_free_pages a n (m_pmm m)) (\<lambda>p. Inr (m\<lparr>m_pmm := p\<rparr>))"

fun vmm_destroy_level :: "nat \<Rightarrow> u64 \<Rightarrow> mach \<Rightarrow> mach res" where
  "vmm_destroy_level 0 table m = Inr m"
| "vmm_destroy_level (Suc l) table m =
     (let level = Suc l; limit = (if level = 4 then 256 else 512) in
      bind_res (fold_res (\<lambda>i q.
          let entry = m_pages q table i in
          if \<not> pte_present entry then Inr q
          else if level = 1 then free_page (entry AND PTE_ADDR_MASK) q
          else if PTE_IS_LEAF entry
            then free_pages_run (entry AND PTE_ADDR_MASK) (if level = 3 then 0x40000 else 512) q
          else vmm_destroy_level l (entry AND PTE_ADDR_MASK) q) (u64_upto limit) m)
        (free_page table))"

end
