(* ===== verification/Vmm_Map.thy ===== *)
theory Vmm_Map
  imports Vmm
begin

text \<open>
  Correctness of mapping.  A page-table tree is well formed when the tables
  reachable from its root are pairwise different pages that the page allocator has
  handed out, table entries carry no bits above bit 51, and large-page entries are
  aligned to their size.  On such a tree \<open>__vmm_map\<close> is proved to install exactly
  the requested translation and to leave every other translation alone, whatever
  tables it has to allocate and whatever large pages it has to split on the way.

  The proof follows the walk level by level: \<open>walk l\<close> is the translation from a
  table of level \<open>l\<close> (4 is the PML4), \<open>reach l\<close> the tables below it, and one step of
  \<open>__vmm_map\<close> at level \<open>l\<close> keeps the tree well formed and the translations intact.
\<close>

section \<open>Bits of entries\<close>

abbreviation pmask :: u64 where "pmask \<equiv> mask 12"

lemma page_mask_const: "(0xFFF :: u64) = mask 12" "(0x1FFFFF :: u64) = mask 21"
  "(0x3FFFFFFF :: u64) = mask 30" "(0x1FF :: u64) = mask 9"
  by (simp_all add: mask_eq_exp_minus_1)

lemma addr_mask_const: "PTE_ADDR_MASK = push_bit 12 (mask 40)"
  by (simp add: mask_eq_exp_minus_1 push_bit_eq_mult)

lemma bit_addr_mask: "bit PTE_ADDR_MASK k \<longleftrightarrow> 12 \<le> k \<and> k < 52"
  unfolding addr_mask_const by (auto simp: bit_simps)

lemma bit_1_u64: "bit (1 :: u64) k \<longleftrightarrow> k = 0"
  by (auto simp: bit_simps)

lemma bit_2_u64: "bit (2 :: u64) k \<longleftrightarrow> k = 1"
  using bit_exp_iff [where 'a = u64, of 1 k] by auto

lemma bit_4_u64: "bit (4 :: u64) k \<longleftrightarrow> k = 2"
  using bit_exp_iff [where 'a = u64, of 2 k] by auto

lemma bit_80_u64: "bit (0x80 :: u64) k \<longleftrightarrow> k = 7"
  using bit_exp_iff [where 'a = u64, of 7 k] by auto

lemmas pte_bits = bit_and_iff bit_or_iff bit_not_iff bit_mask_iff bit_addr_mask bit_1_u64 bit_2_u64
  bit_4_u64 bit_80_u64

lemma bit_129_u64: "bit (129 :: u64) k \<longleftrightarrow> k = 0 \<or> k = 7"
proof -
  have "(129 :: u64) = 1 OR 0x80" by simp
  then show ?thesis by (simp only: pte_bits)
qed

lemma and_eq_self_bits: "(e :: u64) AND x = x \<longleftrightarrow> (\<forall>k<64. bit x k \<longrightarrow> bit e k)"
  by (auto simp: bit_eq_iff [of "e AND x"] bit_and_iff possible_bit_def)

lemma and_eq_0_bits: "(e :: u64) AND x = 0 \<longleftrightarrow> (\<forall>k<64. bit x k \<longrightarrow> \<not> bit e k)"
  by (auto simp: bit_eq_iff [of "e AND x"] bit_and_iff possible_bit_def)

lemma pte_present_bit: "pte_present e \<longleftrightarrow> bit e 0"
  by (auto simp: pte_present_def and_eq_0_bits bit_1_u64)

lemma pte_leaf_bits: "PTE_IS_LEAF e \<longleftrightarrow> bit e 0 \<and> bit e 7"
  by (auto simp: PTE_IS_LEAF_def and_eq_self_bits bit_129_u64 simp del: bit_numeral_word_iff
      dest: spec [of _ 0] spec [of _ 7])

section \<open>Levels\<close>

definition lbits :: "nat \<Rightarrow> nat" where "lbits l = 3 + 9 * l"

definition lidx :: "nat \<Rightarrow> u64 \<Rightarrow> u64" where "lidx l v = drop_bit (lbits l) v AND mask 9"

lemma lidx_macros:
  "PML4_IDX v = lidx 4 v" "PDPT_IDX v = lidx 3 v" "PD_IDX v = lidx 2 v" "PT_IDX v = lidx 1 v"
  by (simp_all add: PML4_IDX_def PDPT_IDX_def PD_IDX_def PT_IDX_def lidx_def lbits_def
      page_mask_const(4) [symmetric])

lemma lidx_less [simp]: "lidx l v < 512"
proof -
  have "lidx l v \<le> mask 9" by (simp add: lidx_def word_and_le1)
  then show ?thesis by (simp add: mask_eq_exp_minus_1 word_le_nat_alt word_less_nat_alt)
qed

definition is_leaf :: "nat \<Rightarrow> u64 \<Rightarrow> bool" where
  "is_leaf l e \<longleftrightarrow> (l = 2 \<or> l = 3) \<and> bit e 0 \<and> bit e 7"

definition is_table :: "nat \<Rightarrow> u64 \<Rightarrow> bool" where
  "is_table l e \<longleftrightarrow> 2 \<le> l \<and> bit e 0 \<and> \<not> is_leaf l e"

definition next_table :: "u64 \<Rightarrow> u64" where "next_table e = e AND PTE_ADDR_MASK"

text \<open>No bits above bit 51, and a large page aligned to its size.\<close>

definition entry_ok :: "nat \<Rightarrow> u64 \<Rightarrow> bool" where
  "entry_ok l e \<longleftrightarrow> (is_table l e \<longrightarrow> (\<forall>k. bit e k \<longrightarrow> k < 52)) \<and>
     (is_leaf l e \<longrightarrow> (\<forall>k. bit e k \<longrightarrow> k < 12 \<or> lbits l \<le> k))"

fun walk :: "nat \<Rightarrow> u64 \<Rightarrow> u64 \<Rightarrow> (u64 \<Rightarrow> u64 \<Rightarrow> u64) \<Rightarrow> u64 option" where
  "walk 0 t v P = None"
| "walk (Suc l) t v P =
     (let e = P t (lidx (Suc l) v) in
      if \<not> bit e 0 then None
      else if l = 0 then Some (e AND NOT pmask)
      else if is_leaf (Suc l) e then Some ((e AND NOT (mask (lbits (Suc l)))) + (v AND mask (lbits (Suc l))))
      else walk l (e AND NOT pmask) v P)"

fun reach :: "nat \<Rightarrow> (u64 \<Rightarrow> u64 \<Rightarrow> u64) \<Rightarrow> u64 \<Rightarrow> u64 set" where
  "reach 0 P t = {}"
| "reach (Suc l) P t = insert t (\<Union>i\<in>{i. i < 512 \<and> is_table (Suc l) (P t i)}. reach l P (next_table (P t i)))"

fun pt_tree :: "nat \<Rightarrow> (u64 \<Rightarrow> u64 \<Rightarrow> u64) \<Rightarrow> u64 \<Rightarrow> bool" where
  "pt_tree 0 P t \<longleftrightarrow> True"
| "pt_tree (Suc l) P t \<longleftrightarrow>
     (\<forall>i<512. entry_ok (Suc l) (P t i)) \<and>
     (\<forall>i<512. is_table (Suc l) (P t i) \<longrightarrow>
        t \<notin> reach l P (next_table (P t i)) \<and> pt_tree l P (next_table (P t i)) \<and>
        (\<forall>j<512. j \<noteq> i \<and> is_table (Suc l) (P t j) \<longrightarrow>
           reach l P (next_table (P t i)) \<inter> reach l P (next_table (P t j)) = {}))"

lemma walk_levels:
  "walk 4 t v P = (let e = P t (lidx 4 v) in if \<not> bit e 0 then None else walk 3 (e AND NOT pmask) v P)"
  "walk 3 t v P = (let e = P t (lidx 3 v) in if \<not> bit e 0 then None
     else if PTE_IS_LEAF e then Some ((e AND NOT (mask 30)) + (v AND mask 30)) else walk 2 (e AND NOT pmask) v P)"
  "walk 2 t v P = (let e = P t (lidx 2 v) in if \<not> bit e 0 then None
     else if PTE_IS_LEAF e then Some ((e AND NOT (mask 21)) + (v AND mask 21)) else walk (Suc 0) (e AND NOT pmask) v P)"
  "walk (Suc 0) t v P = (let e = P t (lidx (Suc 0) v) in if \<not> bit e 0 then None else Some (e AND NOT pmask))"
  using walk.simps(2) [of 3 t v P] walk.simps(2) [of 2 t v P] walk.simps(2) [of 1 t v P]
    walk.simps(2) [of 0 t v P]
  by (simp_all add: is_leaf_def pte_leaf_bits lbits_def Let_def numeral_2_eq_2 [symmetric]
      del: walk.simps)

lemma get_phys_walk:
  assumes "pml4 \<le> 0x00007FFFFFFFFFFF"
  shows "vmm_get_phys pml4 v m = Inr (case walk 4 pml4 v (m_pages m) of None \<Rightarrow> 0 | Some a \<Rightarrow> a)"
  using assms leD [OF assms]
  by (simp add: vmm_get_phys_def walk_levels lidx_macros pte_present_bit page_mask_const Let_def
      del: walk.simps)

lemma is_mapped_walk: "vmm_is_mapped pml4 v m \<longleftrightarrow> walk 4 pml4 v (m_pages m) \<noteq> None"
  by (simp add: vmm_is_mapped_def walk_levels lidx_macros pte_present_bit page_mask_const Let_def
      del: walk.simps)

lemma next_table_page:
  assumes "entry_ok l e" "is_table l e"
  shows "e AND NOT pmask = next_table e"
  using assms by (intro bit_word_eqI) (auto simp: next_table_def entry_ok_def pte_bits simp del: bit_numeral_word_iff)

lemma tree_frame:
  assumes "\<forall>p\<in>reach l P t. Q p = P p"
  shows "reach l Q t = reach l P t" and "pt_tree l Q t = pt_tree l P t"
    and "pt_tree l P t \<Longrightarrow> walk l t v Q = walk l t v P"
proof -
  have "reach l Q t = reach l P t \<and> pt_tree l Q t = pt_tree l P t \<and>
    (pt_tree l P t \<longrightarrow> walk l t v Q = walk l t v P)"
    using assms
  proof (induction l arbitrary: t)
    case (Suc l)
    have t: "Q t = P t" using Suc.prems by simp
    have IH: "reach l Q (next_table (P t i)) = reach l P (next_table (P t i)) \<and>
        pt_tree l Q (next_table (P t i)) = pt_tree l P (next_table (P t i)) \<and>
        (pt_tree l P (next_table (P t i)) \<longrightarrow> walk l (next_table (P t i)) v Q = walk l (next_table (P t i)) v P)"
      if "i < 512" "is_table (Suc l) (P t i)" for i
      using Suc.prems that by (intro Suc.IH) auto
    have r: "reach (Suc l) Q t = reach (Suc l) P t" using IH t by auto
    have tr: "pt_tree (Suc l) Q t = pt_tree (Suc l) P t" using IH t by auto
    have "walk (Suc l) t v Q = walk (Suc l) t v P" if "pt_tree (Suc l) P t"
    proof (cases "is_table (Suc l) (P t (lidx (Suc l) v))")
      case True
      have "entry_ok (Suc l) (P t (lidx (Suc l) v))" using that by simp
      note nt = next_table_page [OF this True]
      with IH [OF lidx_less True] that True show ?thesis by (simp add: t Let_def nt)
    next
      case False
      then show ?thesis by (auto simp: t Let_def is_table_def)
    qed
    with r tr show ?case by blast
  qed simp
  then show "reach l Q t = reach l P t" and "pt_tree l Q t = pt_tree l P t"
    and "pt_tree l P t \<Longrightarrow> walk l t v Q = walk l t v P" by auto
qed

lemma reach_root [simp]: "t \<in> reach (Suc l) P t"
  by simp

lemma reach_child:
  "p \<in> reach (Suc l) P t \<longleftrightarrow> p = t \<or> (\<exists>i<512. is_table (Suc l) (P t i) \<and> p \<in> reach l P (next_table (P t i)))"
  by auto

declare reach.simps(2) [simp del] pt_tree.simps(2) [simp del] walk.simps(2) [simp del]

section \<open>One step of the walk\<close>

abbreviation page_part :: "u64 \<Rightarrow> u64" where "page_part a \<equiv> a AND NOT pmask"

type_synonym frames = "u64 \<Rightarrow> u64 \<Rightarrow> u64"

text \<open>
  What a step of \<open>__vmm_map\<close> at a table \<open>t\<close> of level \<open>Suc l\<close> does to the page contents
  \<open>P\<close>: entry \<open>i\<close> of \<open>t\<close> becomes a table entry for \<open>n\<close>; of the pages owned before (\<open>D\<close>)
  nothing else changes; and \<open>n\<close> is either the table the entry already had, or a new
  page without tables below it that gives the same translations.
\<close>

definition level_step :: "nat \<Rightarrow> u64 \<Rightarrow> u64 \<Rightarrow> u64 \<Rightarrow> u64 set \<Rightarrow> frames \<Rightarrow> frames \<Rightarrow> bool" where
  "level_step l t i n D P P' \<longleftrightarrow>
     is_table (Suc l) (P' t i) \<and> next_table (P' t i) = n \<and> entry_ok (Suc l) (P' t i) \<and>
     (\<forall>p\<in>D. \<forall>j. (p, j) \<noteq> (t, i) \<longrightarrow> P' p j = P p j) \<and>
     (if is_table (Suc l) (P t i) then n = next_table (P t i)
      else n \<notin> D \<and> (\<forall>j<512. entry_ok l (P' n j) \<and> \<not> is_table l (P' n j)) \<and>
           (\<forall>v. lidx (Suc l) v = i \<longrightarrow> map_option page_part (walk l n v P') = map_option page_part (walk (Suc l) t v P)))"

lemma bare_table:
  assumes "\<forall>j<512. entry_ok (Suc k) (P n j) \<and> \<not> is_table (Suc k) (P n j)"
  shows "reach (Suc k) P n = {n}" "pt_tree (Suc k) P n"
  using assms by (auto simp: reach.simps(2) pt_tree.simps(2))

lemma level_step_tree:
  assumes tr: "pt_tree (Suc (Suc k)) P t" and sub: "reach (Suc (Suc k)) P t \<subseteq> D" and i: "i < 512"
    and st: "level_step (Suc k) t i n D P P'"
  shows "pt_tree (Suc (Suc k)) P' t" and "reach (Suc (Suc k)) P' t = insert n (reach (Suc (Suc k)) P t)"
    and "reach (Suc k) P' n \<subseteq> insert n (reach (Suc (Suc k)) P t)"
proof -
  let ?l = "Suc k"
  have e': "is_table (Suc ?l) (P' t i)" "next_table (P' t i) = n" "entry_ok (Suc ?l) (P' t i)"
    using st by (simp_all add: level_step_def)
  have tD: "t \<in> D" using sub reach_root by blast
  have same: "P' t j = P t j" if "j \<noteq> i" for j
    using st tD that by (auto simp: level_step_def)
  have fr: "P' p = P p" if "p \<in> D" "p \<noteq> t" for p
    using st that by (auto simp: level_step_def fun_eq_iff)
  have child: "reach ?l P' (next_table (P t j)) = reach ?l P (next_table (P t j)) \<and>
      pt_tree ?l P' (next_table (P t j)) \<and> t \<notin> reach ?l P (next_table (P t j)) \<and>
      reach ?l P (next_table (P t j)) \<subseteq> D"
    if "j < 512" "is_table (Suc ?l) (P t j)" for j
  proof -
    have r: "reach ?l P (next_table (P t j)) \<subseteq> D" using sub that reach_child [of _ ?l P t] by blast
    have t: "t \<notin> reach ?l P (next_table (P t j))" and p: "pt_tree ?l P (next_table (P t j))"
      using tr that by (simp_all only: pt_tree.simps(2)) blast+
    have "\<forall>p\<in>reach ?l P (next_table (P t j)). P' p = P p" using fr r t by blast
    from tree_frame(1,2) [OF this] r t p show ?thesis by simp
  qed
  have disj: "reach ?l P (next_table (P t a)) \<inter> reach ?l P (next_table (P t b)) = {}"
    if "a < 512" "b < 512" "a \<noteq> b" "is_table (Suc ?l) (P t a)" "is_table (Suc ?l) (P t b)" for a b
    using tr that by (simp only: pt_tree.simps(2)) blast
  have nn: "pt_tree ?l P' n \<and> t \<notin> reach ?l P' n \<and>
      reach ?l P' n = (if is_table (Suc ?l) (P t i) then reach ?l P (next_table (P t i)) else {n})"
  proof (cases "is_table (Suc ?l) (P t i)")
    case True
    with child [OF i True] st show ?thesis by (simp add: level_step_def)
  next
    case False
    then have "\<forall>j<512. entry_ok ?l (P' n j) \<and> \<not> is_table ?l (P' n j)" "n \<notin> D"
      using st by (simp_all add: level_step_def)
    with bare_table [of k P' n] tD False show ?thesis by auto
  qed
  have nD: "\<not> is_table (Suc ?l) (P t i) \<Longrightarrow> n \<notin> D" using st by (simp add: level_step_def)
  have ok: "entry_ok (Suc ?l) (P' t j)" if "j < 512" for j
    using that tr e'(3) same by (cases "j = i") (auto simp: pt_tree.simps(2))
  have n_in: "n \<in> reach ?l P' n" by simp
  have mem: "p \<in> reach (Suc ?l) P' t \<longleftrightarrow> p = t \<or> p \<in> reach ?l P' n \<or>
      (\<exists>j<512. j \<noteq> i \<and> is_table (Suc ?l) (P t j) \<and> p \<in> reach ?l P (next_table (P t j)))" for p
    unfolding reach_child [of p ?l P' t] using e'(1,2) i same child by (metis (no_types, lifting))
  show "reach (Suc ?l) P' t = insert n (reach (Suc ?l) P t)"
  proof (rule set_eqI)
    fix p
    show "p \<in> reach (Suc ?l) P' t \<longleftrightarrow> p \<in> insert n (reach (Suc ?l) P t)"
      unfolding mem insert_iff reach_child [of p ?l P t] using nn n_in i
      by (cases "is_table (Suc ?l) (P t i)") auto
  qed
  show "reach ?l P' n \<subseteq> insert n (reach (Suc ?l) P t)"
    using nn i by (auto simp: reach_child [of _ ?l P t] split: if_splits)
  have dn: "reach ?l P' n \<inter> reach ?l P (next_table (P t j)) = {}"
    if "j < 512" "j \<noteq> i" "is_table (Suc ?l) (P t j)" for j
    using nn nD that child [of j] disj [OF i that(1)] by (auto split: if_splits)
  show "pt_tree (Suc ?l) P' t"
  proof (subst pt_tree.simps(2), intro conjI allI impI)
    fix a assume a: "a < 512" "is_table (Suc ?l) (P' t a)"
    show "t \<notin> reach ?l P' (next_table (P' t a))" and "pt_tree ?l P' (next_table (P' t a))"
      using a child [of a] nn e' same by (cases "a = i"; simp)+
    fix b assume b: "b < 512" "b \<noteq> a \<and> is_table (Suc ?l) (P' t b)"
    then show "reach ?l P' (next_table (P' t a)) \<inter> reach ?l P' (next_table (P' t b)) = {}"
      using a child [of a] child [of b] dn [of a] dn [of b] disj [of a b] e' same
      by (cases "a = i"; cases "b = i"; simp add: Int_commute)
  qed (use ok in blast)
qed

lemma walk_table:
  assumes "pt_tree (Suc (Suc k)) P t" "is_table (Suc (Suc k)) (P t (lidx (Suc (Suc k)) v))"
  shows "walk (Suc (Suc k)) t v P = walk (Suc k) (next_table (P t (lidx (Suc (Suc k)) v))) v P"
proof -
  have "entry_ok (Suc (Suc k)) (P t (lidx (Suc (Suc k)) v))"
    using assms(1) by (simp add: pt_tree.simps(2))
  from next_table_page [OF this assms(2)] assms(2) show ?thesis
    by (subst walk.simps(2)) (simp add: Let_def is_table_def)
qed

lemma tree_child:
  assumes "pt_tree (Suc l) P t" "i < 512" "is_table (Suc l) (P t i)"
  shows "pt_tree l P (next_table (P t i))" "t \<notin> reach l P (next_table (P t i))"
    "reach l P (next_table (P t i)) \<subseteq> reach (Suc l) P t"
    "\<And>j. j < 512 \<Longrightarrow> j \<noteq> i \<Longrightarrow> is_table (Suc l) (P t j) \<Longrightarrow>
       reach l P (next_table (P t i)) \<inter> reach l P (next_table (P t j)) = {}"
  using assms by (auto simp: pt_tree.simps(2) reach_child)

lemma level_step_walk:
  assumes tr: "pt_tree (Suc (Suc k)) P t" and sub: "reach (Suc (Suc k)) P t \<subseteq> D"
    and st: "level_step (Suc k) t i n D P P'" and i: "i < 512"
  shows "map_option page_part (walk (Suc (Suc k)) t v P') = map_option page_part (walk (Suc (Suc k)) t v P)"
proof -
  let ?i = "lidx (Suc (Suc k)) v"
  note tr' = level_step_tree(1) [OF tr sub i st]
  have tD: "t \<in> D" using sub reach_root by blast
  have fr: "P' p = P p" if "p \<in> D" "p \<noteq> t" for p
    using st that by (auto simp: level_step_def fun_eq_iff)
  have sub_same: "walk (Suc k) (next_table (P t j)) v P' = walk (Suc k) (next_table (P t j)) v P"
    if j: "j < 512" "is_table (Suc (Suc k)) (P t j)" for j
    using tree_child [OF tr j] sub fr by (intro tree_frame(3)) blast+
  show ?thesis
  proof (cases "?i = i")
    case False
    then have same: "P' t ?i = P t ?i" using st tD by (auto simp: level_step_def)
    show ?thesis
    proof (cases "is_table (Suc (Suc k)) (P t ?i)")
      case True
      then show ?thesis
        using walk_table [OF tr True] walk_table [OF tr', of v] same sub_same [OF lidx_less True] by simp
    next
      case nt: False
      then show ?thesis by (subst (1 2) walk.simps(2)) (auto simp: Let_def same is_table_def)
    qed
  next
    case True
    have "is_table (Suc (Suc k)) (P' t ?i)" "next_table (P' t ?i) = n"
      using st True by (simp_all add: level_step_def)
    then have w': "walk (Suc (Suc k)) t v P' = walk (Suc k) n v P'" using walk_table [OF tr', of v] by simp
    show ?thesis
    proof (cases "is_table (Suc (Suc k)) (P t i)")
      case old: True
      then have "n = next_table (P t i)" using st by (simp add: level_step_def)
      then show ?thesis using w' sub_same [OF i old] walk_table [OF tr, of v] old True by simp
    next
      case new: False
      then show ?thesis using st True w' by (simp add: level_step_def)
    qed
  qed
qed

section \<open>The code of one level\<close>

definition owned :: "mach \<Rightarrow> u64 set" where "owned m = {p. pmm_owns (m_pmm m) p}"

definition vm_inv :: "mach \<Rightarrow> bool" where
  "vm_inv m \<longleftrightarrow> pmm_inv (m_pmm m) \<and> pmm_total_pages (m_pmm m) \<le> 0x10000000000"

definition phys_page :: "u64 \<Rightarrow> bool" where
  "phys_page n \<longleftrightarrow> (\<forall>k. bit n k \<longrightarrow> 12 \<le> k \<and> k < 52)"

lemma owned_phys_page:
  assumes "vm_inv m" "p \<in> owned m"
  shows "phys_page p"
proof -
  have al: "take_bit 12 p = 0" and small: "p div 4096 < 0x10000000000"
    using assms by (auto simp: owned_def pmm_owns_def vm_inv_def page_aligned_def take_bit_eq_mod)
  have "unat p < 4503599627370496" using small by (simp add: word_less_nat_alt unat_div)
  then have "take_bit 52 p = p"
    by (simp add: word_unat_eq_iff take_bit_eq_mod unat_mod)
  then have "bit p k \<Longrightarrow> k < 52" for k by (metis bit_take_bit_iff)
  moreover have "bit p k \<Longrightarrow> 12 \<le> k" for k
    using al by (metis bit_0_eq bit_take_bit_iff bot_apply bot_bool_def not_le)
  ultimately show ?thesis by (simp add: phys_page_def)
qed

lemma alloc_page_cases:
  assumes "vm_inv m" "alloc_page m = (a, m')"
  shows "m_pages m' = m_pages m \<and> m_kernel_pml4 m' = m_kernel_pml4 m \<and> m_cr3 m' = m_cr3 m \<and> m_tlb m' = m_tlb m \<and>
    vm_inv m' \<and> (if a = 0 then owned m' = owned m
      else a \<notin> owned m \<and> owned m' = insert a (owned m) \<and> phys_page a)"
proof -
  obtain p where p: "pmm_alloc (m_pmm m) = (a, p)" "m' = m\<lparr>m_pmm := p\<rparr>"
    using assms(2) by (auto simp: alloc_page_def split: prod.splits)
  have inv: "pmm_inv (m_pmm m)" using assms(1) by (simp add: vm_inv_def)
  show ?thesis
  proof (cases "a = 0")
    case True
    then have "p = m_pmm m" using p(1) pp.alloc_fail [OF inv] by simp
    with True p assms(1) show ?thesis by (simp add: owned_def)
  next
    case False
    note fr = pp.alloc_fresh [OF inv p(1) False]
    have "pmm_total_pages p = pmm_total_pages (m_pmm m)"
      using pmm_alloc_run_spec [OF inv, of 1 a p] p(1) False by (simp add: pmm_alloc_def)
    then have v: "vm_inv m'" using fr assms(1) p(2) by (simp add: vm_inv_def)
    moreover have "owned m' = insert a (owned m)" "a \<notin> owned m"
      using fr p(2) by (auto simp: owned_def)
    ultimately show ?thesis using owned_phys_page [OF v, of a] False p(2) by simp
  qed
qed

lemma bit_table_entry:
  "bit (table_entry n fl) k \<longleftrightarrow> bit n k \<or> k = 0 \<or> k = 1 \<or> (k = 2 \<and> bit fl 2)"
  by (auto simp: table_entry_def pte_bits simp del: bit_numeral_word_iff)

text \<open>The entry after the \<open>PTE_WRITABLE\<close> and \<open>PTE_USER\<close> bits have been added.\<close>

definition widened :: "u64 \<Rightarrow> u64 \<Rightarrow> u64" where
  "widened fl e = e OR PTE_WRITABLE OR (fl AND PTE_USER)"

lemma bit_widened: "bit (widened fl e) k \<longleftrightarrow> bit e k \<or> k = 1 \<or> (k = 2 \<and> bit fl 2)"
  by (auto simp: widened_def pte_bits simp del: bit_numeral_word_iff)

lemma widened_same:
  "is_leaf l (widened fl e) = is_leaf l e" "is_table l (widened fl e) = is_table l e"
  "next_table (widened fl e) = next_table e"
proof -
  show leaf: "is_leaf l (widened fl e) = is_leaf l e" by (auto simp: is_leaf_def bit_widened)
  show "is_table l (widened fl e) = is_table l e" by (auto simp: is_table_def leaf bit_widened)
  show "next_table (widened fl e) = next_table e"
    by (rule bit_word_eqI) (auto simp: next_table_def bit_and_iff bit_addr_mask bit_widened simp del: bit_numeral_word_iff)
qed

lemma widened_ok: "entry_ok l (widened fl e) = entry_ok l e"
  unfolding entry_ok_def widened_same bit_widened by auto

lemma table_entry_ok:
  assumes "phys_page n" "2 \<le> l"
  shows "is_table l (table_entry n fl)" "next_table (table_entry n fl) = n" "entry_ok l (table_entry n fl)"
proof -
  have nb: "\<not> bit n 7" using assms(1) by (auto simp: phys_page_def)
  then show t: "is_table l (table_entry n fl)"
    using assms(2) by (simp add: is_table_def is_leaf_def bit_table_entry)
  show "next_table (table_entry n fl) = n"
    using assms(1) by (intro bit_word_eqI)
      (auto simp: next_table_def bit_and_iff bit_addr_mask bit_table_entry phys_page_def simp del: bit_numeral_word_iff)
  show "entry_ok l (table_entry n fl)"
    using t assms(1) by (auto simp: entry_ok_def is_table_def bit_table_entry phys_page_def)
qed

lemma set_entry_fields [simp]:
  "m_pages (set_entry t i e m) p j = (if p = t \<and> j = i then e else m_pages m p j)"
  "m_pmm (set_entry t i e m) = m_pmm m" "m_kernel_pml4 (set_entry t i e m) = m_kernel_pml4 m"
  "m_cr3 (set_entry t i e m) = m_cr3 m" "m_tlb (set_entry t i e m) = m_tlb m"
  by (simp_all add: set_entry_def)

lemma zero_page_fields [simp]:
  "m_pages (zero_page t m) p j = (if p = t then 0 else m_pages m p j)"
  "m_pmm (zero_page t m) = m_pmm m" "m_kernel_pml4 (zero_page t m) = m_kernel_pml4 m"
  "m_cr3 (zero_page t m) = m_cr3 m" "m_tlb (zero_page t m) = m_tlb m"
  by (simp_all add: zero_page_def)

lemma tlb_fields [simp]:
  "m_pages (tlb r m) = m_pages m" "m_pmm (tlb r m) = m_pmm m" "m_kernel_pml4 (tlb r m) = m_kernel_pml4 m"
  "m_cr3 (tlb r m) = m_cr3 m"
  by (simp_all add: tlb_def)

lemma vm_inv_pmm: "m_pmm m' = m_pmm m \<Longrightarrow> vm_inv m' = vm_inv m \<and> owned m' = owned m"
  by (simp add: vm_inv_def owned_def)

lemma widen_entry_eq:
  "widen_entry fl t i m = (Some (next_table (m_pages m t i)), set_entry t i (widened fl (m_pages m t i)) m)"
proof -
  have "widen_entry fl t i m = (Some (next_table (widened fl (m_pages m t i))), set_entry t i (widened fl (m_pages m t i)) m)"
    by (auto simp: widen_entry_def Let_def next_table_def widened_def or.assoc set_entry_def)
  then show ?thesis by (simp add: widened_same)
qed

text \<open>The outcome of one level of \<open>__vmm_map\<close>.\<close>

definition level_outcome :: "nat \<Rightarrow> u64 \<Rightarrow> u64 \<Rightarrow> mach \<Rightarrow> u64 option \<times> mach \<Rightarrow> bool" where
  "level_outcome l t i m out = (case out of (r, m') \<Rightarrow>
     vm_inv m' \<and> m_kernel_pml4 m' = m_kernel_pml4 m \<and> m_cr3 m' = m_cr3 m \<and>
     (case r of None \<Rightarrow> m_pages m' = m_pages m \<and> owned m' = owned m
      | Some n \<Rightarrow> owned m' = insert n (owned m) \<and> level_step l t i n (owned m) (m_pages m) (m_pages m')))"

lemma widen_outcome:
  assumes "vm_inv m" "is_table (Suc l) (m_pages m t i)" "entry_ok (Suc l) (m_pages m t i)"
    "next_table (m_pages m t i) \<in> owned m"
  shows "level_outcome l t i m (widen_entry fl t i m)"
  using assms vm_inv_pmm [of "set_entry t i (widened fl (m_pages m t i)) m" m]
  by (auto simp: widen_entry_eq level_outcome_def level_step_def widened_same widened_ok)

lemma fresh_outcome:
  assumes "vm_inv m" "\<not> bit (m_pages m t i) 0" "t \<in> owned m" "0 < l"
  shows "level_outcome l t i m (fresh_table fl t i m)"
proof -
  obtain n m1 where al: "alloc_page m = (n, m1)" by fastforce
  note ac = alloc_page_cases [OF assms(1) al]
  show ?thesis
  proof (cases "n = 0")
    case True
    with ac al show ?thesis by (simp add: fresh_table_def level_outcome_def)
  next
    case False
    define m2 where "m2 = set_entry t i (table_entry n fl) (zero_page n m1)"
    have n: "n \<notin> owned m" "owned m1 = insert n (owned m)" "phys_page n" "n \<noteq> t"
      using ac False assms(3) by auto
    note te = table_entry_ok [OF n(3), of "Suc l" fl]
    have "m_pages m2 t i = table_entry n fl" by (simp add: m2_def)
    then have out: "fresh_table fl t i m = (Some n, m2)"
      using al False te(2) assms(4) by (simp add: fresh_table_def m2_def next_table_def)
    have pm: "vm_inv m2" "owned m2 = insert n (owned m)"
      using vm_inv_pmm [of m2 m1] ac n(2) by (simp_all add: m2_def)
    have z: "m_pages m2 n j = 0" for j using n(4) by (simp add: m2_def)
    have "level_step l t i n (owned m) (m_pages m) (m_pages m2)"
      using assms(2,4) n te ac z
      by (cases l) (auto simp: level_step_def m2_def is_table_def is_leaf_def entry_ok_def walk.simps(2) Let_def)
    with out pm ac show ?thesis by (simp add: level_outcome_def m2_def)
  qed
qed

subsection \<open>Splitting a large page\<close>

lemma fold_set_entry:
  "m_pages (fold (\<lambda>j. set_entry n j (f j)) xs m) p k = (if p = n \<and> k \<in> set xs then f k else m_pages m p k)"
  "m_pmm (fold (\<lambda>j. set_entry n j (f j)) xs m) = m_pmm m"
  "m_kernel_pml4 (fold (\<lambda>j. set_entry n j (f j)) xs m) = m_kernel_pml4 m"
  "m_cr3 (fold (\<lambda>j. set_entry n j (f j)) xs m) = m_cr3 m"
  by (induction xs arbitrary: m) auto

definition block_entry :: "nat \<Rightarrow> u64 \<Rightarrow> u64 \<Rightarrow> u64" where
  "block_entry b e j = ((e AND PTE_ADDR_MASK) + j * 2 ^ b) OR (e AND NOT PTE_ADDR_MASK)"

lemma bit_index_less:
  assumes "(j :: u64) < 512" "bit j k"
  shows "k < 9"
proof -
  have "take_bit 9 j = j"
    using assms(1) by (simp add: word_unat_eq_iff take_bit_eq_mod unat_mod word_less_nat_alt)
  with assms(2) show ?thesis by (metis bit_take_bit_iff)
qed

lemma bit_block_entry:
  assumes "j < 512" "12 \<le> b" "b \<le> 21" "\<And>k. bit e k \<Longrightarrow> k < 12 \<or> b + 9 \<le> k"
  shows "bit (block_entry b e j) k \<longleftrightarrow> k < 64 \<and> (bit e k \<or> b \<le> k \<and> bit j (k - b))"
proof -
  have pb: "j * 2 ^ b = push_bit b j" by (simp add: push_bit_eq_mult)
  have "(e AND PTE_ADDR_MASK) + push_bit b j = (e AND PTE_ADDR_MASK) OR push_bit b j"
    using assms(4) bit_index_less [OF assms(1)]
    by (intro disjunctive_add_eq_or bit_word_eqI)
      (fastforce simp: bit_and_iff bit_push_bit_iff bit_addr_mask simp del: bit_numeral_word_iff)
  then show ?thesis
    using assms(2,3) bit_index_less [OF assms(1)] bit_imp_le_length [of e k]
    unfolding block_entry_def pb
    by (simp only: bit_or_iff bit_and_iff bit_not_iff bit_push_bit_iff bit_addr_mask possible_bit_def)
      (auto simp: possible_bit_def)
qed

lemma bit_disjoint_add:
  "bit ((e AND NOT (mask b)) + ((v :: u64) AND mask b)) k \<longleftrightarrow> k < 64 \<and> (if k < b then bit v k else bit e k)"
proof -
  have "(e AND NOT (mask b)) + (v AND mask b) = (e AND NOT (mask b)) OR (v AND mask b)"
    by (intro disjunctive_add_eq_or bit_word_eqI) (auto simp: bit_simps)
  then show ?thesis
    using bit_imp_le_length [of e k] bit_imp_le_length [of v k] by (auto simp: bit_simps)
qed

lemma bit_lidx: "bit (lidx l v) k \<longleftrightarrow> k < 9 \<and> bit v (lbits l + k)"
  by (auto simp: lidx_def bit_simps)

lemma leaf_bits_clear:
  assumes "is_leaf (Suc l) e" "entry_ok (Suc l) e" "bit e k"
  shows "k < 12 \<or> lbits l + 9 \<le> k"
  using assms by (auto simp: entry_ok_def lbits_def)

lemma split_same_walk:
  assumes lf: "is_leaf (Suc l) e" "entry_ok (Suc l) e" and P: "P t (lidx (Suc l) v) = e"
    and P': "\<And>j. j < 512 \<Longrightarrow> P' n j = block_entry (lbits l) e j"
  shows "map_option page_part (walk l n v P') = map_option page_part (walk (Suc l) t v P)"
proof -
  have l: "l = 1 \<or> l = 2" and e0: "bit e 0" "bit e 7" using lf(1) by (auto simp: is_leaf_def)
  define x where "x = block_entry (lbits l) e (lidx l v)"
  have bx: "bit x k \<longleftrightarrow> k < 64 \<and> (bit e k \<or> lbits l \<le> k \<and> k < lbits l + 9 \<and> bit v k)" for k
    using l leaf_bits_clear [OF lf]
    unfolding x_def by (subst bit_block_entry) (auto simp: lbits_def bit_lidx)
  have w: "walk (Suc l) t v P = Some ((e AND NOT (mask (lbits (Suc l)))) + (v AND mask (lbits (Suc l))))"
    using lf(1) l e0 by (auto simp: walk.simps(2) P Let_def)
  have clr: "\<not> bit e k" if "\<not> k < 12" "k < lbits l + 9" for k
    using leaf_bits_clear [OF lf, of k] that by auto
  from l show ?thesis
  proof
    assume l1: "l = 1"
    then have w': "walk l n v P' = Some (x AND NOT pmask)"
      using P' [of "lidx l v"] bx [of 0] e0 by (simp add: walk.simps(2) Let_def x_def)
    show ?thesis
      unfolding w w' option.map option.inject using l1 clr
      by (intro bit_word_eqI)
        (auto simp: bit_and_iff bit_not_iff bit_mask_iff bit_disjoint_add bx lbits_def possible_bit_def)
  next
    assume l2: "l = 2"
    have w': "walk l n v P' = Some ((x AND NOT (mask (lbits l))) + (v AND mask (lbits l)))"
      using l2 P' [of "lidx l v"] bx [of 0] bx [of 7] e0
      by (simp add: numeral_2_eq_2 walk.simps(2) Let_def x_def is_leaf_def)
    show ?thesis
      unfolding w w' option.map option.inject using l2 clr
      by (intro bit_word_eqI) (auto simp: bit_and_iff bit_disjoint_add bx lbits_def)
  qed
qed

lemma block_entry_child:
  assumes "j < 512" "is_leaf (Suc l) e" "entry_ok (Suc l) e"
  shows "entry_ok l (block_entry (lbits l) e j) \<and> \<not> is_table l (block_entry (lbits l) e j)"
proof -
  have l: "l = 1 \<or> l = 2" and e0: "bit e 0" "bit e 7" using assms(2) by (auto simp: is_leaf_def)
  have bx: "bit (block_entry (lbits l) e j) k \<longleftrightarrow> k < 64 \<and> (bit e k \<or> lbits l \<le> k \<and> bit j (k - lbits l))" for k
    using l leaf_bits_clear [OF assms(2,3)] by (intro bit_block_entry assms(1)) (auto simp: lbits_def)
  have "k < 12 \<or> lbits l \<le> k" if "bit (block_entry (lbits l) e j) k" for k
    using that leaf_bits_clear [OF assms(2,3), of k] by (auto simp: bx)
  with l e0 show ?thesis by (auto simp: entry_ok_def is_table_def is_leaf_def bx)
qed

lemma split_outcome:
  assumes "vm_inv m" "is_leaf (Suc l) (m_pages m t i)" "entry_ok (Suc l) (m_pages m t i)" "t \<in> owned m" "i < 512"
    and "step = 2 ^ lbits l" and "\<And>q. m_pages (g q) = m_pages q \<and> m_pmm (g q) = m_pmm q \<and>
      m_kernel_pml4 (g q) = m_kernel_pml4 q \<and> m_cr3 (g q) = m_cr3 q"
  shows "level_outcome l t i m
    (case split_block step fl t i m of (False, m1) \<Rightarrow> (None, m1) | (True, m1) \<Rightarrow> widen_entry fl t i (g m1))"
proof -
  obtain n m1 where al: "alloc_page m = (n, m1)" by fastforce
  note ac = alloc_page_cases [OF assms(1) al]
  let ?e = "m_pages m t i"
  have l: "l = 1 \<or> l = 2" using assms(2) by (auto simp: is_leaf_def)
  show ?thesis
  proof (cases "n = 0")
    case True
    with ac al show ?thesis by (simp add: split_block_def level_outcome_def Let_def)
  next
    case False
    have n: "n \<notin> owned m" "owned m1 = insert n (owned m)" "phys_page n" "n \<noteq> t"
      using ac False assms(4) by auto
    define m3 where "m3 = fold (\<lambda>j. set_entry n j (block_entry (lbits l) ?e j)) (u64_upto 512) (zero_page n m1)"
    define m4 where "m4 = set_entry t i (table_entry n fl) m3"
    define m5 where "m5 = set_entry t i (widened fl (table_entry n fl)) (g m4)"
    have sp: "split_block step fl t i m = (True, m4)"
      using al False by (simp add: split_block_def Let_def m4_def m3_def block_entry_def assms(6))
    note te = table_entry_ok [OF n(3), of "Suc l" fl]
    have e4: "m_pages (g m4) t i = table_entry n fl" using assms(7) by (simp add: m4_def)
    have out: "widen_entry fl t i (g m4) = (Some n, m5)"
      using te l by (auto simp: widen_entry_eq e4 m5_def)
    have pg: "m_pages m5 p j = (if p = t \<and> j = i then widened fl (table_entry n fl)
        else if p = n \<and> j < 512 then block_entry (lbits l) ?e j else if p = n then 0 else m_pages m p j)" for p j
      using n(4) ac assms(7) by (auto simp: m5_def m4_def m3_def fold_set_entry)
    have inv: "vm_inv m5" "owned m5 = insert n (owned m)" "m_kernel_pml4 m5 = m_kernel_pml4 m" "m_cr3 m5 = m_cr3 m"
      using vm_inv_pmm [of m5 m1] ac n(2) assms(7) by (simp_all add: m5_def m4_def m3_def fold_set_entry)
    have blk: "entry_ok l (block_entry (lbits l) ?e j) \<and> \<not> is_table l (block_entry (lbits l) ?e j)"
      if "j < 512" for j
      using that assms(2,3) by (rule block_entry_child)
    have "level_step l t i n (owned m) (m_pages m) (m_pages m5)"
      unfolding level_step_def
    proof (intro conjI)
      show "if is_table (Suc l) ?e then n = next_table ?e
        else n \<notin> owned m \<and> (\<forall>j<512. entry_ok l (m_pages m5 n j) \<and> \<not> is_table l (m_pages m5 n j)) \<and>
          (\<forall>v. lidx (Suc l) v = i \<longrightarrow> map_option page_part (walk l n v (m_pages m5)) = map_option page_part (walk (Suc l) t v (m_pages m)))"
        using assms(2,3) n blk split_same_walk [OF assms(2,3), of "m_pages m" t _ "m_pages m5" n]
        by (auto simp: is_table_def pg)
    qed (use te l n pg in \<open>auto simp: widened_same widened_ok\<close>)
    with sp out inv show ?thesis by (simp add: level_outcome_def)
  qed
qed

subsection \<open>All levels at once\<close>

definition map_level :: "nat \<Rightarrow> u64 \<Rightarrow> u64 \<Rightarrow> u64 \<Rightarrow> u64 \<Rightarrow> mach \<Rightarrow> u64 option \<times> mach" where
  "map_level l v fl t i m =
     (if \<not> bit (m_pages m t i) 0 then fresh_table fl t i m
      else if is_leaf l (m_pages m t i) then
        (case split_block (2 ^ lbits (l - 1)) fl t i m of
           (False, m1) \<Rightarrow> (None, m1)
         | (True, m1) \<Rightarrow> widen_entry fl t i (if l = 2 then tlb (FlushOne v) m1 else m1))
      else widen_entry fl t i m)"

lemma map_level_eqs:
  "vmm_map_pml4_level fl t i m = map_level 4 v fl t i m"
  "vmm_map_pdpt_level fl t i m = map_level 3 v fl t i m"
  "vmm_map_pd_level v fl t i m = map_level 2 v fl t i m"
  by (simp_all add: vmm_map_pml4_level_def vmm_map_pdpt_level_def vmm_map_pd_level_def map_level_def
      pte_present_bit pte_leaf_bits is_leaf_def lbits_def split: prod.split bool.split)

lemma tree_entry_ok: "pt_tree (Suc l) P t \<Longrightarrow> i < 512 \<Longrightarrow> entry_ok (Suc l) (P t i)"
  by (simp add: pt_tree.simps(2))

lemma map_level_outcome:
  assumes "vm_inv m" "pt_tree (Suc (Suc k)) (m_pages m) t" "reach (Suc (Suc k)) (m_pages m) t \<subseteq> owned m" "i < 512"
  shows "level_outcome (Suc k) t i m (map_level (Suc (Suc k)) v fl t i m)"
proof -
  let ?e = "m_pages m t i"
  have t: "t \<in> owned m" using assms(3) reach_root by blast
  note ok = tree_entry_ok [OF assms(2,4)]
  consider "\<not> bit ?e 0" | "bit ?e 0" "is_leaf (Suc (Suc k)) ?e" | "is_table (Suc (Suc k)) ?e"
    by (auto simp: is_table_def)
  then show ?thesis
  proof cases
    case 1
    then show ?thesis using fresh_outcome [OF assms(1) 1 t] by (simp add: map_level_def)
  next
    case 2
    then show ?thesis
      using split_outcome [OF assms(1) 2(2) ok t assms(4) refl,
          of "\<lambda>q. if Suc (Suc k) = 2 then tlb (FlushOne v) q else q" fl]
      by (simp add: map_level_def)
  next
    case 3
    have "next_table ?e \<in> owned m"
      using tree_child(3) [OF assms(2,4) 3] assms(3) reach_root by blast
    with widen_outcome [OF assms(1) 3 ok] 3 show ?thesis by (simp add: map_level_def is_table_def)
  qed
qed

section \<open>The whole walk\<close>

fun map_walk :: "nat \<Rightarrow> u64 \<Rightarrow> u64 \<Rightarrow> u64 \<Rightarrow> bool \<Rightarrow> u64 \<Rightarrow> mach \<Rightarrow> (int \<times> mach) res" where
  "map_walk 0 v pa fl ow t m = Inr (- 1, m)"
| "map_walk (Suc 0) v pa fl ow t m = vmm_map_pt_level v pa fl ow t m"
| "map_walk (Suc (Suc k)) v pa fl ow t m =
     (case map_level (Suc (Suc k)) v fl t (lidx (Suc (Suc k)) v) m of
        (None, m1) \<Rightarrow> Inr (- 1, m1)
      | (Some n, m1) \<Rightarrow> map_walk (Suc k) v pa fl ow n m1)"

lemma vmm_map_raw_walk:
  "vmm_map_raw pml4 vaddr pa fl ow m =
     map_walk 4 (vaddr AND NOT pmask) (pa AND PTE_ADDR_MASK) fl ow pml4 m"
proof -
  have n: "4 = Suc (Suc (Suc (Suc 0)))" "3 = Suc (Suc (Suc 0))" "2 = Suc (Suc 0)" by simp_all
  show ?thesis
    unfolding vmm_map_raw_def Let_def lidx_macros
      map_level_eqs(1) [where v = "vaddr AND NOT pmask"] map_level_eqs(2) [where v = "vaddr AND NOT pmask"]
      map_level_eqs(3)
    by (simp add: n page_mask_const [symmetric] del: One_nat_def split: prod.splits option.splits)
qed

text \<open>Two addresses that the tables from level \<open>l\<close> down cannot tell apart.\<close>

definition same_path :: "nat \<Rightarrow> u64 \<Rightarrow> u64 \<Rightarrow> bool" where
  "same_path l v v' \<longleftrightarrow> (\<forall>k. 1 \<le> k \<and> k \<le> l \<longrightarrow> lidx k v = lidx k v')"

definition map_outcome :: "nat \<Rightarrow> u64 \<Rightarrow> u64 \<Rightarrow> u64 \<Rightarrow> mach \<Rightarrow> int \<Rightarrow> mach \<Rightarrow> bool" where
  "map_outcome l v e t m r m' \<longleftrightarrow>
     vm_inv m' \<and> pt_tree l (m_pages m') t \<and> reach l (m_pages m') t \<subseteq> owned m' \<and>
     owned m \<subseteq> owned m' \<and> (\<forall>p\<in>owned m - reach l (m_pages m) t. m_pages m' p = m_pages m p) \<and>
     reach l (m_pages m') t \<inter> owned m \<subseteq> reach l (m_pages m) t \<and>
     m_kernel_pml4 m' = m_kernel_pml4 m \<and> m_cr3 m' = m_cr3 m \<and> (r = 0 \<or> r = - 1) \<and>
     (\<forall>v'. if r = 0 \<and> same_path l v v' then walk l t v' (m_pages m') = (if bit e 0 then Some (e AND NOT pmask) else None)
           else map_option page_part (walk l t v' (m_pages m')) = map_option page_part (walk l t v' (m_pages m)))"

lemma same_path_Suc: "same_path (Suc l) v v' \<longleftrightarrow> lidx (Suc l) v = lidx (Suc l) v' \<and> same_path l v v'"
  by (auto simp: same_path_def le_Suc_eq)

lemma walk_1: "walk (Suc 0) t v P = (let e = P t (lidx (Suc 0) v) in if \<not> bit e 0 then None else Some (e AND NOT pmask))"
  by (simp add: walk.simps(2) Let_def)

lemma level1_simps: "reach (Suc 0) P t = {t}" "pt_tree (Suc 0) P t"
  by (auto simp: reach.simps(2) pt_tree.simps(2) is_table_def is_leaf_def entry_ok_def)

lemma pt_level_outcome:
  assumes "vm_inv m" "t \<in> owned m" "vmm_map_pt_level v pa fl ow t m = Inr (r, m')"
  shows "map_outcome (Suc 0) v (pa OR fl) t m r m'"
proof -
  have m': "m' = tlb (FlushOne v) (set_entry t (lidx 1 v) (pa OR fl) m)" "r = 0"
    using assms(3) by (auto simp: vmm_map_pt_level_def lidx_macros split: if_splits)
  then have "vm_inv m'" "owned m' = owned m" using vm_inv_pmm [of m' m] assms(1) by simp_all
  with m' assms(2) show ?thesis
    by (auto simp: map_outcome_def level1_simps same_path_def walk_1 Let_def fun_eq_iff le_Suc_eq)
qed

lemma subtree_replace:
  assumes tr: "pt_tree (Suc l) Q t" and i: "i < 512" and tab: "is_table (Suc l) (Q t i)" "next_table (Q t i) = n"
    and sub: "reach (Suc l) Q t \<subseteq> D" and same: "\<forall>p\<in>D - reach l Q n. R p = Q p"
    and trn: "pt_tree l R n" and bk: "reach l R n \<inter> D \<subseteq> reach l Q n"
  shows "R t = Q t" and "pt_tree (Suc l) R t" and "reach (Suc l) R t \<subseteq> reach (Suc l) Q t \<union> reach l R n"
    and "\<And>j v. j < 512 \<Longrightarrow> j \<noteq> i \<Longrightarrow> is_table (Suc l) (Q t j) \<Longrightarrow>
      walk l (next_table (Q t j)) v R = walk l (next_table (Q t j)) v Q"
proof -
  note ch = tree_child [OF tr i tab(1), unfolded tab(2)]
  have tD: "t \<in> D" using sub reach_root by blast
  show Rt: "R t = Q t" using same tD ch(2) by simp
  have other: "\<forall>p\<in>reach l Q (next_table (Q t j)). R p = Q p"
    and dis: "reach l R n \<inter> reach l Q (next_table (Q t j)) = {}"
    if j: "j < 512" "j \<noteq> i" "is_table (Suc l) (Q t j)" for j
  proof -
    note cj = tree_child(3) [OF tr j(1,3)] ch(4) [OF j]
    show "\<forall>p\<in>reach l Q (next_table (Q t j)). R p = Q p" using cj sub same by blast
    show "reach l R n \<inter> reach l Q (next_table (Q t j)) = {}" using cj sub bk by blast
  qed
  note fr = tree_frame [OF other]
  show "walk l (next_table (Q t j)) v R = walk l (next_table (Q t j)) v Q"
    if "j < 512" "j \<noteq> i" "is_table (Suc l) (Q t j)" for j v
    using fr(3) [OF that] tree_child(1) [OF tr that(1,3)] by blast
  show "reach (Suc l) R t \<subseteq> reach (Suc l) Q t \<union> reach l R n"
    using fr(1) tab by (auto simp: reach_child [of _ l] Rt) metis
  show "pt_tree (Suc l) R t"
  proof (subst pt_tree.simps(2), unfold Rt, intro conjI allI impI)
    fix a assume a: "a < 512" "is_table (Suc l) (Q t a)"
    show "t \<notin> reach l R (next_table (Q t a))"
      using a fr(1) [of a] tab(2) bk tD ch(2) tree_child(2) [OF tr a] by (cases "a = i") auto
    show "pt_tree l R (next_table (Q t a))"
      using a fr(2) [of a] tab(2) trn tree_child(1) [OF tr a] by (cases "a = i") auto
    fix b assume b: "b < 512" "b \<noteq> a \<and> is_table (Suc l) (Q t b)"
    then show "reach l R (next_table (Q t a)) \<inter> reach l R (next_table (Q t b)) = {}"
      using a fr(1) [of a] fr(1) [of b] tab(2) dis [of a] dis [of b] tree_child(4) [OF tr a, of b]
      by (cases "a = i"; cases "b = i") (simp_all add: Int_commute)
  qed (use tree_entry_ok [OF tr] in blast)
qed

lemma walk_replace:
  assumes trq: "pt_tree (Suc (Suc k)) Q t"
    and tab: "is_table (Suc (Suc k)) (Q t (lidx (Suc (Suc k)) v))" "next_table (Q t (lidx (Suc (Suc k)) v)) = n"
    and trr: "pt_tree (Suc (Suc k)) R t" and Rt: "R t = Q t"
    and oth: "\<And>j v'. j < 512 \<Longrightarrow> j \<noteq> lidx (Suc (Suc k)) v \<Longrightarrow> is_table (Suc (Suc k)) (Q t j) \<Longrightarrow>
      walk (Suc k) (next_table (Q t j)) v' R = walk (Suc k) (next_table (Q t j)) v' Q"
  shows "if lidx (Suc (Suc k)) v = lidx (Suc (Suc k)) v'
    then walk (Suc (Suc k)) t v' R = walk (Suc k) n v' R \<and> walk (Suc (Suc k)) t v' Q = walk (Suc k) n v' Q
    else walk (Suc (Suc k)) t v' R = walk (Suc (Suc k)) t v' Q"
proof (cases "lidx (Suc (Suc k)) v = lidx (Suc (Suc k)) v'")
  case True
  with walk_table [OF trq, of v'] walk_table [OF trr, of v'] tab Rt show ?thesis by simp
next
  case False
  let ?e = "Q t (lidx (Suc (Suc k)) v')"
  have "walk (Suc (Suc k)) t v' R = walk (Suc (Suc k)) t v' Q"
  proof (cases "is_table (Suc (Suc k)) ?e")
    case tb: True
    with walk_table [OF trq tb] walk_table [OF trr, of v'] Rt oth [OF lidx_less _ tb] False show ?thesis
      by metis
  next
    case nt: False
    then show ?thesis by (subst (1 2) walk.simps(2)) (auto simp: Let_def Rt is_table_def)
  qed
  with False show ?thesis by simp
qed

lemma map_outcome_lift:
  assumes tr: "pt_tree (Suc (Suc k)) (m_pages m) t" and sub: "reach (Suc (Suc k)) (m_pages m) t \<subseteq> owned m"
    and lo: "level_outcome (Suc k) t (lidx (Suc (Suc k)) v) m (Some n, m1)"
    and mo: "map_outcome (Suc k) v e n m1 r m'"
  shows "map_outcome (Suc (Suc k)) v e t m r m'"
proof -
  let ?i = "lidx (Suc (Suc k)) v" and ?P = "m_pages m" and ?Q = "m_pages m1" and ?R = "m_pages m'"
  have st: "level_step (Suc k) t ?i n (owned m) ?P ?Q" and ow1: "owned m1 = insert n (owned m)"
    using lo by (simp_all add: level_outcome_def)
  note tr1 = level_step_tree [OF tr sub lidx_less st]
  have tab: "is_table (Suc (Suc k)) (?Q t ?i)" "next_table (?Q t ?i) = n"
    using st by (simp_all add: level_step_def)
  have sub1: "reach (Suc (Suc k)) ?Q t \<subseteq> owned m1" using tr1(2) sub ow1 by auto
  have same: "\<forall>p\<in>owned m1 - reach (Suc k) ?Q n. ?R p = ?Q p" using mo by (simp add: map_outcome_def)
  have trn: "pt_tree (Suc k) ?R n" and bk: "reach (Suc k) ?R n \<inter> owned m1 \<subseteq> reach (Suc k) ?Q n"
    using mo by (simp_all add: map_outcome_def)
  note rep = subtree_replace [OF tr1(1) lidx_less tab sub1 same trn bk]
  have n_old: "n \<in> reach (Suc (Suc k)) ?P t" if "n \<in> owned m"
  proof -
    have old: "is_table (Suc (Suc k)) (?P t ?i)" "n = next_table (?P t ?i)"
      using st that by (auto simp: level_step_def split: if_splits)
    then show ?thesis using tree_child(3) [OF tr lidx_less old(1)] reach_root by blast
  qed
  have pq: "?Q p = ?P p" if "p \<in> owned m" "p \<noteq> t" for p
    using st that by (auto simp: level_step_def fun_eq_iff)
  have keep: "?R p = ?P p" if p: "p \<in> owned m" "p \<notin> reach (Suc (Suc k)) ?P t" for p
    using p same ow1 tr1(3) n_old pq [of p] reach_root by (metis DiffI insertCI insertE subsetD)
  have ows: "owned m1 \<subseteq> owned m'" "reach (Suc k) ?R n \<subseteq> owned m'" using mo by (simp_all add: map_outcome_def)
  have r1: "reach (Suc (Suc k)) ?R t \<subseteq> owned m'" using rep(3) sub1 ows by blast
  have r2: "reach (Suc (Suc k)) ?R t \<inter> owned m \<subseteq> reach (Suc (Suc k)) ?P t"
  proof
    fix p assume p: "p \<in> reach (Suc (Suc k)) ?R t \<inter> owned m"
    then have "p \<in> insert n (reach (Suc (Suc k)) ?P t)"
      using rep(3) tr1(2,3) bk ow1 by auto
    with p n_old show "p \<in> reach (Suc (Suc k)) ?P t" by auto
  qed
  have "if r = 0 \<and> same_path (Suc (Suc k)) v v'
      then walk (Suc (Suc k)) t v' ?R = (if bit e 0 then Some (e AND NOT pmask) else None)
      else map_option page_part (walk (Suc (Suc k)) t v' ?R) = map_option page_part (walk (Suc (Suc k)) t v' ?P)" for v'
    using walk_replace [OF tr1(1) tab rep(2,1) rep(4), of v'] level_step_walk [OF tr sub st lidx_less, of v'] mo
    by (auto simp: map_outcome_def same_path_Suc split: if_splits)
  with mo ow1 ows rep(2) keep lo r1 r2 show ?thesis
    by (simp add: map_outcome_def level_outcome_def)
qed

lemma map_walk_outcome:
  assumes "vm_inv m" "pt_tree (Suc k) (m_pages m) t" "reach (Suc k) (m_pages m) t \<subseteq> owned m"
  shows "case map_walk (Suc k) v pa fl ow t m of
      Inl e \<Rightarrow> \<not> ow \<and> walk (Suc k) t v (m_pages m) \<noteq> None
    | Inr (r, m') \<Rightarrow> map_outcome (Suc k) v (pa OR fl) t m r m' \<and> (r = 0 \<longrightarrow> ow \<or> walk (Suc k) t v (m_pages m) = None)"
  using assms
proof (induction k arbitrary: t m)
  case 0
  have t: "t \<in> owned m" using "0.prems"(3) reach_root by blast
  show ?case
  proof (cases "map_walk (Suc 0) v pa fl ow t m")
    case (Inl e)
    then show ?thesis
      by (auto simp: vmm_map_pt_level_def walk_1 Let_def lidx_macros pte_present_bit split: if_splits)
  next
    case (Inr rm)
    then have "ow \<or> walk (Suc 0) t v (m_pages m) = None"
      by (auto simp: vmm_map_pt_level_def walk_1 Let_def lidx_macros pte_present_bit split: if_splits)
    then show ?thesis using Inr pt_level_outcome [OF "0.prems"(1) t] by (cases rm) simp
  qed
next
  case (Suc k)
  let ?i = "lidx (Suc (Suc k)) v"
  obtain r1 m1 where ml: "map_level (Suc (Suc k)) v fl t ?i m = (r1, m1)" by fastforce
  note lo = map_level_outcome [OF Suc.prems lidx_less, of "Suc (Suc k)" v v fl, unfolded ml]
  show ?case
  proof (cases r1)
    case None
    then have "m_pages m1 = m_pages m" "owned m1 = owned m" "vm_inv m1" "m_kernel_pml4 m1 = m_kernel_pml4 m"
      "m_cr3 m1 = m_cr3 m" using lo by (simp_all add: level_outcome_def)
    then show ?thesis using None ml Suc.prems by (simp add: map_outcome_def)
  next
    case (Some n)
    have st: "level_step (Suc k) t ?i n (owned m) (m_pages m) (m_pages m1)" and v1: "vm_inv m1"
      and ow1: "owned m1 = insert n (owned m)" using lo Some by (simp_all add: level_outcome_def)
    note tr1 = level_step_tree [OF Suc.prems(2,3) lidx_less st]
    have "is_table (Suc (Suc k)) (m_pages m1 t ?i)" "next_table (m_pages m1 t ?i) = n"
      using st by (simp_all add: level_step_def)
    then have "pt_tree (Suc k) (m_pages m1) n" using tree_child(1) [OF tr1(1) lidx_less] by metis
    moreover have "reach (Suc k) (m_pages m1) n \<subseteq> owned m1" using tr1(3) Suc.prems(3) ow1 by blast
    ultimately have IH: "case map_walk (Suc k) v pa fl ow n m1 of
        Inl e \<Rightarrow> \<not> ow \<and> walk (Suc k) n v (m_pages m1) \<noteq> None
      | Inr (r, m') \<Rightarrow> map_outcome (Suc k) v (pa OR fl) n m1 r m' \<and> (r = 0 \<longrightarrow> ow \<or> walk (Suc k) n v (m_pages m1) = None)"
      using v1 by (intro Suc.IH)
    have "walk (Suc (Suc k)) t v (m_pages m1) = walk (Suc k) n v (m_pages m1)"
      using walk_table [OF tr1(1), of v] \<open>is_table _ _\<close> \<open>next_table _ = n\<close> by simp
    moreover have "walk (Suc (Suc k)) t v (m_pages m1) = None \<longleftrightarrow> walk (Suc (Suc k)) t v (m_pages m) = None"
      using level_step_walk [OF Suc.prems(2,3) st lidx_less, of v] by (metis map_option_is_None)
    ultimately show ?thesis
      using map_outcome_lift [OF Suc.prems(2,3), of v n m1] lo ml Some IH
      by (simp split: sum.splits prod.splits)
  qed
qed

section \<open>Changing a page-table entry in place\<close>

fun leaf_table :: "nat \<Rightarrow> u64 \<Rightarrow> u64 \<Rightarrow> frames \<Rightarrow> u64 option" where
  "leaf_table 0 t v P = None"
| "leaf_table (Suc 0) t v P = Some t"
| "leaf_table (Suc (Suc k)) t v P =
     (let e = P t (lidx (Suc (Suc k)) v) in
      if is_table (Suc (Suc k)) e then leaf_table (Suc k) (next_table e) v P else None)"

lemma set_pte_walk:
  assumes "pt_tree (Suc k) P t" "leaf_table (Suc k) t v P = Some p"
    and "Q = P(p := (P p)(lidx (Suc 0) v := e))"
  shows "p \<in> reach (Suc k) P t \<and> pt_tree (Suc k) Q t \<and> reach (Suc k) Q t \<subseteq> reach (Suc k) P t \<and>
    (\<forall>v'. walk (Suc k) t v' Q = (if same_path (Suc k) v v' then (if bit e 0 then Some (e AND NOT pmask) else None)
                             else walk (Suc k) t v' P))"
  using assms(1,2)
proof (induction k arbitrary: t)
  case 0
  then show ?case
    by (auto simp: assms(3) level1_simps walk_1 Let_def same_path_def le_Suc_eq)
next
  case (Suc k)
  let ?i = "lidx (Suc (Suc k)) v"
  have tab: "is_table (Suc (Suc k)) (P t ?i)" and lt: "leaf_table (Suc k) (next_table (P t ?i)) v P = Some p"
    using Suc.prems(2) by (auto simp: Let_def split: if_splits)
  let ?n = "next_table (P t ?i)"
  note ch = tree_child [OF Suc.prems(1) lidx_less tab]
  have IH: "p \<in> reach (Suc k) P ?n" "pt_tree (Suc k) Q ?n" "reach (Suc k) Q ?n \<subseteq> reach (Suc k) P ?n"
    "\<And>v'. walk (Suc k) ?n v' Q = (if same_path (Suc k) v v' then (if bit e 0 then Some (e AND NOT pmask) else None)
                             else walk (Suc k) ?n v' P)"
    using Suc.IH [OF ch(1) lt] by blast+
  have same: "\<forall>q\<in>reach (Suc (Suc k)) P t - reach (Suc k) P ?n. Q q = P q"
    using IH(1) by (auto simp: assms(3))
  note rep = subtree_replace [OF Suc.prems(1) lidx_less tab refl order.refl same IH(2)]
  have bk: "reach (Suc k) Q ?n \<inter> reach (Suc (Suc k)) P t \<subseteq> reach (Suc k) P ?n" using IH(3) by blast
  note wr = walk_replace [OF Suc.prems(1) tab refl rep(2,1) rep(4), OF bk bk bk]
  have "walk (Suc (Suc k)) t v' Q = (if same_path (Suc (Suc k)) v v'
      then (if bit e 0 then Some (e AND NOT pmask) else None) else walk (Suc (Suc k)) t v' P)" for v'
    unfolding same_path_Suc [of "Suc k"] using wr [of v'] IH(4) [of v'] by (simp split: if_splits)
  with rep(2,3) [OF bk] IH(1,3) ch(3) show ?case by blast
qed

section \<open>Address spaces\<close>

definition addr_space :: "u64 \<Rightarrow> mach \<Rightarrow> bool" where
  "addr_space pml4 m \<longleftrightarrow> vm_inv m \<and> pt_tree 4 (m_pages m) pml4 \<and> reach 4 (m_pages m) pml4 \<subseteq> owned m"

text \<open>The 36-bit page number that the four indices select.\<close>

definition page_number :: "u64 \<Rightarrow> u64" where
  "page_number v = take_bit 36 (drop_bit 12 v)"

lemma same_path_4: "same_path 4 v v' \<longleftrightarrow> page_number v = page_number v'"
proof
  assume "page_number v = page_number v'"
  then have *: "bit v k = bit v' k" if "12 \<le> k" "k < 48" for k
    using that by (auto simp: page_number_def bit_eq_iff bit_simps dest!: spec [of _ "k - 12"])
  show "same_path 4 v v'"
    unfolding same_path_def
  proof (intro allI impI bit_word_eqI)
    fix l n :: nat assume "1 \<le> l \<and> l \<le> 4"
    then show "bit (lidx l v) n = bit (lidx l v') n"
      using * [of "lbits l + n"] by (auto simp: bit_lidx lbits_def)
  qed
next
  assume sp: "same_path 4 v v'"
  have "bit v k = bit v' k" if k: "12 \<le> k" "k < 48" for k
  proof -
    define l where "l = (k - 3) div 9"
    have l: "1 \<le> l" "l \<le> 4" "lbits l \<le> k" "k < lbits l + 9" using k by (auto simp: l_def lbits_def)
    then have "lidx l v = lidx l v'" using sp by (simp add: same_path_def)
    moreover have "k - lbits l < 9" using l by simp
    ultimately show ?thesis
      using l bit_lidx [of l v "k - lbits l"] bit_lidx [of l v' "k - lbits l"] by simp
  qed
  then show "page_number v = page_number v'"
    by (intro bit_word_eqI) (auto simp: page_number_def bit_simps)
qed

lemma lidx_page: "1 \<le> l \<Longrightarrow> lidx l (v AND NOT pmask) = lidx l v"
  by (intro bit_word_eqI) (auto simp: bit_lidx lbits_def bit_simps dest: bit_imp_le_length)

lemma walk_page:
  "(walk l t (v AND NOT pmask) P = None) = (walk l t v P = None)"
proof (induction l arbitrary: t)
  case (Suc l)
  then show ?case by (simp add: walk.simps(2) Let_def lidx_page)
qed simp

lemma same_path_page: "same_path l (v AND NOT pmask) v' = same_path l v v'"
  by (auto simp: same_path_def lidx_page)

lemma vmm_map_raw_outcome:
  assumes "addr_space pml4 m"
  shows "case vmm_map_raw pml4 v pa fl ow m of
      Inl e \<Rightarrow> \<not> ow \<and> vmm_is_mapped pml4 v m
    | Inr (r, m') \<Rightarrow> map_outcome 4 v ((pa AND PTE_ADDR_MASK) OR fl) pml4 m r m' \<and> (r = 0 \<longrightarrow> ow \<or> \<not> vmm_is_mapped pml4 v m)"
proof -
  have 4: "Suc 3 = 4" by simp
  have "map_outcome 4 (v AND NOT pmask) e pml4 m r m' = map_outcome 4 v e pml4 m r m'" for e r m'
    by (simp add: map_outcome_def same_path_page)
  then show ?thesis
    using assms map_walk_outcome [where m = m and k = 3 and t = pml4 and v = "v AND NOT pmask"
        and pa = "pa AND PTE_ADDR_MASK" and fl = fl and ow = ow]
    unfolding 4 vmm_map_raw_walk addr_space_def
    by (auto simp: is_mapped_walk walk_page split: sum.splits)
qed

lemma map_outcome_space: "map_outcome 4 v e pml4 m r m' \<Longrightarrow> addr_space pml4 m'"
  by (simp add: map_outcome_def addr_space_def)

lemma is_mapped_cong: "m_pages m' = m_pages m \<Longrightarrow> vmm_is_mapped pml4 v m' = vmm_is_mapped pml4 v m"
  by (simp add: vmm_is_mapped_def Let_def)

lemma get_phys_cong: "m_pages m' = m_pages m \<Longrightarrow> vmm_get_phys pml4 v m' = vmm_get_phys pml4 v m"
  by (simp add: vmm_get_phys_def Let_def)

lemma addr_space_tlb: "addr_space pml4 (tlb ev m) = addr_space pml4 m"
  by (simp add: addr_space_def vm_inv_def owned_def)

lemma map_translation:
  assumes "map_outcome 4 v ((pa AND PTE_ADDR_MASK) OR fl) pml4 m r m'" "bit fl 0" "pml4 \<le> 0x00007FFFFFFFFFFF"
  shows "if r = 0 \<and> page_number v = page_number v'
      then vmm_get_phys pml4 v' m' = Inr (((pa AND PTE_ADDR_MASK) OR fl) AND NOT 0xFFF)
      else (vmm_is_mapped pml4 v' m' \<longleftrightarrow> vmm_is_mapped pml4 v' m) \<and>
        bind_res (vmm_get_phys pml4 v' m') (\<lambda>a. Inr (a AND NOT 0xFFF)) =
        bind_res (vmm_get_phys pml4 v' m) (\<lambda>a. Inr (a AND NOT 0xFFF))"
proof -
  have b0: "bit ((pa AND PTE_ADDR_MASK) OR fl) 0" using assms(2) by (simp add: bit_or_iff)
  have gp: "vmm_get_phys pml4 v' q = Inr (case walk 4 pml4 v' (m_pages q) of None \<Rightarrow> 0 | Some a \<Rightarrow> a)" for q
    using get_phys_walk [OF assms(3)] .
  show ?thesis
  proof (cases "r = 0 \<and> page_number v = page_number v'")
    case True
    then show ?thesis
      using assms(1) b0 unfolding gp map_outcome_def same_path_4 page_mask_const(1) by simp
  next
    case False
    then have "map_option page_part (walk 4 pml4 v' (m_pages m')) = map_option page_part (walk 4 pml4 v' (m_pages m))"
      using assms(1) unfolding map_outcome_def same_path_4 by metis
    with False show ?thesis
      unfolding gp is_mapped_walk page_mask_const(1) by (auto split: option.splits)
  qed
qed

section \<open>Unmapping\<close>

lemma leaf_table_levels:
  "leaf_table 4 t v P = (let e = P t (lidx 4 v) in if is_table 4 e then leaf_table 3 (next_table e) v P else None)"
  "leaf_table 3 t v P = (let e = P t (lidx 3 v) in if is_table 3 e then leaf_table 2 (next_table e) v P else None)"
  "leaf_table 2 t v P = (let e = P t (lidx 2 v) in if is_table 2 e then Some (next_table e) else None)"
  by (simp_all add: numeral_eq_Suc Let_def)

lemma page_clear: "(x :: u64) AND NOT (PAGE_SIZE - 1) = x AND NOT pmask"
  by (simp add: mask_eq_exp_minus_1)

lemma unmap_entry:
  assumes "leaf_table 4 pml4 v (m_pages m) = Some p"
  shows "vmm_unmap_raw pml4 v m =
    (0, tlb (FlushOne (v AND NOT pmask)) (set_entry p (lidx 1 v) 0 m))"
proof -
  have idx: "lidx 4 (v AND NOT pmask) = lidx 4 v" "lidx 3 (v AND NOT pmask) = lidx 3 v"
    "lidx 2 (v AND NOT pmask) = lidx 2 v" "lidx 1 (v AND NOT pmask) = lidx 1 v"
    by (simp_all add: lidx_page)
  from assms show ?thesis
    unfolding vmm_unmap_raw_def Let_def page_clear lidx_macros idx pte_present_bit leaf_table_levels
    by (auto simp: next_table_def is_table_def split: if_splits)
qed

lemma unmap_space:
  assumes "addr_space pml4 m" "leaf_table 4 pml4 v (m_pages m) = Some p"
  shows "addr_space pml4 (snd (vmm_unmap pml4 v m)) \<and>
    (\<forall>v'. walk 4 pml4 v' (m_pages (snd (vmm_unmap pml4 v m))) =
      (if page_number v = page_number v' then None else walk 4 pml4 v' (m_pages m)))"
proof -
  let ?m = "set_entry p (lidx 1 v) 0 m"
  have 4: "Suc 3 = 4" by simp
  have pg: "m_pages (snd (vmm_unmap pml4 v m)) = (m_pages m)(p := (m_pages m p)(lidx (Suc 0) v := 0))"
    and pm: "m_pmm (snd (vmm_unmap pml4 v m)) = m_pmm m"
    by (simp_all add: vmm_unmap_def unmap_entry [OF assms(2)] set_entry_def)
  have tr: "pt_tree (Suc 3) (m_pages m) pml4" "leaf_table (Suc 3) pml4 v (m_pages m) = Some p"
    using assms by (simp_all add: addr_space_def)
  from set_pte_walk [OF tr pg] vm_inv_pmm [OF pm] assms(1)
  show ?thesis unfolding 4 addr_space_def by (auto simp: same_path_4)
qed

section \<open>Properties\<close>

text \<open>
  A machine with 264 pages whose only page in use, at 1 MiB, is an empty root
  table; the three remaining allocatable pages are just enough for one mapping.
\<close>

definition vm_example :: mach where
  "vm_example = \<lparr>m_pmm = snd (pmm_alloc pmm_example), m_pages = \<lambda>_ _. 0,
     m_kernel_pml4 = 0x100000, m_cr3 = 0, m_tlb = []\<rparr>"

lemma vm_example_space: "addr_space 0x100000 vm_example"
proof -
  have "fst (pmm_alloc pmm_example) = 0x100000" by code_simp
  then have al: "pmm_alloc pmm_example = (0x100000, snd (pmm_alloc pmm_example))"
    by (metis prod.collapse)
  note fr = pp.alloc_fresh [OF pmm_example_inv al]
  have "pmm_total_pages (snd (pmm_alloc pmm_example)) = 264" by code_simp
  with fr have "vm_inv vm_example" "0x100000 \<in> owned vm_example"
    by (simp_all add: vm_inv_def vm_example_def owned_def)
  moreover have "pt_tree 4 (\<lambda>_ _. 0) 0x100000" "reach 4 (\<lambda>_ _. 0) 0x100000 = {0x100000}"
    using bare_table [of 3 "\<lambda>_ _. 0" "0x100000"] by (simp_all add: is_table_def entry_ok_def is_leaf_def)
  ultimately show ?thesis by (simp add: addr_space_def vm_example_def)
qed

text \<open>The new table of a split page in closed form, for evaluation.\<close>

lemma split_block_code [code]:
  "split_block step flags t i m =
     (let block_base = m_pages m t i AND PTE_ADDR_MASK;
          block_attrs = m_pages m t i AND NOT PTE_ADDR_MASK;
          (new_pt, m1) = alloc_page m in
      if new_pt = 0 then (False, m1)
      else (True, set_entry t i (table_entry new_pt flags) (m1\<lparr>m_pages := (m_pages m1)
             (new_pt := \<lambda>j. if j < 512 then (block_base + j * step) OR block_attrs else 0)\<rparr>)))"
proof -
  have "fold (\<lambda>j. set_entry n j (f j)) (u64_upto 512) (zero_page n q) =
      q\<lparr>m_pages := (m_pages q)(n := \<lambda>j. if j < 512 then f j else 0)\<rparr>" for n f and q :: mach
  proof -
    have tlbs: "m_tlb (fold (\<lambda>j. set_entry n j (f j)) xs q) = m_tlb q" for xs q
      by (induction xs arbitrary: q) (auto simp: set_entry_def)
    show ?thesis
      by (rule mach.equality) (auto simp: fold_set_entry tlbs zero_page_def fun_eq_iff set_u64_upto)
  qed
  then show ?thesis by (simp add: split_block_def Let_def case_prod_unfold)
qed

text \<open>
  An address space with a 1 GiB page: one table below the root, whose first entry maps
  the first gibibyte.
\<close>

definition gib_example :: mach where
  "gib_example = vm_example\<lparr>m_pmm := snd (pmm_alloc (m_pmm vm_example)),
     m_pages := (\<lambda>_ _. 0)(0x100000 := (\<lambda>_. 0)(0 := 0x101003), 0x101000 := (\<lambda>_. 0)(0 := 0x83))\<rparr>"

lemma gib_pmm: "vm_inv gib_example" "0x100000 \<in> owned gib_example" "0x101000 \<in> owned gib_example"
proof -
  let ?p = "m_pmm vm_example"
  have "Suc 3 = 4" by simp
  then have r: "0x100000 \<in> reach 4 (m_pages vm_example) 0x100000" using reach_root by metis
  have p: "pmm_inv ?p" "pmm_owns ?p 0x100000"
    using vm_example_space r by (auto simp: addr_space_def vm_inv_def owned_def)
  have "fst (pmm_alloc ?p) = 0x101000" by code_simp
  then have al: "pmm_alloc ?p = (0x101000, snd (pmm_alloc ?p))" by (metis prod.collapse)
  note fr = pp.alloc_fresh [OF p(1) al]
  have "pmm_total_pages (snd (pmm_alloc ?p)) = 264" by code_simp
  with fr p show "vm_inv gib_example" "0x100000 \<in> owned gib_example" "0x101000 \<in> owned gib_example"
    by (simp_all add: vm_inv_def gib_example_def owned_def)
qed

lemma bit_below: "take_bit n x = x \<Longrightarrow> bit x k \<Longrightarrow> k < n" for x :: u64
  by (metis bit_take_bit_iff)

lemma gib_example_space: "addr_space 0x100000 gib_example"
proof -
  let ?P = "m_pages gib_example"
  have P: "?P 0x100000 i = (if i = 0 then 0x101003 else 0)" "?P 0x101000 i = (if i = 0 then 0x83 else 0)" for i
    by (simp_all add: gib_example_def)
  have e: "is_table 4 0x101003" "\<not> is_table 4 0" "next_table 0x101003 = 0x101000" "\<not> is_table 3 0x83" "\<not> is_table 3 0"
    by (simp_all add: is_table_def is_leaf_def next_table_def)
  have ok: "entry_ok 4 0x101003" "entry_ok 4 0" "entry_ok 3 0x83" "entry_ok 3 0"
    using bit_below [of 52 "0x101003"] bit_below [of 12 "0x83"]
    by (auto simp: entry_ok_def is_table_def is_leaf_def)
  have t3: "reach 3 ?P 0x101000 = {0x101000}" "pt_tree 3 ?P 0x101000"
    using bare_table [of 2 ?P "0x101000"] e ok by (simp_all add: P)
  have "reach 4 ?P 0x100000 = {0x100000, 0x101000}"
    using t3 e by (auto simp: reach.simps(2) [of 3, simplified] P split: if_splits)
  moreover have "pt_tree 4 ?P 0x100000"
    using t3 e ok by (auto simp: pt_tree.simps(2) [of 3, simplified] P split: if_splits)
  ultimately show ?thesis using gib_pmm by (simp add: addr_space_def)
qed

text \<open>
  (C5) Mapping and remapping a page in a well-formed address space.  \<open>vmm_map\<close> (\<open>ow\<close> false)
  and \<open>vmm_remap\<close> (\<open>ow\<close> true) return 0 or -1 (no page for a table), except that \<open>vmm_map\<close> of an
  address that is mapped already panics or returns -1, and never replaces the mapping.  On 0,
  every address of the page translates to the requested frame with the flag bits at and above
  bit 12; every address of another page translates as before (up to the offset in the
  page, which \<open>vmm_get_phys\<close> adds for large pages only); and the address space is
  still well formed.  On -1 no translation changes.  This covers the allocation of
  missing tables and, for \<open>vmm_remap\<close> inside a large page, its splitting: the other pages of
  a 1 GiB or 2 MiB page keep their frames.
\<close>
theorem vmm_map_correct:
  assumes "addr_space pml4 m" "bit fl 0" "pml4 \<le> 0x00007FFFFFFFFFFF"
  shows "case (if ow then vmm_remap pml4 v pa fl m else vmm_map pml4 v pa fl m) of
      Inl e \<Rightarrow> \<not> ow \<and> vmm_is_mapped pml4 v m
    | Inr (r, m') \<Rightarrow> (r = - 1 \<or> r = 0 \<and> (ow \<or> \<not> vmm_is_mapped pml4 v m)) \<and> addr_space pml4 m' \<and>
        (\<forall>v'. if r = 0 \<and> page_number v = page_number v'
          then vmm_get_phys pml4 v' m' = Inr (((pa AND PTE_ADDR_MASK) OR fl) AND NOT 0xFFF)
          else (vmm_is_mapped pml4 v' m' \<longleftrightarrow> vmm_is_mapped pml4 v' m) \<and>
            bind_res (vmm_get_phys pml4 v' m') (\<lambda>a. Inr (a AND NOT 0xFFF)) =
            bind_res (vmm_get_phys pml4 v' m) (\<lambda>a. Inr (a AND NOT 0xFFF)))"
proof (cases "vmm_map_raw pml4 v pa fl ow m")
  case (Inl e)
  then show ?thesis
    using vmm_map_raw_outcome [OF assms(1), where v = v and pa = pa and fl = fl and ow = ow]
    by (auto simp: vmm_map_def vmm_remap_def)
next
  case (Inr rm)
  then obtain r m1 where res: "vmm_map_raw pml4 v pa fl ow m = Inr (r, m1)" by (cases rm) auto
  define m' where "m' = (if ow then tlb BroadcastFlush m1 else m1)"
  have pg: "m_pages m' = m_pages m1" by (simp add: m'_def)
  have out: "map_outcome 4 v ((pa AND PTE_ADDR_MASK) OR fl) pml4 m r m1" "r = 0 \<longrightarrow> ow \<or> \<not> vmm_is_mapped pml4 v m"
    using vmm_map_raw_outcome [OF assms(1), where v = v and pa = pa and fl = fl and ow = ow] res by simp_all
  note tr = map_translation [OF out(1) assms(2,3), folded get_phys_cong [OF pg] is_mapped_cong [OF pg]]
  have "addr_space pml4 m'" using map_outcome_space [OF out(1)] addr_space_tlb by (simp add: m'_def)
  moreover have "r = - 1 \<or> r = 0 \<and> (ow \<or> \<not> vmm_is_mapped pml4 v m)" using out by (auto simp: map_outcome_def)
  moreover have "(if ow then vmm_remap pml4 v pa fl m else vmm_map pml4 v pa fl m) = Inr (r, m')"
    using res by (cases ow) (simp_all add: vmm_map_def vmm_remap_def m'_def)
  ultimately show ?thesis using allI [OF tr] by (simp only: sum.case prod.case simp_thms)
qed

theorem vmm_map_correct_witness:
  "(\<exists>m'. vmm_map 0x100000 0x400000 0x200000 3 vm_example = Inr (0, m') \<and> addr_space 0x100000 m' \<and>
     vmm_get_phys 0x100000 0x400123 m' = Inr 0x200000) \<and>
   (\<exists>m'. vmm_remap 0x100000 0x400000 0x200000 3 gib_example = Inr (0, m') \<and> addr_space 0x100000 m' \<and>
     vmm_get_phys 0x100000 0x400123 m' = Inr 0x200000 \<and>
     bind_res (vmm_get_phys 0x100000 0x789abc m') (\<lambda>a. Inr (a AND NOT 0xFFF)) = Inr 0x789000)"
proof
  have pn: "page_number 0x400000 = page_number 0x400123" "page_number 0x400000 \<noteq> page_number 0x789abc" by code_simp+
  have b: "bit (3 :: u64) 0" by simp
  have nm: "\<not> vmm_is_mapped 0x100000 0x400000 vm_example"
    by (simp add: vmm_is_mapped_def vm_example_def pte_present_def Let_def)
  have ok: "(case vmm_map 0x100000 0x400000 0x200000 3 vm_example of Inl _ \<Rightarrow> False | Inr (r, _) \<Rightarrow> r = 0)"
    by code_simp
  from vmm_map_correct [OF vm_example_space b, of False "0x400000" "0x200000"] ok nm pn
  show "\<exists>m'. vmm_map 0x100000 0x400000 0x200000 3 vm_example = Inr (0, m') \<and> addr_space 0x100000 m' \<and>
     vmm_get_phys 0x100000 0x400123 m' = Inr 0x200000"
    by (auto split: sum.splits dest!: spec [of _ "0x400123"])
  have ok2: "(case vmm_remap 0x100000 0x400000 0x200000 3 gib_example of Inl _ \<Rightarrow> False | Inr (r, _) \<Rightarrow> r = 0)"
    by code_simp
  have old: "vmm_get_phys 0x100000 0x789abc gib_example = Inr 0x789abc" by code_simp
  from vmm_map_correct [OF gib_example_space b, of True "0x400000" "0x200000"] ok2
  obtain m' where m': "vmm_remap 0x100000 0x400000 0x200000 3 gib_example = Inr (0, m')" "addr_space 0x100000 m'"
    and t: "\<forall>v'. if page_number 0x400000 = page_number v'
      then vmm_get_phys 0x100000 v' m' = Inr (((0x200000 AND PTE_ADDR_MASK) OR 3) AND NOT 0xFFF)
      else (vmm_is_mapped 0x100000 v' m' \<longleftrightarrow> vmm_is_mapped 0x100000 v' gib_example) \<and>
        bind_res (vmm_get_phys 0x100000 v' m') (\<lambda>a. Inr (a AND NOT 0xFFF)) =
        bind_res (vmm_get_phys 0x100000 v' gib_example) (\<lambda>a. Inr (a AND NOT 0xFFF))"
    by (auto split: sum.splits)
  show "\<exists>m'. vmm_remap 0x100000 0x400000 0x200000 3 gib_example = Inr (0, m') \<and> addr_space 0x100000 m' \<and>
     vmm_get_phys 0x100000 0x400123 m' = Inr 0x200000 \<and>
     bind_res (vmm_get_phys 0x100000 0x789abc m') (\<lambda>a. Inr (a AND NOT 0xFFF)) = Inr 0x789000"
    using m' t [THEN spec, of "0x400123"] t [THEN spec, of "0x789abc"] pn old by simp
qed

text \<open>
  (C9) \<open>vmm_unmap\<close> of an address whose walk reaches a page table (no large page on
  the way) returns 0, removes exactly that page from the address space, keeps the
  address space well formed, flushes the local TLB entry and then asks the other
  CPUs to flush.
\<close>
theorem vmm_unmap_correct:
  assumes "addr_space pml4 m" "leaf_table 4 pml4 v (m_pages m) = Some p"
  shows "\<exists>m'. vmm_unmap pml4 v m = (0, m') \<and> addr_space pml4 m' \<and>
    m_tlb m' = m_tlb m @ [FlushOne (v AND NOT 0xFFF), BroadcastFlush] \<and>
    (\<forall>v'. vmm_is_mapped pml4 v' m' \<longleftrightarrow> vmm_is_mapped pml4 v' m \<and> page_number v' \<noteq> page_number v) \<and>
    (\<forall>v'. page_number v' \<noteq> page_number v \<longrightarrow> vmm_get_phys pml4 v' m' = vmm_get_phys pml4 v' m)"
proof -
  let ?m = "snd (vmm_unmap pml4 v m)"
  have u: "vmm_unmap pml4 v m = (0, ?m)" and tlb: "m_tlb ?m = m_tlb m @ [FlushOne (v AND NOT 0xFFF), BroadcastFlush]"
    unfolding vmm_unmap_def unmap_entry [OF assms(2)] page_mask_const(1) by (simp_all add: tlb_def)
  note us = unmap_space [OF assms]
  have "vmm_get_phys pml4 v' ?m = vmm_get_phys pml4 v' m" if "page_number v' \<noteq> page_number v" for v'
  proof (cases "pml4 \<le> 0x00007FFFFFFFFFFF")
    case True
    then show ?thesis using get_phys_walk [OF True] us that by simp
  next
    case False
    then show ?thesis by (simp add: vmm_get_phys_def not_le)
  qed
  moreover have "vmm_is_mapped pml4 v' ?m \<longleftrightarrow> vmm_is_mapped pml4 v' m \<and> page_number v' \<noteq> page_number v" for v'
    using us unfolding is_mapped_walk by auto
  ultimately show ?thesis using u tlb us by metis
qed

definition vm_mapped_example :: mach where
  "vm_mapped_example = (case vmm_map 0x100000 0x400000 0x200000 3 vm_example of Inl _ \<Rightarrow> vm_example | Inr (_, m) \<Rightarrow> m)"

lemma vm_mapped_space: "addr_space 0x100000 vm_mapped_example"
  using vmm_map_raw_outcome [OF vm_example_space, where v = "0x400000" and pa = "0x200000" and fl = 3 and ow = False]
    map_outcome_space vm_example_space
  by (auto simp: vm_mapped_example_def vmm_map_def split: sum.splits)

theorem vmm_unmap_correct_witness:
  "\<exists>m'. vmm_unmap 0x100000 0x400000 vm_mapped_example = (0, m') \<and> \<not> vmm_is_mapped 0x100000 0x400000 m'"
proof -
  have "leaf_table 4 0x100000 0x400000 (m_pages vm_mapped_example) = Some 0x103000" by code_simp
  from vmm_unmap_correct [OF vm_mapped_space this] show ?thesis by auto
qed

text \<open>
  \<open>__vmm_unmap\<close> does not recognise large pages.  When the page-directory entry
  on the walk maps a 2 MiB page, \<open>vmm_unmap\<close> still returns 0 (success), leaves the
  page directory alone, so that the address stays mapped, and instead overwrites
  with zero a 64-bit word of the mapped data page.
\<close>
theorem vmm_unmap_large_page_corrupts:
  assumes "pte_present (m_pages m pml4 (PML4_IDX v))"
    and "pd = m_pages m (m_pages m pml4 (PML4_IDX v) AND PTE_ADDR_MASK) (PDPT_IDX v) AND PTE_ADDR_MASK"
    and "pte_present (m_pages m (m_pages m pml4 (PML4_IDX v) AND PTE_ADDR_MASK) (PDPT_IDX v))"
    and "PTE_IS_LEAF (m_pages m pd (PD_IDX v))"
  shows "\<exists>m'. vmm_unmap pml4 v m = (0, m') \<and>
    m_pages m' (m_pages m pd (PD_IDX v) AND PTE_ADDR_MASK) (PT_IDX v) = 0 \<and>
    (\<forall>p i. p \<noteq> m_pages m pd (PD_IDX v) AND PTE_ADDR_MASK \<longrightarrow> m_pages m' p i = m_pages m p i)"
proof -
  have idx: "lidx 4 (v AND NOT pmask) = lidx 4 v" "lidx 3 (v AND NOT pmask) = lidx 3 v"
    "lidx 2 (v AND NOT pmask) = lidx 2 v" "lidx 1 (v AND NOT pmask) = lidx 1 v"
    by (simp_all add: lidx_page)
  have "bit (m_pages m pd (PD_IDX v)) 0" using assms(4) by (simp add: pte_leaf_bits)
  with assms show ?thesis
    unfolding vmm_unmap_def vmm_unmap_raw_def Let_def page_clear lidx_macros idx pte_present_bit
    by auto
qed

definition large_page_example :: mach where
  "large_page_example = vm_example\<lparr>m_pages := (\<lambda>_ _. 0xdead)
     (0x100000 := (\<lambda>_. 0)(0 := 0x101003), 0x101000 := (\<lambda>_. 0)(0 := 0x102003),
      0x102000 := (\<lambda>_. 0)(1 := 0x200083))\<rparr>"

theorem vmm_unmap_large_page_corrupts_witness:
  "\<exists>m'. vmm_unmap 0x100000 0x205000 large_page_example = (0, m') \<and> m_pages m' 0x200000 5 = 0 \<and>
     m_pages large_page_example 0x200000 5 = 0xdead"
proof -
  have "pte_present (m_pages large_page_example 0x100000 (PML4_IDX 0x205000))"
    "0x102000 = m_pages large_page_example (m_pages large_page_example 0x100000 (PML4_IDX 0x205000) AND PTE_ADDR_MASK)
        (PDPT_IDX 0x205000) AND PTE_ADDR_MASK"
    "pte_present (m_pages large_page_example
        (m_pages large_page_example 0x100000 (PML4_IDX 0x205000) AND PTE_ADDR_MASK) (PDPT_IDX 0x205000))"
    "PTE_IS_LEAF (m_pages large_page_example 0x102000 (PD_IDX 0x205000))"
    by code_simp+
  note w = vmm_unmap_large_page_corrupts [OF this]
  have "m_pages large_page_example 0x102000 (PD_IDX 0x205000) AND PTE_ADDR_MASK = 0x200000"
    "PT_IDX 0x205000 = 5" "m_pages large_page_example 0x200000 5 = 0xdead" by code_simp+
  with w show ?thesis by auto
qed

end
