(* ===== verification/Kheap.thy ===== *)
theory Kheap
  imports Klist Vmm_Map
begin

text \<open>
  The kernel heap (\<open>kernel/heap.c\<close>, \<open>kernel/heap.h\<close>): a first-fit allocator whose
  blocks are chained by the intrusive list of their headers.  The list is the
  pointer structure of \<open>Klist\<close>, the headers are a map from block addresses, and
  growing the heap calls the page allocator and the page-table code.  A block's
  header lies at offset 0 of the block and is 48 bytes long; \<open>h_size\<close> is the size of
  the whole block.  Every operation runs under \<open>kheap_g.lock\<close> and is one transition.
\<close>

section \<open>State\<close>

abbreviation KHEAP_ALIGNMENT :: u64 where "KHEAP_ALIGNMENT \<equiv> 16"
abbreviation KHEAP_MAGIC :: u32 where "KHEAP_MAGIC \<equiv> 0x48454150"
abbreviation HEAP_MAX_SIZE :: u64 where "HEAP_MAX_SIZE \<equiv> 0x40000000"
abbreviation KHEAP_VBASE :: u64 where "KHEAP_VBASE \<equiv> 0xffffa00000000000"
abbreviation NODE_SIZE :: u64 where "NODE_SIZE \<equiv> 48"

record kheap_node =
  h_magic :: u32
  h_free :: bool
  h_size :: u64
  h_id :: u64

record kheap =
  kh_links :: links
  kh_hdr :: "u64 \<Rightarrow> kheap_node"
  kh_head :: u64
  kh_base :: u64
  kh_max :: u64
  kh_count :: u64
  kh_mach :: mach

definition set_hdr :: "u64 \<Rightarrow> kheap_node \<Rightarrow> kheap \<Rightarrow> kheap" where
  "set_hdr n d h = h\<lparr>kh_hdr := (kh_hdr h)(n := d)\<rparr>"

definition on_links :: "(links \<Rightarrow> links) \<Rightarrow> kheap \<Rightarrow> kheap" where
  "on_links f h = h\<lparr>kh_links := f (kh_links h)\<rparr>"

section \<open>Growing the heap\<close>

definition kheap_get_limit :: "u64 \<Rightarrow> u64 option" where
  "kheap_get_limit base = (if base > - 1 - HEAP_MAX_SIZE then None else Some (base + HEAP_MAX_SIZE))"

text \<open>One round of the loop of \<open>kheap_expand_to_addr\<close>: back the page at \<open>max\<close>.\<close>

definition expand_page :: "u64 \<Rightarrow> mach \<Rightarrow> (bool \<times> mach) res" where
  "expand_page mx m =
     (if vmm_is_mapped (m_kernel_pml4 m) mx m then Inr (True, m)
      else let (phys, m1) = alloc_page m in
        if phys = 0 then Inr (False, m1)
        else bind_res (vmm_map (m_kernel_pml4 m1) mx phys (PTE_PRESENT OR PTE_WRITABLE) m1) (\<lambda>(n, m2).
          if n \<noteq> 0 then bind_res (free_page phys m2) (\<lambda>m3. Inr (False, m3))
          else Inr (True, tlb (FlushOne mx) m2)))"

function expand_loop :: "u64 \<Rightarrow> u64 \<Rightarrow> u64 \<Rightarrow> mach \<Rightarrow> (bool \<times> u64 \<times> mach) res" where
  "expand_loop target limit mx m =
     (if mx < target then
        if mx > limit \<or> PAGE_SIZE > limit - mx then Inr (False, mx, m)
        else bind_res (expand_page mx m) (\<lambda>(ok, m1).
          if ok then expand_loop target limit (mx + PAGE_SIZE) m1 else Inr (False, mx, m1))
      else Inr (True, mx, m))"
  by pat_completeness auto

termination
proof (relation "measure (\<lambda>(target, limit, mx, m). unat target - unat mx)", simp)
  fix target limit mx :: u64 and m1 :: mach and m :: mach
  assume lt: "mx < target" and guard: "\<not> (mx > limit \<or> PAGE_SIZE > limit - mx)"
  have "mx \<le> limit" using guard by (simp add: not_less)
  then have "unat limit - unat mx \<ge> 4096"
    using guard by (simp add: not_less word_le_nat_alt [of PAGE_SIZE] unat_sub)
  then have "unat (mx + PAGE_SIZE) = unat mx + 4096"
    using unat_u64_less [of limit] by (subst unat_u64_add) simp_all
  then show "((target, limit, mx + PAGE_SIZE, m1), target, limit, mx, m)
      \<in> measure (\<lambda>(target, limit, mx, m). unat target - unat mx)"
    using lt by (simp add: word_less_nat_alt)
qed

definition kheap_expand_to_addr :: "u64 \<Rightarrow> kheap \<Rightarrow> (bool \<times> kheap) res" where
  "kheap_expand_to_addr target_addr h =
     (case kheap_get_limit (kh_base h) of
        None \<Rightarrow> Inr (False, h)
      | Some limit \<Rightarrow>
          if target_addr < kh_base h \<or> target_addr > - 1 - (PAGE_SIZE - 1) then Inr (False, h)
          else let target_aligned = (target_addr + PAGE_SIZE - 1) AND NOT (PAGE_SIZE - 1) in
            if target_aligned > limit then Inr (False, h)
            else bind_res (expand_loop target_aligned limit (kh_max h) (kh_mach h)) (\<lambda>(ok, mx, m).
                   Inr (ok, h\<lparr>kh_max := mx, kh_mach := m\<rparr>)))"

section \<open>Allocation\<close>

text \<open>
  The first-fit search along the list.  The outer option is \<open>None\<close> when the
  traversal never comes back to the head.
\<close>

partial_function (option) find_fit ::
  "u64 \<Rightarrow> (u64 \<Rightarrow> kheap_node) \<Rightarrow> links \<Rightarrow> u64 \<Rightarrow> u64 \<Rightarrow> u64 option option"
where
  [code]: "find_fit head hdr lk need cur =
     (if cur = head then Some None
      else if h_free (hdr cur) \<and> h_size (hdr cur) \<ge> need then Some (Some cur)
      else find_fit head hdr lk need (lnext lk cur))"

text \<open>
  Taking \<open>total_needed\<close> bytes from the tail of the free block \<open>cur\<close>, or the whole
  block when the rest would be too small (\<open>HEAP_MALLOC_FROM_TAIL\<close>).
\<close>

definition take_block :: "u64 \<Rightarrow> u64 \<Rightarrow> u64 \<Rightarrow> kheap \<Rightarrow> u64 \<times> kheap" where
  "take_block tid need cur h =
     (let sz = h_size (kh_hdr h cur);
          (allocated, asz, h1) =
            (if sz - need \<ge> NODE_SIZE + KHEAP_ALIGNMENT then
               let free_size = sz - need; a = cur + free_size;
                   h' = set_hdr cur ((kh_hdr h cur)\<lparr>h_size := free_size\<rparr>) h
               in (a, need, on_links (\<lambda>s. list_add a cur (list_init a s)) h')
             else (cur, sz, h));
          h2 = set_hdr allocated
                 ((kh_hdr h1 allocated)\<lparr>h_magic := KHEAP_MAGIC, h_size := asz, h_free := False, h_id := tid\<rparr>) h1
      in (allocated + NODE_SIZE, h2))"

definition new_block :: "u64 \<Rightarrow> u64 \<Rightarrow> kheap \<Rightarrow> (u64 \<times> kheap) res" where
  "new_block tid need h =
     (let last = list_last_entry (kh_head h) (kh_links h) in
      case kheap_get_limit (kh_base h) of
        None \<Rightarrow> Inr (0, h)
      | Some limit \<Rightarrow>
          if last < kh_base h \<or> last > limit \<or> h_size (kh_hdr h last) > limit - last then Inr (0, h)
          else let addr = last + h_size (kh_hdr h last) in
            if addr > - 1 - need \<or> addr + need > limit then Inr (0, h)
            else bind_res (kheap_expand_to_addr (addr + need) h) (\<lambda>(ok, h1).
              if \<not> ok then Inr (0, h1)
              else let h2 = on_links (list_init addr) h1;
                       h3 = set_hdr addr ((kh_hdr h2 addr)
                              \<lparr>h_magic := KHEAP_MAGIC, h_size := need, h_free := False, h_id := tid\<rparr>) h2;
                       h4 = on_links (list_add addr last) h3
                   in Inr (addr + NODE_SIZE, h4)))"

text \<open>\<open>tid\<close> is the id of the current thread, 0 when there is none.\<close>

definition kmalloc :: "u64 \<Rightarrow> u64 \<Rightarrow> kheap \<Rightarrow> (u64 \<times> kheap) res" where
  "kmalloc tid sz h =
     (if sz = 0 then Inr (0, h)
      else if sz > - 1 - NODE_SIZE - (KHEAP_ALIGNMENT - 1) then Inr (0, h)
      else let need = (sz + NODE_SIZE + (KHEAP_ALIGNMENT - 1)) AND NOT (KHEAP_ALIGNMENT - 1) in
        case find_fit (kh_head h) (kh_hdr h) (kh_links h) need (lnext (kh_links h) (kh_head h)) of
          None \<Rightarrow> Inl Diverge
        | Some (Some cur) \<Rightarrow> Inr (take_block tid need cur h)
        | Some None \<Rightarrow> new_block tid need h)"

section \<open>Release\<close>

text \<open>The two merges of \<open>kfree\<close>: into the previous block, and of the next block.\<close>

definition kfree_merge_prev :: "u64 \<Rightarrow> u64 \<Rightarrow> kheap \<Rightarrow> u64 \<times> kheap" where
  "kfree_merge_prev prev cur h =
     (let prev_adj = (prev + h_size (kh_hdr h prev) = cur) in
      if h_free (kh_hdr h prev) \<and> prev_adj
      then (prev, on_links (list_del_init cur)
              (set_hdr prev ((kh_hdr h prev)\<lparr>h_size := h_size (kh_hdr h prev) + h_size (kh_hdr h cur)\<rparr>) h))
      else (cur, h))"

definition kfree_merge_next :: "u64 \<Rightarrow> bool \<Rightarrow> u64 \<Rightarrow> kheap \<Rightarrow> kheap" where
  "kfree_merge_next next next_adj cur h =
     (if h_free (kh_hdr h next) \<and> next_adj
      then on_links (list_del_init next)
             (set_hdr cur ((kh_hdr h cur)\<lparr>h_size := h_size (kh_hdr h cur) + h_size (kh_hdr h next)\<rparr>) h)
      else h)"

definition kfree :: "u64 \<Rightarrow> kheap \<Rightarrow> kheap res" where
  "kfree ptr h =
     (if ptr = 0 then Inr h
      else let cur = ptr - NODE_SIZE; d = kh_hdr h cur in
        if h_free d then Inl (Panic ''kfree: double free'')
        else if h_magic d \<noteq> KHEAP_MAGIC then Inl (Panic ''kfree: invalid magic'')
        else let prev = list_last_entry cur (kh_links h);
                 next = list_first_entry cur (kh_links h) in
          if cur + NODE_SIZE \<noteq> ptr then Inl (Panic ''kfree: payload mismatch'')
          else let next_adj = (cur + h_size d = next);
                   (c1, h1) = kfree_merge_prev prev cur h;
                   h2 = kfree_merge_next next next_adj c1 h1
               in Inr (set_hdr c1 ((kh_hdr h2 c1)\<lparr>h_free := True, h_id := 0\<rparr>) h2))"

section \<open>Initialisation\<close>

definition kheap_node_append :: "u64 \<Rightarrow> kheap \<Rightarrow> kheap" where
  "kheap_node_append n h = on_links (list_add_tail n (kh_head h)) h"

definition kheap_init :: "kheap \<Rightarrow> kheap res" where
  "kheap_init h =
     (let h0 = h\<lparr>kh_base := KHEAP_VBASE, kh_max := KHEAP_VBASE, kh_count := 1\<rparr>;
          h1 = set_hdr (kh_head h0) \<lparr>h_magic = KHEAP_MAGIC, h_free = False, h_size = 0, h_id = 0\<rparr> h0;
          h2 = on_links (list_init (kh_head h1)) h1
      in bind_res (kheap_expand_to_addr (kh_base h2 + PAGE_SIZE) h2) (\<lambda>(ok, h3).
        if \<not> ok then Inl (Panic ''kheap_init: cannot map initial heap page'')
        else let vmn = kh_base h3;
                 h4 = on_links (list_init vmn) h3;
                 h5 = set_hdr vmn \<lparr>h_magic = KHEAP_MAGIC, h_free = True, h_size = PAGE_SIZE, h_id = 0\<rparr> h4
             in Inr (kheap_node_append vmn h5)))"

end
