(* ===== verification/Kheap_Inv.thy ===== *)
theory Kheap_Inv
  imports Kheap
begin

text \<open>
  Correctness of the kernel heap.  The invariant says that the blocks on the list
  tile the heap from its base on, in address order, with sane headers, and that all
  of the heap up to \<open>kh_max\<close> is mapped in the kernel address space.  It is shown that
  \<open>kmalloc\<close> and \<open>kfree\<close> preserve it, that the search loop ends, that live blocks never
  overlap, and that neighbouring free blocks are always merged.
\<close>

section \<open>Growing the heap\<close>

lemma walk_same_path:
  "same_path l v v' \<Longrightarrow> (walk l t v P = None) = (walk l t v' P = None)"
proof (induction l arbitrary: t)
  case (Suc l)
  then show ?case by (simp add: walk.simps(2) same_path_Suc Let_def)
qed simp

lemma is_mapped_page:
  "page_number v = page_number v' \<Longrightarrow> vmm_is_mapped k v m = vmm_is_mapped k v' m"
  using walk_same_path [of 4 v v'] by (simp add: is_mapped_walk same_path_4)

definition kernel_space :: "mach \<Rightarrow> bool" where
  "kernel_space m \<longleftrightarrow> addr_space (m_kernel_pml4 m) m"

definition keeps_mapped :: "mach \<Rightarrow> mach \<Rightarrow> bool" where
  "keeps_mapped m m' \<longleftrightarrow> m_kernel_pml4 m' = m_kernel_pml4 m \<and> kernel_space m' \<and>
     (\<forall>v. vmm_is_mapped (m_kernel_pml4 m) v m \<longrightarrow> vmm_is_mapped (m_kernel_pml4 m) v m')"

lemma alloc_page_space:
  assumes "addr_space k m" "alloc_page m = (a, m')"
  shows "addr_space k m'" "m_pages m' = m_pages m" "m_kernel_pml4 m' = m_kernel_pml4 m"
    "a \<noteq> 0 \<Longrightarrow> a \<in> owned m' \<and> a \<notin> reach 4 (m_pages m') k"
  using assms alloc_page_cases [OF _ assms(2)] by (auto simp: addr_space_def split: if_splits)

lemma free_page_space:
  assumes "addr_space k m" "a \<in> owned m" "a \<notin> reach 4 (m_pages m) k"
  shows "\<exists>m'. free_page a m = Inr m' \<and> addr_space k m' \<and> m_pages m' = m_pages m \<and>
    m_kernel_pml4 m' = m_kernel_pml4 m"
proof -
  have inv: "pmm_inv (m_pmm m)" and ow: "pmm_owns (m_pmm m) a"
    using assms by (simp_all add: addr_space_def vm_inv_def owned_def)
  then obtain p where p: "pmm_free a (m_pmm m) = Inr p" "pmm_inv p"
    "\<forall>b. pmm_owns p b \<longleftrightarrow> pmm_owns (m_pmm m) b \<and> b \<noteq> a" using pp.free_owned by blast
  have tot: "pmm_total_pages p = pmm_total_pages (m_pmm m)"
    using p(1) by (auto simp: pmm_free_def Let_def split: if_splits)
  have "addr_space k (m\<lparr>m_pmm := p\<rparr>)"
    using assms p(2,3) tot by (auto simp: addr_space_def vm_inv_def owned_def)
  with p(1) show ?thesis by (simp add: free_page_def)
qed

lemma map_keeps_mapped:
  assumes "map_outcome 4 v e k m r m'" "bit e 0" "k = m_kernel_pml4 m"
  shows "keeps_mapped m m'" and "r = 0 \<Longrightarrow> vmm_is_mapped k v m'"
proof -
  have w: "if r = 0 \<and> same_path 4 v v' then walk 4 k v' (m_pages m') \<noteq> None
      else map_option page_part (walk 4 k v' (m_pages m')) = map_option page_part (walk 4 k v' (m_pages m))" for v'
    using assms(1,2) by (auto simp: map_outcome_def)
  have "vmm_is_mapped k v' m \<Longrightarrow> vmm_is_mapped k v' m'" for v'
    using w [of v'] unfolding is_mapped_walk by (metis map_option_is_None)
  then show "keeps_mapped m m'"
    using assms map_outcome_space [OF assms(1)] by (simp add: keeps_mapped_def kernel_space_def map_outcome_def)
  show "r = 0 \<Longrightarrow> vmm_is_mapped k v m'"
    using w [of v] by (simp add: is_mapped_walk same_path_def)
qed

lemma expand_page_spec:
  assumes "kernel_space m"
  shows "\<exists>ok m'. expand_page mx m = Inr (ok, m') \<and> keeps_mapped m m' \<and>
    (ok \<longrightarrow> vmm_is_mapped (m_kernel_pml4 m) mx m')"
proof (cases "vmm_is_mapped (m_kernel_pml4 m) mx m")
  case True
  with assms show ?thesis
    by (intro exI [of _ True] exI [of _ m]) (simp add: expand_page_def keeps_mapped_def)
next
  case nm: False
  let ?k = "m_kernel_pml4 m"
  obtain a m1 where al: "alloc_page m = (a, m1)" by fastforce
  have sp: "addr_space ?k m" using assms by (simp add: kernel_space_def)
  note a1 = alloc_page_space [OF sp al]
  have km1: "vmm_is_mapped ?k v m1 = vmm_is_mapped ?k v m" for v
    by (simp add: is_mapped_walk a1(2))
  show ?thesis
  proof (cases "a = 0")
    case True
    with nm al a1 km1 show ?thesis
      by (intro exI [of _ False] exI [of _ m1]) (simp add: expand_page_def keeps_mapped_def kernel_space_def)
  next
    case False
    obtain r m2 where mp: "vmm_map ?k mx a 3 m1 = Inr (r, m2)"
      and out: "map_outcome 4 mx ((a AND PTE_ADDR_MASK) OR 3) ?k m1 r m2"
      using vmm_map_raw_outcome [OF a1(1), where v = mx and pa = a and fl = 3 and ow = False] nm km1
      by (auto simp: vmm_map_def split: sum.splits)
    have b0: "bit ((a AND PTE_ADDR_MASK) OR 3) 0" by (simp add: bit_or_iff)
    note km = map_keeps_mapped [OF out b0]
    have keep: "keeps_mapped m m2" using km(1) a1(3) km1 by (simp add: keeps_mapped_def)
    show ?thesis
    proof (cases "r = 0")
      case True
      have "keeps_mapped m (tlb (FlushOne mx) m2)"
        using keep vm_inv_pmm [of "tlb (FlushOne mx) m2" m2]
        by (auto simp: keeps_mapped_def kernel_space_def addr_space_def is_mapped_walk)
      with True mp nm al False km(2) a1(3) show ?thesis
        by (intro exI [of _ True] exI [of _ "tlb (FlushOne mx) m2"]) (simp add: expand_page_def is_mapped_walk)
    next
      case rn: False
      have "a \<in> owned m2" "a \<notin> reach 4 (m_pages m2) ?k"
        using out a1(4) [OF False] by (auto simp: map_outcome_def)
      then obtain m3 where m3: "free_page a m2 = Inr m3" "addr_space ?k m3" "m_pages m3 = m_pages m2"
        "m_kernel_pml4 m3 = m_kernel_pml4 m2"
        using free_page_space map_outcome_space [OF out] by blast
      with keep have "keeps_mapped m m3"
        by (simp add: keeps_mapped_def kernel_space_def is_mapped_walk)
      with rn m3 mp nm al False a1(3) show ?thesis
        by (intro exI [of _ False] exI [of _ m3]) (simp add: expand_page_def)
    qed
  qed
qed

lemma same_page_number:
  assumes "page_aligned mx" "mx \<le> v" "unat v < unat mx + 4096"
  shows "page_number v = page_number mx"
proof -
  have "unat mx mod 4096 = 0" using assms(1) by (simp add: page_aligned_def word_unat_eq_iff unat_mod)
  then obtain q where q: "unat mx = 4096 * q" by auto
  then have "unat v div 4096 = q"
    using assms(2,3) unfolding word_le_nat_alt by (intro div_nat_eqI) simp_all
  then have "drop_bit 12 v = drop_bit 12 mx"
    using q by (simp add: word_unat_eq_iff drop_bit_eq_div unat_div)
  then show ?thesis by (simp add: page_number_def)
qed

lemma page_aligned_add:
  assumes "page_aligned a"
  shows "page_aligned (a + 4096)"
proof -
  have "unat a mod 4096 = 0" using assms by (simp add: page_aligned_def word_unat_eq_iff unat_mod)
  moreover have "unat (a + 4096) mod 4096 = (unat a + 4096) mod 4096"
    by (simp add: unat_word_ariths mod_mod_cancel)
  ultimately show ?thesis by (simp add: page_aligned_def word_unat_eq_iff unat_mod)
qed

lemma keeps_mapped_trans: "keeps_mapped a b \<Longrightarrow> keeps_mapped b c \<Longrightarrow> keeps_mapped a c"
  by (simp add: keeps_mapped_def)

lemma keeps_mapped_refl: "kernel_space m \<Longrightarrow> keeps_mapped m m"
  by (simp add: keeps_mapped_def)

declare expand_loop.simps [simp del]

lemma expand_loop_spec:
  assumes "kernel_space m" "page_aligned mx" "mx \<le> limit"
  shows "\<exists>ok mx' m'. expand_loop target limit mx m = Inr (ok, mx', m') \<and> keeps_mapped m m' \<and>
    page_aligned mx' \<and> mx \<le> mx' \<and> mx' \<le> limit \<and> (ok \<longrightarrow> target \<le> mx') \<and>
    (\<forall>v. mx \<le> v \<and> v < mx' \<longrightarrow> vmm_is_mapped (m_kernel_pml4 m) v m')"
  using assms
proof (induction target limit mx m rule: expand_loop.induct)
  case (1 target limit mx m)
  show ?case
  proof (cases "mx < target \<and> \<not> (mx > limit \<or> PAGE_SIZE > limit - mx)")
    case False
    then have "expand_loop target limit mx m = Inr (\<not> mx < target, mx, m)"
      by (subst expand_loop.simps) auto
    then show ?thesis using "1.prems" keeps_mapped_refl by (auto simp: not_less dest: leD)
  next
    case True
    obtain ok m1 where ep: "expand_page mx m = Inr (ok, m1)" "keeps_mapped m m1"
      "ok \<longrightarrow> vmm_is_mapped (m_kernel_pml4 m) mx m1" using expand_page_spec [OF "1.prems"(1)] by blast
    show ?thesis
    proof (cases ok)
      case False
      then have "expand_loop target limit mx m = Inr (False, mx, m1)"
        using True ep(1) by (subst expand_loop.simps) simp
      then show ?thesis using ep(2) "1.prems" by (auto dest: leD)
    next
      case okT: True
      have "4096 \<le> unat limit - unat mx"
        using True "1.prems"(3) by (simp add: not_less word_le_nat_alt [of PAGE_SIZE] unat_sub)
      then have un: "unat (mx + PAGE_SIZE) = unat mx + 4096" "mx + PAGE_SIZE \<le> limit"
        using unat_u64_less [of limit] by (simp_all add: unat_u64_add word_le_nat_alt)
      have ks1: "kernel_space m1" using ep(2) by (simp add: keeps_mapped_def)
      obtain ok' mx' m' where IH: "expand_loop target limit (mx + PAGE_SIZE) m1 = Inr (ok', mx', m')"
        "keeps_mapped m1 m'" "page_aligned mx'" "mx + PAGE_SIZE \<le> mx'" "mx' \<le> limit" "ok' \<longrightarrow> target \<le> mx'"
        "\<forall>v. mx + PAGE_SIZE \<le> v \<and> v < mx' \<longrightarrow> vmm_is_mapped (m_kernel_pml4 m1) v m'"
        using "1.IH" [OF _ _ okT ks1 page_aligned_add [OF "1.prems"(2)] un(2)] True by auto
      have "vmm_is_mapped (m_kernel_pml4 m) v m'" if v: "mx \<le> v" "v < mx'" for v
      proof (cases "mx + PAGE_SIZE \<le> v")
        case True
        then show ?thesis using IH(7) v ep(2) by (simp add: keeps_mapped_def)
      next
        case False
        then have "page_number v = page_number mx"
          using v un "1.prems"(2) by (intro same_page_number) (simp_all add: word_le_nat_alt)
        then have "vmm_is_mapped (m_kernel_pml4 m) v m1" using ep(3) okT is_mapped_page by blast
        then show ?thesis using IH(2) ep(2) by (simp add: keeps_mapped_def)
      qed
      moreover have "mx \<le> mx'" using IH(4) un(1) by (simp add: word_le_nat_alt)
      moreover have "expand_loop target limit mx m = Inr (ok', mx', m')"
        using True ep(1) okT IH(1) by (subst expand_loop.simps) simp
      ultimately show ?thesis using IH(3,5,6) keeps_mapped_trans [OF ep(2) IH(2)] by simp
    qed
  qed
qed

section \<open>The block list\<close>

text \<open>
  \<open>tiled hdr b ns e\<close>: the blocks \<open>ns\<close> follow each other without gaps from address \<open>b\<close>
  to address \<open>e\<close> (as natural numbers, so nothing wraps around).
\<close>

fun tiled :: "(u64 \<Rightarrow> kheap_node) \<Rightarrow> nat \<Rightarrow> u64 list \<Rightarrow> nat \<Rightarrow> bool" where
  "tiled hdr b [] e \<longleftrightarrow> b = e"
| "tiled hdr b (n # ns) e \<longleftrightarrow> unat n = b \<and> tiled hdr (b + unat (h_size (hdr n))) ns e"

definition node_ok :: "kheap_node \<Rightarrow> bool" where
  "node_ok d \<longleftrightarrow> h_magic d = KHEAP_MAGIC \<and> 64 \<le> unat (h_size d) \<and> 16 dvd unat (h_size d)"

definition heap_list :: "kheap \<Rightarrow> u64 list \<Rightarrow> nat \<Rightarrow> bool" where
  "heap_list h ns e \<longleftrightarrow>
     dlist (kh_links h) (kh_head h) ns \<and> ns \<noteq> [] \<and> (\<forall>n\<in>set ns. node_ok (kh_hdr h n)) \<and>
     tiled (kh_hdr h) (unat (kh_base h)) ns e \<and> 16 dvd unat (kh_base h) \<and>
     e \<le> unat (kh_base h) + 0x40000000 \<and>
     unat (kh_base h) + 0x40000000 < 18446744073709551616 \<and>
     \<not> (unat (kh_base h) \<le> unat (kh_head h) \<and> unat (kh_head h) < unat (kh_base h) + 0x40000000) \<and>
     \<not> h_free (kh_hdr h (kh_head h))"

definition heap_mapped :: "kheap \<Rightarrow> nat \<Rightarrow> bool" where
  "heap_mapped h e \<longleftrightarrow> kernel_space (kh_mach h) \<and> e \<le> unat (kh_max h) \<and> page_aligned (kh_max h) \<and>
     unat (kh_max h) \<le> unat (kh_base h) + 0x40000000 \<and> kh_base h \<le> kh_max h \<and>
     (\<forall>v. kh_base h \<le> v \<and> v < kh_max h \<longrightarrow> vmm_is_mapped (m_kernel_pml4 (kh_mach h)) v (kh_mach h))"

text \<open>No two neighbouring blocks are both free.\<close>

definition coalesced :: "kheap \<Rightarrow> u64 list \<Rightarrow> bool" where
  "coalesced h ns \<longleftrightarrow> successively (\<lambda>a b. \<not> (h_free (kh_hdr h a) \<and> h_free (kh_hdr h b))) ns"

definition heap_inv :: "kheap \<Rightarrow> u64 list \<Rightarrow> bool" where
  "heap_inv h ns \<longleftrightarrow> coalesced h ns \<and> (\<exists>e. heap_list h ns e \<and> heap_mapped h e)"

lemma tiled_append: "tiled hdr b (xs @ ys) e \<longleftrightarrow> (\<exists>m. tiled hdr b xs m \<and> tiled hdr m ys e)"
  by (induction xs arbitrary: b) auto

lemma tiled_le: "tiled hdr b ns e \<Longrightarrow> b \<le> e"
  by (induction ns arbitrary: b) fastforce+

lemma tiled_mem:
  assumes "tiled hdr b ns e" "n \<in> set ns"
  shows "b \<le> unat n \<and> unat n + unat (h_size (hdr n)) \<le> e"
proof -
  obtain as bs where ns: "ns = as @ n # bs" using assms(2) split_list by metis
  then obtain m where m: "tiled hdr b as m" "unat n = m" "tiled hdr (m + unat (h_size (hdr n))) bs e"
    using assms(1) by (auto simp: tiled_append)
  with tiled_le [OF m(1)] tiled_le [OF m(3)] show ?thesis by simp
qed

lemma tiled_cong: "(\<And>n. n \<in> set ns \<Longrightarrow> h_size (hdr' n) = h_size (hdr n)) \<Longrightarrow> tiled hdr' b ns e = tiled hdr b ns e"
  by (induction ns arbitrary: b) auto

lemma tiled_upd [simp]: "n \<notin> set ns \<Longrightarrow> tiled (hdr(n := d)) b ns e = tiled hdr b ns e"
  by (induction ns arbitrary: b) auto

lemma tiled_aligned:
  assumes "tiled hdr b ns e" "16 dvd b" "\<forall>n\<in>set ns. 16 dvd unat (h_size (hdr n))"
  shows "(\<forall>n\<in>set ns. 16 dvd unat n) \<and> 16 dvd e"
  using assms by (induction ns arbitrary: b) auto

text \<open>Different blocks occupy disjoint address ranges.\<close>

lemma tiled_disjoint:
  assumes "tiled hdr b ns e" "distinct ns" "n \<in> set ns" "m \<in> set ns" "n \<noteq> m"
  shows "unat n + unat (h_size (hdr n)) \<le> unat m \<or> unat m + unat (h_size (hdr m)) \<le> unat n"
proof -
  obtain as bs where ns: "ns = as @ n # bs" using assms(3) split_list by metis
  then obtain k where k: "tiled hdr b as k" "unat n = k" "tiled hdr (k + unat (h_size (hdr n))) bs e"
    using assms(1) by (auto simp: tiled_append)
  from assms(4,5) ns have "m \<in> set as \<or> m \<in> set bs" by auto
  then show ?thesis using tiled_mem [OF k(1), of m] tiled_mem [OF k(3), of m] k(2) by auto
qed

lemma find_fit_path:
  "lpath (lnext lk) a xs head \<Longrightarrow> head \<notin> set xs \<Longrightarrow>
   find_fit head hdr lk need (lnext lk a) = Some (List.find (\<lambda>n. h_free (hdr n) \<and> need \<le> h_size (hdr n)) xs)"
proof (induction xs arbitrary: a)
  case Nil
  then show ?case by (subst find_fit.simps) simp
next
  case (Cons x xs)
  then show ?case by (subst find_fit.simps) auto
qed

lemma find_fit_list:
  assumes "dlist lk head ns"
  shows "find_fit head hdr lk need (lnext lk head) =
    Some (List.find (\<lambda>n. h_free (hdr n) \<and> need \<le> h_size (hdr n)) ns)"
  using assms by (intro find_fit_path) (auto simp: dlist_def)

section \<open>Taking a block\<close>

lemma set_hdr_fields [simp]:
  "kh_hdr (set_hdr n d h) = (kh_hdr h)(n := d)" "kh_links (set_hdr n d h) = kh_links h"
  "kh_head (set_hdr n d h) = kh_head h" "kh_base (set_hdr n d h) = kh_base h"
  "kh_max (set_hdr n d h) = kh_max h" "kh_mach (set_hdr n d h) = kh_mach h"
  by (simp_all add: set_hdr_def)

lemma on_links_fields [simp]:
  "kh_links (on_links f h) = f (kh_links h)" "kh_hdr (on_links f h) = kh_hdr h"
  "kh_head (on_links f h) = kh_head h" "kh_base (on_links f h) = kh_base h"
  "kh_max (on_links f h) = kh_max h" "kh_mach (on_links f h) = kh_mach h"
  by (simp_all add: on_links_def)

lemma dlist_insert_after:
  assumes "dlist s h (as @ c # bs)" "a \<notin> set (h # as @ c # bs)"
  shows "dlist (list_add a c (list_init a s)) h (as @ c # a # bs)"
proof -
  have d: "dlist (list_init a s) h (as @ c # bs)"
    unfolding list_init_def by (intro dlist_frame assms)
  have "lnext (list_init a s) c = hd (bs @ [h])" using dlist_adjacent(2) [OF d] .
  moreover have "last (h # as @ [c]) = c" by simp
  ultimately show ?thesis
    using dlist_add_between [of "list_init a s" h "as @ [c]" bs a] d assms(2)
    by (simp add: list_add_def)
qed

lemma heap_list_head:
  assumes "heap_list h ns e" "n \<in> set ns"
  shows "n \<noteq> kh_head h"
  using assms dlist_distinct by (auto simp: heap_list_def)

definition need_ok :: "u64 \<Rightarrow> bool" where
  "need_ok need \<longleftrightarrow> 64 \<le> unat need \<and> 16 dvd unat need"

text \<open>The live blocks are the blocks of the list that are not free.\<close>

definition live :: "kheap \<Rightarrow> u64 list \<Rightarrow> u64 set" where
  "live h ns = {n \<in> set ns. \<not> h_free (kh_hdr h n)}"

text \<open>The four ways the operations change the list: rewrite a header without
  resizing, split a block, append a block, absorb the next block.\<close>

lemma heap_list_set_hdr:
  assumes "heap_list h ns e" "n \<in> set ns" "node_ok d" "h_size d = h_size (kh_hdr h n)"
  shows "heap_list (set_hdr n d h) ns e"
  using assms heap_list_head [OF assms(1,2)] tiled_cong [of ns "(kh_hdr h)(n := d)" "kh_hdr h"]
  by (auto simp: heap_list_def)

lemma tiled_split:
  assumes "tiled hdr b (as @ c # bs) e" "distinct (as @ c # bs)" "a \<notin> set (as @ c # bs)"
    "unat a = unat c + unat (h_size dc)" "unat (h_size (hdr c)) = unat (h_size dc) + unat (h_size da)"
  shows "tiled (hdr(c := dc, a := da)) b (as @ c # a # bs) e"
proof -
  let ?hdr = "hdr(c := dc, a := da)"
  obtain k where k: "tiled hdr b as k" "unat c = k" "tiled hdr (k + unat (h_size (hdr c))) bs e"
    using assms(1) by (auto simp: tiled_append)
  have "tiled ?hdr b as k" "tiled ?hdr (k + unat (h_size (hdr c))) bs e"
    using k assms(2,3) by auto
  then show ?thesis using k(2) assms(3-5) by (auto simp: tiled_append add.assoc)
qed

lemma inside_block_fresh:
  assumes "tiled hdr b (as @ c # bs) e" "unat c < unat a" "unat a < unat c + unat (h_size (hdr c))"
  shows "a \<notin> set (as @ c # bs) \<and> b \<le> unat a \<and> unat a < e"
proof -
  obtain k where k: "tiled hdr b as k" "unat c = k" "tiled hdr (k + unat (h_size (hdr c))) bs e"
    using assms(1) by (auto simp: tiled_append)
  then show ?thesis
    using assms(2,3) tiled_mem [OF k(1), of a] tiled_mem [OF k(3), of a] tiled_le [OF k(1)] tiled_le [OF k(3)]
    by auto
qed

lemma heap_list_split:
  assumes h: "heap_list h (as @ c # bs) e" and dc: "node_ok dc" and da: "node_ok da"
    and sz: "unat (h_size (kh_hdr h c)) = unat (h_size dc) + unat (h_size da)"
    and a: "a = c + h_size dc"
  shows "unat a = unat c + unat (h_size dc) \<and> a \<notin> set (as @ c # bs) \<and>
    heap_list (set_hdr a da (on_links (\<lambda>s. list_add a c (list_init a s)) (set_hdr c dc h))) (as @ c # a # bs) e"
proof -
  have t: "tiled (kh_hdr h) (unat (kh_base h)) (as @ c # bs) e" and d: "dlist (kh_links h) (kh_head h) (as @ c # bs)"
    and b: "e \<le> unat (kh_base h) + 0x40000000" "unat (kh_base h) + 0x40000000 < 18446744073709551616"
    using h by (auto simp: heap_list_def)
  have "unat c + unat (h_size dc) < 18446744073709551616"
    using tiled_mem [OF t, of c] sz b by simp
  then have ua: "unat a = unat c + unat (h_size dc)" by (simp add: a unat_u64_add)
  have pos: "64 \<le> unat (h_size dc)" "64 \<le> unat (h_size da)" using dc da by (auto simp: node_ok_def)
  then have fr: "a \<notin> set (as @ c # bs) \<and> unat (kh_base h) \<le> unat a \<and> unat a < e"
    using ua sz by (intro inside_block_fresh [OF t]) simp_all
  then have ah: "a \<noteq> kh_head h" using h b(1) by (auto simp: heap_list_def)
  have ch: "c \<noteq> kh_head h" using heap_list_head [OF h, of c] by simp
  have "tiled ((kh_hdr h)(c := dc, a := da)) (unat (kh_base h)) (as @ c # a # bs) e"
    using fr dlist_distinct [OF d] by (intro tiled_split [OF t _ _ ua sz]) auto
  moreover have "dlist (list_add a c (list_init a (kh_links h))) (kh_head h) (as @ c # a # bs)"
    using fr ah by (intro dlist_insert_after [OF d]) auto
  ultimately show ?thesis using h fr ah ch ua dc da by (auto simp: heap_list_def)
qed

lemma heap_list_append:
  assumes h: "heap_list h (as @ [l]) e" and d: "node_ok d"
    and fits: "e + unat (h_size d) \<le> unat (kh_base h) + 0x40000000"
    and a: "a = l + h_size (kh_hdr h l)"
  shows "unat a = e \<and> a \<notin> set (as @ [l]) \<and>
    heap_list (on_links (list_add a l) (set_hdr a d (on_links (list_init a) h))) (as @ [l, a]) (e + unat (h_size d))"
proof -
  have t: "tiled (kh_hdr h) (unat (kh_base h)) (as @ [l]) e" and dl: "dlist (kh_links h) (kh_head h) (as @ [l])"
    and b: "unat (kh_base h) + 0x40000000 < 18446744073709551616"
    using h by (auto simp: heap_list_def)
  have le: "unat l + unat (h_size (kh_hdr h l)) = e" using t by (auto simp: tiled_append)
  then have ua: "unat a = e" using fits b by (simp add: a unat_u64_add)
  have fr: "a \<notin> set (as @ [l])"
  proof
    assume m: "a \<in> set (as @ [l])"
    then have "node_ok (kh_hdr h a)" using h by (auto simp: heap_list_def)
    with tiled_mem [OF t m] ua show False by (simp add: node_ok_def)
  qed
  have ah: "a \<noteq> kh_head h"
    using h fits ua d tiled_le [OF t] by (auto simp: heap_list_def node_ok_def)
  have "tiled ((kh_hdr h)(a := d)) (unat (kh_base h)) (as @ [l]) e"
    using t fr by simp
  then have "tiled ((kh_hdr h)(a := d)) (unat (kh_base h)) ((as @ [l]) @ [a]) (e + unat (h_size d))"
    unfolding tiled_append [of _ _ "as @ [l]"] using ua by auto
  moreover have "dlist (list_add a l (list_init a (kh_links h))) (kh_head h) (as @ [l, a])"
    using fr ah dlist_insert_after [OF dl, of a] by auto
  ultimately show ?thesis using h fr ah ua d fits by (auto simp: heap_list_def)
qed

lemma heap_list_merge:
  assumes h: "heap_list h (as @ p # c # bs) e"
    and d: "h_magic d = KHEAP_MAGIC" "h_size d = h_size (kh_hdr h p) + h_size (kh_hdr h c)"
  shows "p + h_size (kh_hdr h p) = c \<and>
    heap_list (on_links (list_del_init c) (set_hdr p d h)) (as @ p # bs) e"
proof -
  let ?sp = "unat (h_size (kh_hdr h p))" and ?sc = "unat (h_size (kh_hdr h c))"
  have t: "tiled (kh_hdr h) (unat (kh_base h)) (as @ p # c # bs) e"
    and dl: "dlist (kh_links h) (kh_head h) ((as @ [p]) @ c # bs)"
    and ok: "node_ok (kh_hdr h p)" "node_ok (kh_hdr h c)"
    and b: "e \<le> unat (kh_base h) + 0x40000000" "unat (kh_base h) + 0x40000000 < 18446744073709551616"
    using h by (auto simp: heap_list_def)
  obtain k where k: "tiled (kh_hdr h) (unat (kh_base h)) as k" "unat p = k" "unat c = k + ?sp"
      "tiled (kh_hdr h) (k + ?sp + ?sc) bs e"
    using t by (auto simp: tiled_append add.assoc)
  have "unat (p + h_size (kh_hdr h p)) = unat c"
    using k tiled_le [OF k(4)] b by (subst unat_u64_add) auto
  then have adj: "p + h_size (kh_hdr h p) = c" by (simp add: unsigned_word_eqI)
  have sd: "unat (h_size d) = ?sp + ?sc"
    using tiled_le [OF k(4)] b by (simp add: d(2) unat_u64_add)
  have "node_ok d" using ok d(1) sd by (simp add: node_ok_def)
  moreover have dist: "distinct (as @ p # c # bs)" using dlist_distinct [OF dl] by auto
  have "tiled ((kh_hdr h)(p := d)) (unat (kh_base h)) (as @ p # bs) e"
    using k sd dist by (auto simp: tiled_append add.assoc)
  moreover have "dlist (list_del_init c (kh_links h)) (kh_head h) (as @ p # bs)"
    using dlist_del_split(2) [OF dl] by simp
  moreover have "p \<noteq> kh_head h" using heap_list_head [OF h, of p] by simp
  ultimately show ?thesis using h adj by (auto simp: heap_list_def)
qed

section \<open>kmalloc\<close>

definition kmalloc_outcome :: "kheap \<Rightarrow> u64 list \<Rightarrow> u64 \<Rightarrow> u64 \<Rightarrow> kheap \<Rightarrow> u64 list \<Rightarrow> bool" where
  "kmalloc_outcome h ns need p h' ns' \<longleftrightarrow>
     heap_inv h' ns' \<and> (\<forall>m\<in>live h ns. kh_hdr h' m = kh_hdr h m) \<and>
     (if p = 0 then live h' ns' = live h ns
      else p - NODE_SIZE \<notin> live h ns \<and> live h' ns' = insert (p - NODE_SIZE) (live h ns) \<and>
        need \<le> h_size (kh_hdr h' (p - NODE_SIZE)))"

lemma payload_not_null:
  assumes "heap_list h ns e" "n \<in> set ns"
  shows "unat (n + NODE_SIZE) = unat n + 48 \<and> n + NODE_SIZE \<noteq> 0"
proof -
  have t: "tiled (kh_hdr h) (unat (kh_base h)) ns e" and ok: "node_ok (kh_hdr h n)"
    and b: "e \<le> unat (kh_base h) + 0x40000000" "unat (kh_base h) + 0x40000000 < 18446744073709551616"
    using assms by (auto simp: heap_list_def)
  have u: "unat (n + NODE_SIZE) = unat n + 48"
    using tiled_mem [OF t assms(2)] ok b by (simp add: node_ok_def unat_u64_add)
  then have "unat (n + NODE_SIZE) \<noteq> 0" by simp
  with u show ?thesis by (metis unsigned_0)
qed

lemma coalesced_append:
  "coalesced h (as @ c # bs) \<longleftrightarrow> coalesced h (as @ [c]) \<and> coalesced h (c # bs)"
  by (auto simp: coalesced_def successively_append_iff)

lemma coalesced_cong:
  "(\<And>n. n \<in> set ns \<Longrightarrow> h_free (kh_hdr h' n) = h_free (kh_hdr h n)) \<Longrightarrow> coalesced h' ns = coalesced h ns"
  unfolding coalesced_def by (intro successively_cong) auto

lemma coalesced_insert:
  "coalesced h (as @ c # bs) \<Longrightarrow> \<not> h_free (kh_hdr h a) \<Longrightarrow> coalesced h (as @ c # a # bs)"
  by (cases bs) (auto simp: coalesced_def successively_append_iff)

text \<open>Making a block live never creates free neighbours.\<close>

lemma coalesced_live:
  assumes "coalesced h ns" "\<And>n. n \<in> set ns \<Longrightarrow> h_free (kh_hdr h' n) \<Longrightarrow> h_free (kh_hdr h n)"
  shows "coalesced h' ns"
  using assms unfolding coalesced_def by (auto elim!: successively_mono)

lemma heap_mapped_fields:
  assumes "heap_mapped h e" "kh_mach h' = kh_mach h" "kh_max h' = kh_max h" "kh_base h' = kh_base h"
  shows "heap_mapped h' e"
  using assms by (simp add: heap_mapped_def)

lemma take_block_whole:
  assumes h: "heap_list h ns e" "heap_mapped h e" "coalesced h ns" and cur: "cur \<in> set ns" "h_free (kh_hdr h cur)"
    and need: "need \<le> h_size (kh_hdr h cur)" "\<not> NODE_SIZE + KHEAP_ALIGNMENT \<le> h_size (kh_hdr h cur) - need"
  shows "\<exists>p h'. take_block tid need cur h = (p, h') \<and> p \<noteq> 0 \<and> kmalloc_outcome h ns need p h' ns"
proof -
  let ?d = "(kh_hdr h cur)\<lparr>h_magic := KHEAP_MAGIC, h_size := h_size (kh_hdr h cur), h_free := False, h_id := tid\<rparr>"
  have tb: "take_block tid need cur h = (cur + NODE_SIZE, set_hdr cur ?d h)"
    using need(2) by (simp add: take_block_def Let_def)
  have "node_ok ?d" using h(1) cur(1) by (auto simp: heap_list_def node_ok_def)
  then have "heap_list (set_hdr cur ?d h) ns e" by (intro heap_list_set_hdr h(1) cur(1)) simp_all
  moreover have "coalesced (set_hdr cur ?d h) ns" by (rule coalesced_live [OF h(3)]) (auto split: if_splits)
  moreover have "heap_mapped (set_hdr cur ?d h) e" by (rule heap_mapped_fields [OF h(2)]) simp_all
  ultimately have "heap_inv (set_hdr cur ?d h) ns" by (auto simp: heap_inv_def)
  then have "kmalloc_outcome h ns need (cur + NODE_SIZE) (set_hdr cur ?d h) ns"
    using payload_not_null [OF h(1) cur(1)] cur need(1)
    by (auto simp: kmalloc_outcome_def live_def)
  with tb payload_not_null [OF h(1) cur(1)] show ?thesis by blast
qed

lemma take_block_split:
  assumes h: "heap_list h ns e" "heap_mapped h e" "coalesced h ns" and cur: "cur \<in> set ns" "h_free (kh_hdr h cur)"
    and need: "need \<le> h_size (kh_hdr h cur)" "NODE_SIZE + KHEAP_ALIGNMENT \<le> h_size (kh_hdr h cur) - need"
    and nok: "need_ok need"
  shows "\<exists>p h' ns'. take_block tid need cur h = (p, h') \<and> p \<noteq> 0 \<and> kmalloc_outcome h ns need p h' ns'"
proof -
  obtain as bs where ns: "ns = as @ cur # bs" using cur(1) split_list by metis
  let ?fs = "h_size (kh_hdr h cur) - need"
  let ?a = "cur + ?fs"
  let ?dc = "(kh_hdr h cur)\<lparr>h_size := ?fs\<rparr>"
  let ?da = "(kh_hdr h ?a)\<lparr>h_magic := KHEAP_MAGIC, h_size := need, h_free := False, h_id := tid\<rparr>"
  let ?h = "set_hdr ?a ?da (on_links (\<lambda>s. list_add ?a cur (list_init ?a s)) (set_hdr cur ?dc h))"
  have fs: "unat ?fs = unat (h_size (kh_hdr h cur)) - unat need" using need(1) by (simp add: unat_sub)
  have ok: "node_ok (kh_hdr h cur)" using h(1) cur(1) by (auto simp: heap_list_def)
  have le: "unat need \<le> unat (h_size (kh_hdr h cur))" using need(1) by (simp add: word_le_nat_alt)
  have "64 \<le> unat ?fs" using need(2) by (simp add: word_le_nat_alt)
  then have dc: "node_ok ?dc" using ok nok fs le by (simp add: node_ok_def need_ok_def)
  have da: "node_ok ?da" using nok by (simp add: node_ok_def need_ok_def)
  have hl: "unat ?a = unat cur + unat (h_size ?dc) \<and> ?a \<notin> set (as @ cur # bs) \<and> heap_list ?h (as @ cur # ?a # bs) e"
    using h(1) ns fs le by (intro heap_list_split dc da) simp_all
  then have ca: "cur \<noteq> ?a" by auto
  then have tb: "take_block tid need cur h = (?a + NODE_SIZE, ?h)"
    using need(2) by (simp add: take_block_def Let_def set_hdr_def on_links_def)
  have "coalesced ?h (as @ cur # bs)"
    by (rule coalesced_live [OF h(3) [unfolded ns]]) (auto split: if_splits)
  then have "coalesced ?h (as @ cur # ?a # bs)"
    by (rule coalesced_insert) simp
  moreover have "heap_mapped ?h e" by (rule heap_mapped_fields [OF h(2)]) simp_all
  ultimately have "heap_inv ?h (as @ cur # ?a # bs)" using hl by (auto simp: heap_inv_def)
  moreover have "live ?h (as @ cur # ?a # bs) = insert ?a (live h ns)" "?a \<notin> live h ns"
    using hl ns cur(2) by (auto simp: live_def)
  moreover have "\<forall>m\<in>live h ns. kh_hdr ?h m = kh_hdr h m"
    using hl ns cur(2) by (auto simp: live_def)
  moreover have "?a + NODE_SIZE \<noteq> 0" using payload_not_null [of ?h "as @ cur # ?a # bs" e ?a] hl by simp
  ultimately have "kmalloc_outcome h ns need (?a + NODE_SIZE) ?h (as @ cur # ?a # bs)"
    by (simp add: kmalloc_outcome_def)
  with tb \<open>?a + NODE_SIZE \<noteq> 0\<close> show ?thesis by blast
qed

lemma align_page_aligned: "page_aligned ((x + 4096 - 1) AND NOT (4096 - 1))" if "unat x + 4095 < 18446744073709551616"
proof -
  have "unat ((x + 4096 - 1) AND NOT (4096 - 1)) mod 4096 = 0"
    unfolding align_up_page [OF that] by simp
  then show ?thesis unfolding page_aligned_def by (simp add: word_unat_eq_iff unat_mod)
qed

lemma heap_limit:
  assumes "unat b + 0x40000000 < 18446744073709551616"
  shows "kheap_get_limit b = Some (b + HEAP_MAX_SIZE)" "unat (b + HEAP_MAX_SIZE) = unat b + 0x40000000"
proof -
  have "unat (- 1 - HEAP_MAX_SIZE :: u64) = 18446744072635809791" by simp
  then have "\<not> b > - 1 - HEAP_MAX_SIZE" using assms by (simp add: word_less_nat_alt)
  then show "kheap_get_limit b = Some (b + HEAP_MAX_SIZE)" by (simp add: kheap_get_limit_def)
  show "unat (b + HEAP_MAX_SIZE) = unat b + 0x40000000" using assms by (simp add: unat_u64_add)
qed

lemma heap_mapped_grow:
  assumes m: "heap_mapped h e" and k: "keeps_mapped (kh_mach h) m'" and mx: "page_aligned mx" "kh_max h \<le> mx"
    "unat mx \<le> unat (kh_base h) + 0x40000000"
    and new: "\<forall>v. kh_max h \<le> v \<and> v < mx \<longrightarrow> vmm_is_mapped (m_kernel_pml4 (kh_mach h)) v m'"
  shows "heap_mapped (h\<lparr>kh_max := mx, kh_mach := m'\<rparr>) e"
proof -
  have "vmm_is_mapped (m_kernel_pml4 (kh_mach h)) v m'" if "kh_base h \<le> v" "v < mx" for v
    using that m k new by (cases "v < kh_max h") (auto simp: heap_mapped_def keeps_mapped_def)
  then show ?thesis using m k mx by (auto simp: heap_mapped_def keeps_mapped_def word_le_nat_alt)
qed

lemma expand_to_addr_spec:
  assumes m: "heap_mapped h e" and b: "unat (kh_base h) + 0x40000000 < 18446744073709551616"
  shows "\<exists>ok mx m. kheap_expand_to_addr t h = Inr (ok, h\<lparr>kh_max := mx, kh_mach := m\<rparr>) \<and>
    heap_mapped (h\<lparr>kh_max := mx, kh_mach := m\<rparr>) e \<and> (ok \<longrightarrow> unat t \<le> unat mx)"
proof -
  let ?limit = "kh_base h + HEAP_MAX_SIZE" and ?al = "(t + PAGE_SIZE - 1) AND NOT (PAGE_SIZE - 1)"
  note lim = heap_limit [OF b]
  let ?bad = "t < kh_base h \<or> t > - 1 - (PAGE_SIZE - 1)"
  show ?thesis
  proof (cases "?bad \<or> ?al > ?limit")
    case True
    then have fail: "kheap_expand_to_addr t h = Inr (False, h)"
      unfolding kheap_expand_to_addr_def lim(1) Let_def option.case by (metis (full_types))
    have "h\<lparr>kh_max := kh_max h, kh_mach := kh_mach h\<rparr> = h" by simp
    then show ?thesis using m fail by (metis (full_types))
  next
    case False
    then have run: "kheap_expand_to_addr t h =
        bind_res (expand_loop ?al ?limit (kh_max h) (kh_mach h)) (\<lambda>(ok, mx, m).
                   Inr (ok, h\<lparr>kh_max := mx, kh_mach := m\<rparr>))" "\<not> t > - 1 - (PAGE_SIZE - 1)"
      by (simp_all only: kheap_expand_to_addr_def lim(1) Let_def option.case de_Morgan_disj if_False simp_thms)
    have "unat (- 1 - (PAGE_SIZE - 1) :: u64) = 18446744073709547520" by simp
    then have t: "unat t + 4095 < 18446744073709551616" using run(2) by (simp add: word_less_nat_alt)
    have le: "kh_max h \<le> ?limit" using m lim(2) by (simp add: heap_mapped_def word_le_nat_alt)
    have "kernel_space (kh_mach h)" "page_aligned (kh_max h)" using m by (auto simp: heap_mapped_def)
    from expand_loop_spec [OF this le, of ?al] obtain ok mx' m' where
      l: "expand_loop ?al ?limit (kh_max h) (kh_mach h) = Inr (ok, mx', m')"
        "keeps_mapped (kh_mach h) m'" "page_aligned mx'" "kh_max h \<le> mx'" "mx' \<le> ?limit" "ok \<longrightarrow> ?al \<le> mx'"
        "\<forall>v. kh_max h \<le> v \<and> v < mx' \<longrightarrow> vmm_is_mapped (m_kernel_pml4 (kh_mach h)) v m'" by blast
    have "unat t \<le> unat ?al" unfolding align_up_page [OF t] using align_up_le [of 4096 "unat t"] by simp
    moreover have "heap_mapped (h\<lparr>kh_max := mx', kh_mach := m'\<rparr>) e"
      using l(5) lim(2) by (intro heap_mapped_grow [OF m] l) (simp add: word_le_nat_alt)
    moreover have "ok \<longrightarrow> unat t \<le> unat mx'" using l(6) calculation(1) by (auto simp: word_le_nat_alt)
    moreover have "kheap_expand_to_addr t h = Inr (ok, h\<lparr>kh_max := mx', kh_mach := m'\<rparr>)" using run(1) l(1) by simp
    ultimately show ?thesis by blast
  qed
qed

lemma new_block_grown:
  assumes h: "heap_list h (as @ [l]) e" "coalesced h (as @ [l])" and m: "heap_mapped h e'"
    and e: "e' = e + unat need" "e' \<le> unat (kh_base h) + 0x40000000"
    and nok: "need_ok need" and a: "a = l + h_size (kh_hdr h l)"
    and d: "d = (kh_hdr h a)\<lparr>h_magic := KHEAP_MAGIC, h_size := need, h_free := False, h_id := tid\<rparr>"
  shows "a + NODE_SIZE \<noteq> 0 \<and> kmalloc_outcome h (as @ [l]) need (a + NODE_SIZE)
    (on_links (list_add a l) (set_hdr a d (on_links (list_init a) h))) (as @ [l, a])"
proof -
  let ?h = "on_links (list_add a l) (set_hdr a d (on_links (list_init a) h))"
  have dok: "node_ok d" "h_size d = need" using nok by (auto simp: d node_ok_def need_ok_def)
  have hl: "unat a = e \<and> a \<notin> set (as @ [l]) \<and> heap_list ?h (as @ [l, a]) (e + unat (h_size d))"
    using e dok(2) by (intro heap_list_append [OF h(1) dok(1) _ a]) simp
  have "coalesced ?h (as @ [l])"
    by (rule coalesced_live [OF h(2)]) (auto simp: d split: if_splits)
  then have "coalesced ?h (as @ [l, a])" by (rule coalesced_insert) (simp add: d)
  moreover have "heap_mapped ?h e'" by (rule heap_mapped_fields [OF m]) simp_all
  ultimately have "heap_inv ?h (as @ [l, a])" using hl e dok by (auto simp: heap_inv_def)
  moreover have "live ?h (as @ [l, a]) = insert a (live h (as @ [l]))" "a \<notin> live h (as @ [l])"
    "\<forall>m\<in>live h (as @ [l]). kh_hdr ?h m = kh_hdr h m"
    using hl by (auto simp: live_def d)
  moreover have "a + NODE_SIZE \<noteq> 0" using payload_not_null [of ?h "as @ [l, a]" _ a] hl by auto
  ultimately show ?thesis by (simp add: kmalloc_outcome_def d)
qed

lemma kmalloc_outcome_null:
  "heap_list h ns e \<Longrightarrow> heap_mapped h' e \<Longrightarrow> coalesced h ns \<Longrightarrow> h' = h\<lparr>kh_max := mx, kh_mach := m\<rparr> \<Longrightarrow>
   kmalloc_outcome h ns need 0 h' ns"
  by (auto simp: kmalloc_outcome_def heap_inv_def heap_list_def coalesced_def live_def)

lemma kmalloc_outcome_frame:
  "kmalloc_outcome (h\<lparr>kh_max := mx, kh_mach := m\<rparr>) ns need p h' ns' = kmalloc_outcome h ns need p h' ns'"
  by (simp add: kmalloc_outcome_def live_def)

lemma new_block_spec:
  assumes h: "heap_list h ns e" "heap_mapped h e" "coalesced h ns" and nok: "need_ok need"
  shows "\<exists>p h' ns'. new_block tid need h = Inr (p, h') \<and> kmalloc_outcome h ns need p h' ns'"
proof -
  obtain as l where ns: "ns = as @ [l]" using h(1) rev_exhaust by (auto simp: heap_list_def)
  have t: "tiled (kh_hdr h) (unat (kh_base h)) ns e" and dl: "dlist (kh_links h) (kh_head h) ns"
    and b: "unat (kh_base h) + 0x40000000 < 18446744073709551616"
    using h by (auto simp: heap_list_def)
  let ?a = "l + h_size (kh_hdr h l)" and ?limit = "kh_base h + HEAP_MAX_SIZE"
  note lim = heap_limit [OF b]
  have last: "list_last_entry (kh_head h) (kh_links h) = l" using dlist_last dl ns by simp
  have null: "kmalloc_outcome h ns need 0 h ns" 
    by (rule kmalloc_outcome_null [OF h, where mx = "kh_max h" and m = "kh_mach h"]) simp
  have ua: "unat ?a = e" using h(1) t ns lim(2) unat_u64_less [of ?limit]
    by (auto simp: heap_list_def tiled_append unat_u64_add)
  obtain ok mx m where x: "kheap_expand_to_addr (?a + need) h = Inr (ok, h\<lparr>kh_max := mx, kh_mach := m\<rparr>)"
    "heap_mapped (h\<lparr>kh_max := mx, kh_mach := m\<rparr>) e" "ok \<longrightarrow> unat (?a + need) \<le> unat mx"
    using expand_to_addr_spec [OF h(2) b, of "?a + need"] by blast
  let ?h1 = "h\<lparr>kh_max := mx, kh_mach := m\<rparr>"
  define d where "d = (kh_hdr h ?a)\<lparr>h_magic := KHEAP_MAGIC, h_size := need, h_free := False, h_id := tid\<rparr>"
  let ?h2 = "on_links (list_add ?a l) (set_hdr ?a d (on_links (list_init ?a) ?h1))"
  have nb: "new_block tid need h =
      (if l < kh_base h \<or> l > ?limit \<or> h_size (kh_hdr h l) > ?limit - l then Inr (0, h)
       else if ?a > - 1 - need \<or> ?a + need > ?limit then Inr (0, h)
       else if ok then Inr (?a + NODE_SIZE, ?h2) else Inr (0, ?h1))"
    by (simp add: new_block_def lim(1) last x(1) Let_def d_def)
  have good: "?a + NODE_SIZE \<noteq> 0 \<and> kmalloc_outcome h ns need (?a + NODE_SIZE) ?h2 (as @ [l, ?a])"
    if "\<not> (?a > - 1 - need \<or> ?a + need > ?limit)" ok
  proof -
    have "unat (- 1 - need) = 18446744073709551615 - unat need"
      by (simp add: unat_sub unsigned_minus_1_eq_mask mask_eq_exp_minus_1)
    then have "\<not> 18446744073709551615 - unat need < e" using that(1) ua by (simp add: word_less_nat_alt)
    then have "e + unat need < 18446744073709551616" using unat_u64_less [of need] by arith
    then have "unat (?a + need) = e + unat need" using ua unat_u64_add [of ?a need] by simp
    then have "e + unat need \<le> unat (kh_base h) + 0x40000000" "e + unat need \<le> unat mx"
      using that x(3) lim(2) by (auto simp: word_less_nat_alt)
    moreover have "heap_mapped ?h1 (e + unat need)" using x(2) calculation by (simp add: heap_mapped_def)
    moreover have "heap_list ?h1 (as @ [l]) e" "coalesced ?h1 (as @ [l])"
      using h ns by (auto simp: heap_list_def coalesced_def)
    ultimately show ?thesis
      using new_block_grown [of ?h1 as l e "e + unat need" need ?a d tid] nok ns
      by (simp add: d_def kmalloc_outcome_frame)
  qed
  have "kmalloc_outcome h ns need 0 ?h1 ns" by (rule kmalloc_outcome_null [OF h(1) x(2) h(3)]) simp
  then show ?thesis unfolding nb using good null by (auto split: if_splits)
qed

text \<open>The size computed by \<open>kmalloc\<close>: header and payload, rounded up to 16 bytes.\<close>

definition block_size :: "u64 \<Rightarrow> u64" where
  "block_size sz = (sz + NODE_SIZE + (KHEAP_ALIGNMENT - 1)) AND NOT (KHEAP_ALIGNMENT - 1)"

lemma block_size_ok:
  assumes "sz \<noteq> 0" "unat sz + 63 < 18446744073709551616"
  shows "need_ok (block_size sz)" "unat sz + 48 \<le> unat (block_size sz)" "unat (block_size sz) \<le> unat sz + 63"
proof -
  have s: "unat (sz + NODE_SIZE) = unat sz + 48" using assms(2) by (simp add: unat_u64_add)
  then have n: "unat (block_size sz) = (unat sz + 48 + 15) div 16 * 16"
    using assms(2) align_up_16 [of "sz + NODE_SIZE"] by (simp only: block_size_def)
  show up: "unat sz + 48 \<le> unat (block_size sz)" using align_up_le [of 16 "unat sz + 48"] n by simp
  show "unat (block_size sz) \<le> unat sz + 63" using n div_times_less_eq_dividend [of "unat sz + 63" 16] by simp
  have "0 < unat sz" using assms(1) by (simp add: unat_gt_0)
  with up n show "need_ok (block_size sz)" unfolding need_ok_def by (simp only:) presburger
qed

lemma kmalloc_spec:
  assumes "heap_inv h ns"
  shows "\<exists>p h' ns'. kmalloc tid sz h = Inr (p, h') \<and> kmalloc_outcome h ns (block_size sz) p h' ns' \<and>
    (p \<noteq> 0 \<longrightarrow> sz \<noteq> 0 \<and> unat sz + 63 < 18446744073709551616) \<and>
    (sz \<noteq> 0 \<and> (\<exists>n\<in>set ns. h_free (kh_hdr h n) \<and> unat sz + 63 \<le> unat (h_size (kh_hdr h n))) \<longrightarrow> p \<noteq> 0)"
proof -
  obtain e where h: "heap_list h ns e" "heap_mapped h e" "coalesced h ns"
    using assms by (auto simp: heap_inv_def)
  let ?need = "block_size sz" and ?P = "\<lambda>n. h_free (kh_hdr h n) \<and> block_size sz \<le> h_size (kh_hdr h n)"
  have null: "kmalloc_outcome h ns ?need 0 h ns"
    by (rule kmalloc_outcome_null [OF h, where mx = "kh_max h" and m = "kh_mach h"]) simp
  have big: "sz > - 1 - NODE_SIZE - (KHEAP_ALIGNMENT - 1) \<longleftrightarrow> \<not> unat sz + 63 < 18446744073709551616"
    by (simp add: word_less_nat_alt) arith
  show ?thesis
  proof (cases "sz \<noteq> 0 \<and> unat sz + 63 < 18446744073709551616")
    case False
    then have "kmalloc tid sz h = Inr (0, h)" using big by (auto simp: kmalloc_def)
    moreover have "\<not> unat sz + 63 \<le> unat (h_size (kh_hdr h n))" if "sz \<noteq> 0" for n
      using False that unat_u64_less [of "h_size (kh_hdr h n)"] by simp
    ultimately show ?thesis using null by auto
  next
    case True
    then have km: "kmalloc tid sz h =
        (case find_fit (kh_head h) (kh_hdr h) (kh_links h) ?need (lnext (kh_links h) (kh_head h)) of
          None \<Rightarrow> Inl Diverge
        | Some (Some cur) \<Rightarrow> Inr (take_block tid ?need cur h)
        | Some None \<Rightarrow> new_block tid ?need h)"
      using big by (simp only: kmalloc_def block_size_def Let_def if_False simp_thms)
    note bs = block_size_ok [OF conjunct1 [OF True] conjunct2 [OF True]]
    have ff: "find_fit (kh_head h) (kh_hdr h) (kh_links h) ?need (lnext (kh_links h) (kh_head h)) = Some (List.find ?P ns)"
      using h(1) by (intro find_fit_list) (simp add: heap_list_def)
    show ?thesis
    proof (cases "List.find ?P ns")
      case None
      then have "\<not> (\<exists>n\<in>set ns. ?P n)" by (auto simp: find_None_iff)
      then have "\<not> (\<exists>n\<in>set ns. h_free (kh_hdr h n) \<and> unat sz + 63 \<le> unat (h_size (kh_hdr h n)))"
        using bs(3) by (fastforce simp: word_le_nat_alt)
      then show ?thesis using new_block_spec [OF h bs(1), of tid] True km ff None by auto
    next
      case (Some cur)
      then have c: "cur \<in> set ns" "h_free (kh_hdr h cur)" "?need \<le> h_size (kh_hdr h cur)"
        by (auto simp: find_Some_iff)
      have "\<exists>p h' ns'. take_block tid ?need cur h = (p, h') \<and> p \<noteq> 0 \<and> kmalloc_outcome h ns ?need p h' ns'"
        using take_block_whole [OF h c] take_block_split [OF h c _ bs(1)] by blast
      then show ?thesis using True km ff Some by auto
    qed
  qed
qed

section \<open>kfree\<close>

lemma coalesced_middle:
  "coalesced h as \<Longrightarrow> coalesced h bs \<Longrightarrow> (as \<noteq> [] \<Longrightarrow> \<not> h_free (kh_hdr h (last as))) \<Longrightarrow>
   (bs \<noteq> [] \<Longrightarrow> \<not> h_free (kh_hdr h (hd bs))) \<Longrightarrow> coalesced h (as @ c # bs)"
  by (cases bs) (auto simp: coalesced_def successively_append_iff)

lemma coalesced_parts:
  assumes "coalesced h (as @ bs)"
  shows "coalesced h as" "coalesced h bs"
  using assms by (auto simp: coalesced_def successively_append_iff)

text \<open>What remains left of the freed block: \<open>as1\<close> ends in a live block.\<close>

lemma merge_prev:
  assumes h: "heap_list h (as @ n # bs) e" "coalesced h (as @ n # bs)"
    and p: "p = last (kh_head h # as)"
    and m: "kfree_merge_prev p n h = (c, h1)"
  shows "\<exists>as1. heap_list h1 (as1 @ c # bs) e \<and> coalesced h as1 \<and> (as1 \<noteq> [] \<longrightarrow> \<not> h_free (kh_hdr h (last as1))) \<and>
    (c = n \<and> as = as1 \<and> h1 = h \<or> as = as1 @ [c] \<and> h_free (kh_hdr h c) \<and> (\<forall>m. m \<noteq> c \<longrightarrow> kh_hdr h1 m = kh_hdr h m) \<and>
       kh_head h1 = kh_head h \<and> kh_mach h1 = kh_mach h \<and> kh_max h1 = kh_max h \<and> kh_base h1 = kh_base h)"
proof (cases "h_free (kh_hdr h p)")
  case False
  have "as \<noteq> [] \<longrightarrow> \<not> h_free (kh_hdr h (last as))" using False p by (auto split: if_splits)
  then show ?thesis using False m h coalesced_parts(1) [OF h(2)] by (auto simp: kfree_merge_prev_def Let_def)
next
  case True
  then have "p \<noteq> kh_head h" using h(1) by (auto simp: heap_list_def)
  then obtain as' where as: "as = as' @ [p]" using p by (cases as rule: rev_cases) auto
  let ?d = "(kh_hdr h p)\<lparr>h_size := h_size (kh_hdr h p) + h_size (kh_hdr h n)\<rparr>"
  have "node_ok (kh_hdr h p)" using h(1) as by (auto simp: heap_list_def)
  then have "p + h_size (kh_hdr h p) = n \<and> heap_list (on_links (list_del_init n) (set_hdr p ?d h)) (as' @ p # bs) e"
    using h(1) as by (intro heap_list_merge) (auto simp: node_ok_def)
  moreover have "coalesced h as'" "as' \<noteq> [] \<longrightarrow> \<not> h_free (kh_hdr h (last as'))"
    using h(2) as True by (auto simp: coalesced_def successively_append_iff)
  ultimately show ?thesis using True m as by (intro exI [of _ as']) (auto simp: kfree_merge_prev_def)
qed

lemma merge_next:
  assumes h: "heap_list h (as @ c # bs) e" "coalesced h bs"
    and q: "q = hd (bs @ [kh_head h])" and adj: "bs \<noteq> [] \<longrightarrow> adj"
    and m: "h2 = kfree_merge_next q adj c h"
  shows "\<exists>bs1. heap_list h2 (as @ c # bs1) e \<and> coalesced h bs1 \<and> (bs1 \<noteq> [] \<longrightarrow> \<not> h_free (kh_hdr h (hd bs1))) \<and>
    (bs = bs1 \<or> (\<exists>q. bs = q # bs1 \<and> h_free (kh_hdr h q))) \<and> (\<forall>m. m \<noteq> c \<longrightarrow> kh_hdr h2 m = kh_hdr h m) \<and>
    kh_mach h2 = kh_mach h \<and> kh_max h2 = kh_max h \<and> kh_base h2 = kh_base h"
proof (cases "h_free (kh_hdr h q)")
  case False
  then have "bs \<noteq> [] \<longrightarrow> \<not> h_free (kh_hdr h (hd bs))" using q by (cases bs) auto
  then show ?thesis using False m h by (auto simp: kfree_merge_next_def)
next
  case True
  then have "q \<noteq> kh_head h" using h(1) by (auto simp: heap_list_def)
  then obtain bs' where bs: "bs = q # bs'" using q by (cases bs) auto
  let ?d = "(kh_hdr h c)\<lparr>h_size := h_size (kh_hdr h c) + h_size (kh_hdr h q)\<rparr>"
  have "node_ok (kh_hdr h c)" using h(1) by (auto simp: heap_list_def)
  then have "heap_list (on_links (list_del_init q) (set_hdr c ?d h)) (as @ c # bs') e"
    using h(1) bs heap_list_merge [of h as c q bs' e ?d] by (auto simp: node_ok_def)
  moreover have "coalesced h bs'" "bs' \<noteq> [] \<longrightarrow> \<not> h_free (kh_hdr h (hd bs'))"
    using h(2) bs True by (cases bs'; auto simp: coalesced_def)+
  ultimately show ?thesis using True m bs adj by (intro exI [of _ bs']) (auto simp: kfree_merge_next_def)
qed

lemma heap_list_adjacent:
  assumes "heap_list h (as @ n # q # bs) e"
  shows "n + h_size (kh_hdr h n) = q"
  using heap_list_merge [OF assms, of "\<lparr>h_magic = KHEAP_MAGIC, h_free = True,
    h_size = h_size (kh_hdr h n) + h_size (kh_hdr h q), h_id = 0\<rparr>"] by simp

text \<open>Both merges around the freed block \<open>n\<close>, before it is marked free.\<close>

lemma kfree_merges:
  assumes h: "heap_list h (as @ n # bs) e" "coalesced h (as @ n # bs)"
    and m1: "kfree_merge_prev (last (kh_head h # as)) n h = (c, h1)"
    and m2: "h2 = kfree_merge_next (hd (bs @ [kh_head h])) (n + h_size (kh_hdr h n) = hd (bs @ [kh_head h])) c h1"
  shows "\<exists>as1 bs1. heap_list h2 (as1 @ c # bs1) e \<and> coalesced h as1 \<and> coalesced h bs1 \<and>
    (as1 \<noteq> [] \<longrightarrow> \<not> h_free (kh_hdr h (last as1))) \<and> (bs1 \<noteq> [] \<longrightarrow> \<not> h_free (kh_hdr h (hd bs1))) \<and>
    (c = n \<and> as = as1 \<or> as = as1 @ [c] \<and> h_free (kh_hdr h c)) \<and>
    (bs = bs1 \<or> (\<exists>q. bs = q # bs1 \<and> h_free (kh_hdr h q))) \<and> c \<notin> set as1 \<union> set bs \<and>
    (\<forall>m. m \<noteq> c \<longrightarrow> kh_hdr h2 m = kh_hdr h m) \<and>
    kh_mach h2 = kh_mach h \<and> kh_max h2 = kh_max h \<and> kh_base h2 = kh_base h"
proof -
  have dist: "distinct (as @ n # bs)" using h(1) dlist_distinct unfolding heap_list_def by blast
  have adj: "bs \<noteq> [] \<longrightarrow> n + h_size (kh_hdr h n) = hd (bs @ [kh_head h])"
    using h(1) heap_list_adjacent by (cases bs) auto
  obtain as1 where a1: "heap_list h1 (as1 @ c # bs) e" "coalesced h as1" "as1 \<noteq> [] \<longrightarrow> \<not> h_free (kh_hdr h (last as1))"
    and a2: "c = n \<and> as = as1 \<or> as = as1 @ [c] \<and> h_free (kh_hdr h c)"
    and a3: "\<forall>m. m \<noteq> c \<longrightarrow> kh_hdr h1 m = kh_hdr h m" "kh_head h1 = kh_head h" "kh_mach h1 = kh_mach h"
      "kh_max h1 = kh_max h" "kh_base h1 = kh_base h"
    using merge_prev [OF h refl m1] by blast
  have cb: "c \<notin> set as1 \<union> set bs" using a2 dist by auto
  have "coalesced h bs" using coalesced_parts(2) [of h "as @ [n]" bs] h(2) by simp
  then have hb: "coalesced h1 bs" using coalesced_cong [of bs h1 h] a3(1) cb by fastforce
  obtain bs1 where b1: "heap_list h2 (as1 @ c # bs1) e" "coalesced h1 bs1" "bs1 \<noteq> [] \<longrightarrow> \<not> h_free (kh_hdr h1 (hd bs1))"
    and b2: "bs = bs1 \<or> (\<exists>q. bs = q # bs1 \<and> h_free (kh_hdr h1 q))"
    and b3: "\<forall>m. m \<noteq> c \<longrightarrow> kh_hdr h2 m = kh_hdr h1 m" "kh_mach h2 = kh_mach h1" "kh_max h2 = kh_max h1" "kh_base h2 = kh_base h1"
    using merge_next [OF a1(1) hb _ adj, of _ h2] m2 a3(2) by auto
  have sub: "set bs1 \<subseteq> set bs" using b2 by auto
  have "coalesced h bs1" using coalesced_cong [of bs1 h1 h] b1(2) a3(1) cb sub by fastforce
  moreover have "bs1 \<noteq> [] \<longrightarrow> \<not> h_free (kh_hdr h (hd bs1))" using b1(3) a3(1) cb sub by (cases bs1) auto
  moreover have "bs = bs1 \<or> (\<exists>q. bs = q # bs1 \<and> h_free (kh_hdr h q))" using b2 a3(1) cb by auto
  ultimately show ?thesis using a1(2,3) a2 b1(1) cb a3 b3 by (intro exI [of _ as1] exI [of _ bs1]) auto
qed

lemma kfree_spec:
  assumes inv: "heap_inv h ns" and n: "n \<in> live h ns"
  shows "\<exists>h' ns'. kfree (n + NODE_SIZE) h = Inr h' \<and> heap_inv h' ns' \<and> live h' ns' = live h ns - {n} \<and>
    (\<forall>m\<in>live h ns - {n}. kh_hdr h' m = kh_hdr h m)"
proof -
  obtain e where h: "heap_list h ns e" "heap_mapped h e" "coalesced h ns" using inv by (auto simp: heap_inv_def)
  obtain as bs where ns: "ns = as @ n # bs" using n split_list by (fastforce simp: live_def)
  have ok: "n + NODE_SIZE \<noteq> 0" "\<not> h_free (kh_hdr h n)" "h_magic (kh_hdr h n) = KHEAP_MAGIC"
    using n h(1) payload_not_null [OF h(1)] by (auto simp: live_def heap_list_def node_ok_def)
  have dl: "dlist (kh_links h) (kh_head h) (as @ n # bs)" using h(1) ns by (auto simp: heap_list_def)
  have dist: "distinct ns" using dlist_distinct [OF dl] ns by simp
  let ?p = "last (kh_head h # as)" and ?q = "hd (bs @ [kh_head h])"
  have pq: "list_last_entry n (kh_links h) = ?p" "list_first_entry n (kh_links h) = ?q"
    using dlist_adjacent [OF dl] by (simp_all add: list_last_entry_def list_first_entry_def)
  obtain c h1 where m1: "kfree_merge_prev ?p n h = (c, h1)" by force
  define h2 where "h2 = kfree_merge_next ?q (n + h_size (kh_hdr h n) = ?q) c h1"
  let ?h = "set_hdr c ((kh_hdr h2 c)\<lparr>h_free := True, h_id := 0\<rparr>) h2"
  have res: "kfree (n + NODE_SIZE) h = Inr ?h"
    using ok m1 by (simp add: kfree_def Let_def pq h2_def del: last.simps)
  obtain as1 bs1 where m: "heap_list h2 (as1 @ c # bs1) e" "coalesced h as1" "coalesced h bs1"
      "as1 \<noteq> [] \<longrightarrow> \<not> h_free (kh_hdr h (last as1))" "bs1 \<noteq> [] \<longrightarrow> \<not> h_free (kh_hdr h (hd bs1))"
      "c = n \<and> as = as1 \<or> as = as1 @ [c] \<and> h_free (kh_hdr h c)"
      "bs = bs1 \<or> (\<exists>q. bs = q # bs1 \<and> h_free (kh_hdr h q))" "c \<notin> set as1 \<union> set bs"
      "\<forall>m. m \<noteq> c \<longrightarrow> kh_hdr h2 m = kh_hdr h m" "kh_mach h2 = kh_mach h" "kh_max h2 = kh_max h" "kh_base h2 = kh_base h"
    using kfree_merges [OF h(1,3) [unfolded ns] m1 h2_def] by blast
  have hdr: "\<forall>m. m \<noteq> c \<longrightarrow> kh_hdr ?h m = kh_hdr h m" using m(9) by simp
  have cb: "c \<notin> set as1" "c \<notin> set bs1" using m(7,8) by auto
  have "node_ok (kh_hdr h2 c)" using m(1) by (auto simp: heap_list_def)
  then have hl: "heap_list ?h (as1 @ c # bs1) e" by (intro heap_list_set_hdr m(1)) (auto simp: node_ok_def)
  have co: "coalesced ?h (as1 @ c # bs1)"
    by (rule coalesced_middle) (use coalesced_cong [of as1 ?h h] coalesced_cong [of bs1 ?h h] m(2-5) hdr cb in
        \<open>metis last_in_set hd_in_set\<close>)+
  have hm: "heap_mapped ?h e" by (rule heap_mapped_fields [OF h(2)]) (simp_all add: m)
  have lv: "live ?h (as1 @ c # bs1) = live h ns - {n}"
    using m(6,7,8) hdr cb dist unfolding ns live_def by auto
  have "\<forall>m\<in>live h ns - {n}. kh_hdr ?h m = kh_hdr h m" using hdr m(6) by (auto simp: live_def)
  with res hl co hm lv show ?thesis unfolding heap_inv_def by blast
qed

section \<open>kheap\_init\<close>

lemma kheap_init_spec:
  assumes m: "kernel_space (kh_mach h)"
    and hd: "\<not> (KHEAP_VBASE \<le> kh_head h \<and> kh_head h < KHEAP_VBASE + HEAP_MAX_SIZE)"
  shows "(\<exists>h'. kheap_init h = Inr h' \<and> heap_inv h' [KHEAP_VBASE] \<and> live h' [KHEAP_VBASE] = {}) \<or>
    kheap_init h = Inl (Panic ''kheap_init: cannot map initial heap page'')"
proof -
  let ?dh = "\<lparr>h_magic = KHEAP_MAGIC, h_free = False, h_size = 0, h_id = 0\<rparr>"
  let ?d = "\<lparr>h_magic = KHEAP_MAGIC, h_free = True, h_size = PAGE_SIZE, h_id = 0\<rparr>"
  define h2 where "h2 = on_links (list_init (kh_head h))
    (set_hdr (kh_head h) ?dh (h\<lparr>kh_base := KHEAP_VBASE, kh_max := KHEAP_VBASE, kh_count := 1\<rparr>))"
  have f: "kh_base h2 = KHEAP_VBASE" "kh_max h2 = KHEAP_VBASE" "kh_mach h2 = kh_mach h" "kh_head h2 = kh_head h"
    "kh_hdr h2 = (kh_hdr h)(kh_head h := ?dh)" "kh_links h2 = list_init (kh_head h) (kh_links h)"
    by (simp_all add: h2_def)
  have "heap_mapped h2 (unat KHEAP_VBASE)" using m by (auto simp: heap_mapped_def f page_aligned_def)
  from expand_to_addr_spec [OF this, of "KHEAP_VBASE + PAGE_SIZE"]
  obtain ok mx mm where x: "kheap_expand_to_addr (KHEAP_VBASE + PAGE_SIZE) h2 = Inr (ok, h2\<lparr>kh_max := mx, kh_mach := mm\<rparr>)"
    "heap_mapped (h2\<lparr>kh_max := mx, kh_mach := mm\<rparr>) (unat KHEAP_VBASE)"
    "ok \<longrightarrow> unat (KHEAP_VBASE + PAGE_SIZE) \<le> unat mx" by (auto simp: f)
  let ?h = "kheap_node_append KHEAP_VBASE
    (set_hdr KHEAP_VBASE ?d (on_links (list_init KHEAP_VBASE) (h2\<lparr>kh_max := mx, kh_mach := mm\<rparr>)))"
  have init: "kheap_init h = (if ok then Inr ?h else Inl (Panic ''kheap_init: cannot map initial heap page''))"
    using x(1) by (simp add: kheap_init_def Let_def h2_def)
  have hne: "kh_head h \<noteq> KHEAP_VBASE" using hd by auto
  have "dlist (list_init (kh_head h) (kh_links h)) (kh_head h) []" by (rule dlist_init)
  then have "dlist (list_init KHEAP_VBASE (list_init (kh_head h) (kh_links h))) (kh_head h) []"
    unfolding list_init_def [of KHEAP_VBASE] using hne by (intro dlist_frame) auto
  then have dl: "dlist (kh_links ?h) (kh_head h) [KHEAP_VBASE]"
    using hne dlist_add_tail [of _ "kh_head h" "[]" KHEAP_VBASE] by (simp add: kheap_node_append_def f)
  have "\<not> (unat KHEAP_VBASE \<le> unat (kh_head h) \<and> unat (kh_head h) < unat KHEAP_VBASE + 0x40000000)"
    using hd by (simp add: word_le_nat_alt word_less_nat_alt)
  then have "heap_list ?h [KHEAP_VBASE] (unat KHEAP_VBASE + 4096)"
    using dl hne by (simp add: heap_list_def kheap_node_append_def f node_ok_def)
  moreover have "heap_mapped ?h (unat KHEAP_VBASE + 4096)" if ok
    using x(2,3) that by (simp add: heap_mapped_def kheap_node_append_def f)
  ultimately have "ok \<Longrightarrow> heap_inv ?h [KHEAP_VBASE]" by (auto simp: heap_inv_def coalesced_def)
  moreover have "live ?h [KHEAP_VBASE] = {}" by (simp add: live_def kheap_node_append_def)
  ultimately show ?thesis using init by auto
qed

end
