(* ===== verification/Kheap_Contract.thy ===== *)
theory Kheap_Contract
  imports Kheap_Inv "HOL-Library.Multiset"
begin

text \<open>
  The contract of the kernel heap as a locale, its interpretation on \<open>kmalloc\<close> and
  \<open>kfree\<close>, and the heap's properties.
\<close>

section \<open>The allocator contract\<close>

text \<open>Allocations for a list of sizes, and the release of a list of pointers.\<close>

primrec alloc_all :: "(u64 \<Rightarrow> 's \<Rightarrow> (u64 \<times> 's) res) \<Rightarrow> u64 list \<Rightarrow> 's \<Rightarrow> (u64 list \<times> 's) res" where
  "alloc_all alloc [] s = Inr ([], s)"
| "alloc_all alloc (n # ns) s =
     bind_res (alloc n s) (\<lambda>(p, s1). bind_res (alloc_all alloc ns s1) (\<lambda>(ps, s2). Inr (p # ps, s2)))"

primrec dealloc_all :: "(u64 \<Rightarrow> 's \<Rightarrow> 's res) \<Rightarrow> u64 list \<Rightarrow> 's \<Rightarrow> 's res" where
  "dealloc_all dealloc [] s = Inr s"
| "dealloc_all dealloc (p # ps) s = bind_res (dealloc p s) (dealloc_all dealloc ps)"

text \<open>The live payloads of a heap with their capacities.\<close>

definition heap_ok :: "kheap \<Rightarrow> bool" where
  "heap_ok h \<longleftrightarrow> (\<exists>ns. heap_inv h ns)"

definition heap_blocks :: "kheap \<Rightarrow> u64 \<Rightarrow> nat option" where
  "heap_blocks h p =
     (if \<exists>ns. heap_inv h ns \<and> p - NODE_SIZE \<in> live h ns
      then Some (unat (h_size (kh_hdr h (p - NODE_SIZE))) - 48) else None)"

text \<open>The addresses a block occupies, its header included.\<close>

definition block_range :: "kheap \<Rightarrow> u64 \<Rightarrow> u64 set" where
  "block_range h n = {a. unat n \<le> unat a \<and> unat a < unat n + unat (h_size (kh_hdr h n))}"

text \<open>
  What clients of the heap may rely on.  \<open>blocks s\<close> maps the address of every live
  payload to its capacity in bytes.
\<close>

locale block_allocator =
  fixes alloc :: "u64 \<Rightarrow> 's \<Rightarrow> (u64 \<times> 's) res"
    and dealloc :: "u64 \<Rightarrow> 's \<Rightarrow> 's res"
    and inv :: "'s \<Rightarrow> bool"
    and blocks :: "'s \<Rightarrow> u64 \<Rightarrow> nat option"
  assumes alloc_spec: "inv s \<Longrightarrow> \<exists>p s'. alloc n s = Inr (p, s') \<and> inv s' \<and>
      (if p = 0 then blocks s' = blocks s
       else blocks s p = None \<and> (\<exists>c. unat n \<le> c \<and> blocks s' = (blocks s)(p \<mapsto> c)))"
    and dealloc_spec: "inv s \<Longrightarrow> p \<in> dom (blocks s) \<Longrightarrow>
      \<exists>s'. dealloc p s = Inr s' \<and> inv s' \<and> blocks s' = (blocks s)(p := None)"
    and null_free: "dealloc 0 s = Inr s"
    and null_no_block: "inv s \<Longrightarrow> blocks s 0 = None"
begin

lemma alloc_all_spec:
  "inv s \<Longrightarrow> \<exists>ps s'. alloc_all alloc ns s = Inr (ps, s') \<and> inv s' \<and> length ps = length ns \<and>
    distinct (filter (\<lambda>p. p \<noteq> 0) ps) \<and> (\<forall>p\<in>set ps. p \<noteq> 0 \<longrightarrow> blocks s p = None) \<and>
    dom (blocks s') = dom (blocks s) \<union> {p \<in> set ps. p \<noteq> 0} \<and> blocks s' |` dom (blocks s) = blocks s"
proof (induction ns arbitrary: s)
  case Nil
  then show ?case by (auto simp: restrict_map_def fun_eq_iff domIff)
next
  case (Cons n ns)
  obtain p s1 where a: "alloc n s = Inr (p, s1)" "inv s1"
    "if p = 0 then blocks s1 = blocks s else blocks s p = None \<and> (\<exists>c. unat n \<le> c \<and> blocks s1 = (blocks s)(p \<mapsto> c))"
    using alloc_spec [OF Cons.prems, of n] by (elim exE conjE)
  obtain ps s2 where r: "alloc_all alloc ns s1 = Inr (ps, s2)" "inv s2" "length ps = length ns"
    "distinct (filter (\<lambda>p. p \<noteq> 0) ps)" "\<forall>p\<in>set ps. p \<noteq> 0 \<longrightarrow> blocks s1 p = None"
    "dom (blocks s2) = dom (blocks s1) \<union> {p \<in> set ps. p \<noteq> 0}" "blocks s2 |` dom (blocks s1) = blocks s1"
    using Cons.IH [OF a(2)] by (elim exE conjE)
  have keep: "blocks s2 q = blocks s1 q" if "q \<in> dom (blocks s1)" for q
    using fun_cong [OF r(7), of q] that by (simp add: restrict_map_def)
  have "blocks s2 |` dom (blocks s) = blocks s"
  proof
    fix q show "(blocks s2 |` dom (blocks s)) q = blocks s q"
      using keep [of q] a(3) by (cases "q \<in> dom (blocks s)") (auto simp: restrict_map_def domIff split: if_splits)
  qed
  moreover have "\<forall>q\<in>set (p # ps). q \<noteq> 0 \<longrightarrow> blocks s q = None"
    using a(3) r(5) by (cases "p = 0") (auto split: if_splits)
  moreover have "p \<noteq> 0 \<longrightarrow> p \<notin> set ps"
    using a(3) r(5) by (cases "p = 0") auto
  then have "distinct (filter (\<lambda>p. p \<noteq> 0) (p # ps))" using r(4) by simp
  moreover have "dom (blocks s2) = dom (blocks s) \<union> {q \<in> set (p # ps). q \<noteq> 0}"
    unfolding r(6) using a(3) by (cases "p = 0") (auto split: if_splits)
  moreover have "alloc_all alloc (n # ns) s = Inr (p # ps, s2)" using a(1) r(1) by simp
  ultimately show ?case using r(2,3) by (intro exI [of _ "p # ps"] exI [of _ s2]) simp
qed

lemma dealloc_all_spec:
  "inv s \<Longrightarrow> distinct (filter (\<lambda>p. p \<noteq> 0) ps) \<Longrightarrow> \<forall>p\<in>set ps. p \<noteq> 0 \<longrightarrow> p \<in> dom (blocks s) \<Longrightarrow>
   \<exists>s'. dealloc_all dealloc ps s = Inr s' \<and> inv s' \<and> blocks s' = blocks s |` (- {p \<in> set ps. p \<noteq> 0})"
proof (induction ps arbitrary: s)
  case Nil
  then show ?case by (auto simp: restrict_map_def)
next
  case (Cons p ps)
  show ?case
  proof (cases "p = 0")
    case True
    have "{q \<in> set (p # ps). q \<noteq> 0} = {q \<in> set ps. q \<noteq> 0}" using True by auto
    then show ?thesis using Cons True null_free by auto
  next
    case False
    then obtain s1 where d: "dealloc p s = Inr s1" "inv s1" "blocks s1 = (blocks s)(p := None)"
      using dealloc_spec [OF Cons.prems(1), of p] Cons.prems(3) by auto
    have "distinct (filter (\<lambda>p. p \<noteq> 0) ps)" "\<forall>q\<in>set ps. q \<noteq> 0 \<longrightarrow> q \<in> dom (blocks s1)"
      using Cons.prems(2,3) False d(3) by auto
    then obtain s' where s': "dealloc_all dealloc ps s1 = Inr s'" "inv s'" "blocks s' = blocks s1 |` (- {q \<in> set ps. q \<noteq> 0})"
      using Cons.IH [OF d(2)] by (elim exE conjE meta_impE)
    have "blocks s' = blocks s |` (- {q \<in> set (p # ps). q \<noteq> 0})"
      using s'(3) d(3) False by (auto simp: restrict_map_def fun_eq_iff)
    then show ?thesis using d(1) s'(1,2) by simp
  qed
qed

text \<open>Releasing everything that was allocated, in any order, leaves the blocks that
  were there before.\<close>

lemma alloc_dealloc_all:
  assumes "inv s"
  shows "\<exists>ps s1. alloc_all alloc ns s = Inr (ps, s1) \<and> distinct (filter (\<lambda>p. p \<noteq> 0) ps) \<and>
    (\<forall>qs. mset qs = mset ps \<longrightarrow> (\<exists>s2. dealloc_all dealloc qs s1 = Inr s2 \<and> inv s2 \<and> blocks s2 = blocks s))"
proof -
  obtain ps s1 where a: "alloc_all alloc ns s = Inr (ps, s1)" "inv s1" "distinct (filter (\<lambda>p. p \<noteq> 0) ps)"
    "\<forall>p\<in>set ps. p \<noteq> 0 \<longrightarrow> blocks s p = None" "dom (blocks s1) = dom (blocks s) \<union> {p \<in> set ps. p \<noteq> 0}"
    "blocks s1 |` dom (blocks s) = blocks s" using alloc_all_spec [OF assms, of ns] by (elim exE conjE)
  have "\<exists>s2. dealloc_all dealloc qs s1 = Inr s2 \<and> inv s2 \<and> blocks s2 = blocks s" if q: "mset qs = mset ps" for qs
  proof -
    have "mset (filter (\<lambda>p. p \<noteq> 0) qs) = mset (filter (\<lambda>p. p \<noteq> 0) ps)" using q by (simp add: mset_filter)
    then have "distinct (filter (\<lambda>p. p \<noteq> 0) qs)" using a(3) by (metis mset_eq_imp_distinct_iff)
    moreover have sq: "set qs = set ps" using q by (metis set_mset_mset)
    ultimately obtain s2 where s2: "dealloc_all dealloc qs s1 = Inr s2" "inv s2"
      "blocks s2 = blocks s1 |` (- {p \<in> set qs. p \<noteq> 0})"
      using dealloc_all_spec [OF a(2), of qs] a(5) by auto
    have "- {p \<in> set qs. p \<noteq> 0} \<inter> dom (blocks s1) = dom (blocks s)" using a(4,5) sq by auto
    then have "blocks s1 |` (- {p \<in> set qs. p \<noteq> 0}) = blocks s1 |` dom (blocks s)"
      by (auto simp: restrict_map_def fun_eq_iff)
    then show ?thesis using s2 a(6) by metis
  qed
  then show ?thesis using a(1,3) by blast
qed

end

section \<open>The heap implements the contract\<close>

lemma heap_inv_unique: "heap_inv h ns \<Longrightarrow> heap_inv h ns' \<Longrightarrow> ns = ns'"
  using dlist_unique by (auto simp: heap_inv_def heap_list_def)

lemma heap_blocks_eq:
  assumes "heap_inv h ns"
  shows "heap_blocks h p = (if p - NODE_SIZE \<in> live h ns
    then Some (unat (h_size (kh_hdr h (p - NODE_SIZE))) - 48) else None)"
  using assms heap_inv_unique [OF assms] unfolding heap_blocks_def by metis

lemma kmalloc_contract:
  assumes "heap_ok h"
  shows "\<exists>p h'. kmalloc tid n h = Inr (p, h') \<and> heap_ok h' \<and>
    (if p = 0 then heap_blocks h' = heap_blocks h
     else heap_blocks h p = None \<and> (\<exists>c. unat n \<le> c \<and> heap_blocks h' = (heap_blocks h)(p \<mapsto> c)))"
proof -
  obtain ns where inv: "heap_inv h ns" using assms by (auto simp: heap_ok_def)
  obtain p h' ns' where k: "kmalloc tid n h = Inr (p, h')" "kmalloc_outcome h ns (block_size n) p h' ns'"
    "p \<noteq> 0 \<longrightarrow> n \<noteq> 0 \<and> unat n + 63 < 18446744073709551616"
    using kmalloc_spec [OF inv] by blast
  have inv': "heap_inv h' ns'" and keep: "\<forall>m\<in>live h ns. kh_hdr h' m = kh_hdr h m"
    using k(2) by (auto simp: kmalloc_outcome_def)
  have "if p = 0 then heap_blocks h' = heap_blocks h
     else heap_blocks h p = None \<and> (\<exists>c. unat n \<le> c \<and> heap_blocks h' = (heap_blocks h)(p \<mapsto> c))"
  proof (cases "p = 0")
    case True
    then show ?thesis using k(2) keep
      by (auto simp: kmalloc_outcome_def heap_blocks_eq [OF inv] heap_blocks_eq [OF inv'] fun_eq_iff)
  next
    case False
    let ?c = "unat (h_size (kh_hdr h' (p - NODE_SIZE))) - 48"
    have l: "p - NODE_SIZE \<notin> live h ns" "live h' ns' = insert (p - NODE_SIZE) (live h ns)"
      "block_size n \<le> h_size (kh_hdr h' (p - NODE_SIZE))"
      using k(2) False by (auto simp: kmalloc_outcome_def)
    have "unat n \<le> ?c" using l(3) block_size_ok(2) [of n] k(3) False by (simp add: word_le_nat_alt)
    moreover have "heap_blocks h' = (heap_blocks h)(p \<mapsto> ?c)"
      using l(1,2) keep by (auto simp: heap_blocks_eq [OF inv] heap_blocks_eq [OF inv'] fun_eq_iff)
    ultimately show ?thesis using False l(1) by (auto simp: heap_blocks_eq [OF inv])
  qed
  then show ?thesis using k(1) inv' by (auto simp: heap_ok_def)
qed

lemma kfree_contract:
  assumes "heap_ok h" "p \<in> dom (heap_blocks h)"
  shows "\<exists>h'. kfree p h = Inr h' \<and> heap_ok h' \<and> heap_blocks h' = (heap_blocks h)(p := None)"
proof -
  obtain ns where inv: "heap_inv h ns" using assms by (auto simp: heap_ok_def)
  have n: "p - NODE_SIZE \<in> live h ns" using assms(2) by (auto simp: heap_blocks_eq [OF inv] split: if_splits)
  obtain h' ns' where k: "kfree (p - NODE_SIZE + NODE_SIZE) h = Inr h'" "heap_inv h' ns'"
    "live h' ns' = live h ns - {p - NODE_SIZE}" "\<forall>m\<in>live h ns - {p - NODE_SIZE}. kh_hdr h' m = kh_hdr h m"
    using kfree_spec [OF inv n] by (elim exE conjE)
  have "heap_blocks h' = (heap_blocks h)(p := None)"
    using k(3,4) by (auto simp: heap_blocks_eq [OF inv] heap_blocks_eq [OF k(2)] fun_eq_iff)
  then show ?thesis using k(1,2) by (auto simp: heap_ok_def)
qed

interpretation kh: block_allocator "kmalloc tid" kfree heap_ok heap_blocks for tid
proof
  show "kfree 0 s = Inr s" for s by (simp add: kfree_def)
  show "heap_blocks s 0 = None" if ok: "heap_ok s" for s
  proof -
    obtain ns e where inv: "heap_inv s ns" "heap_list s ns e" 
      using ok unfolding heap_ok_def heap_inv_def by blast
    have "- NODE_SIZE \<notin> set ns" using payload_not_null [OF inv(2)] by fastforce
    then show ?thesis by (simp add: heap_blocks_eq [OF inv(1)] live_def)
  qed
qed (use kmalloc_contract kfree_contract in blast)+

section \<open>Properties\<close>

lemma live_block:
  assumes "heap_inv h ns" "n \<in> live h ns"
  shows "16 dvd unat (n + NODE_SIZE)" "unat (n + NODE_SIZE) = unat n + 48" "n + NODE_SIZE \<noteq> 0"
    "a \<in> block_range h n \<Longrightarrow> vmm_is_mapped (m_kernel_pml4 (kh_mach h)) a (kh_mach h)"
    "m \<in> live h ns \<Longrightarrow> m \<noteq> n \<Longrightarrow> block_range h n \<inter> block_range h m = {}"
proof -
  obtain e where h: "heap_list h ns e" "heap_mapped h e" using assms(1) by (auto simp: heap_inv_def)
  have n: "n \<in> set ns" using assms(2) by (simp add: live_def)
  have t: "tiled (kh_hdr h) (unat (kh_base h)) ns e" and d: "distinct ns"
    and ok: "\<forall>n\<in>set ns. node_ok (kh_hdr h n)" and b: "16 dvd unat (kh_base h)"
    using h(1) dlist_distinct by (auto simp: heap_list_def)
  show u: "unat (n + NODE_SIZE) = unat n + 48" "n + NODE_SIZE \<noteq> 0" using payload_not_null [OF h(1) n] by auto
  have "\<forall>n\<in>set ns. 16 dvd unat (h_size (kh_hdr h n))" using ok by (auto simp: node_ok_def)
  then have "16 dvd unat n" using tiled_aligned [OF t b] n by blast
  then show "16 dvd unat (n + NODE_SIZE)" unfolding u by simp
  show "vmm_is_mapped (m_kernel_pml4 (kh_mach h)) a (kh_mach h)" if "a \<in> block_range h n"
    using that h(2) tiled_mem [OF t n] by (auto simp: block_range_def heap_mapped_def word_le_nat_alt word_less_nat_alt)
  show "block_range h n \<inter> block_range h m = {}" if "m \<in> live h ns" "m \<noteq> n"
    using tiled_disjoint [OF t d n, of m] that by (auto simp: block_range_def live_def)
qed

lemma kfree_free_block: "heap_inv h ns \<Longrightarrow> n \<in> set ns \<Longrightarrow> h_free (kh_hdr h n) \<Longrightarrow>
    kfree (n + NODE_SIZE) h = Inl (Panic ''kfree: double free'')"
  using payload_not_null [of h ns _ n] by (auto simp: heap_inv_def kfree_def Let_def)

text \<open>
  An initialised heap: the machine of \<open>Vmm_Map\<close> with the heap head at a fixed address
  outside the heap.
\<close>

definition heap_start :: kheap where
  "heap_start = \<lparr>kh_links = \<lparr>lnext = (\<lambda>_. 0), lprev = (\<lambda>_. 0)\<rparr>,
     kh_hdr = (\<lambda>_. \<lparr>h_magic = 0, h_free = False, h_size = 0, h_id = 0\<rparr>),
     kh_head = 0x1000, kh_base = 0, kh_max = 0, kh_count = 0, kh_mach = vm_example\<rparr>"

definition heap_example :: kheap where
  "heap_example = (case kheap_init heap_start of Inr h \<Rightarrow> h | Inl _ \<Rightarrow> heap_start)"

lemma heap_start_ok: "kernel_space (kh_mach heap_start)"
  "\<not> (KHEAP_VBASE \<le> kh_head heap_start \<and> kh_head heap_start < KHEAP_VBASE + HEAP_MAX_SIZE)"
  using vm_example_space by (simp_all add: heap_start_def kernel_space_def vm_example_def)

lemma heap_example_eval:
  "(case kheap_init heap_start of Inl _ \<Rightarrow> False
    | Inr h \<Rightarrow> kh_hdr h KHEAP_VBASE = \<lparr>h_magic = KHEAP_MAGIC, h_free = True, h_size = PAGE_SIZE, h_id = 0\<rparr> \<and>
        m_pages (kh_mach h) 0x100000 0 = 0 \<and> m_kernel_pml4 (kh_mach h) = 0x100000)"
  by code_simp

lemma heap_example_inv: "heap_inv heap_example [KHEAP_VBASE]" "live heap_example [KHEAP_VBASE] = {}"
  using heap_example_eval kheap_init_spec [OF heap_start_ok] by (auto simp: heap_example_def split: sum.splits)

lemma heap_example_free:
  "kh_hdr heap_example KHEAP_VBASE = \<lparr>h_magic = KHEAP_MAGIC, h_free = True, h_size = PAGE_SIZE, h_id = 0\<rparr>"
  using heap_example_eval by (simp add: heap_example_def split: sum.splits)

lemma heap_example_mach: "m_pages (kh_mach heap_example) 0x100000 0 = 0" "m_kernel_pml4 (kh_mach heap_example) = 0x100000"
  using heap_example_eval by (simp_all add: heap_example_def split: sum.splits)

lemma heap_example_live: "\<exists>h ns n. heap_inv h ns \<and> live h ns = {n}"
proof -
  obtain p h ns where k: "kmalloc_outcome heap_example [KHEAP_VBASE] (block_size 100) p h ns"
    "(100 :: u64) \<noteq> 0 \<and> (\<exists>n\<in>set [KHEAP_VBASE]. h_free (kh_hdr heap_example n) \<and>
       unat (100 :: u64) + 63 \<le> unat (h_size (kh_hdr heap_example n))) \<longrightarrow> p \<noteq> 0"
    using kmalloc_spec [OF heap_example_inv(1), of 7 100] by (elim exE conjE)
  have "p \<noteq> 0" using k(2) by (simp add: heap_example_free)
  then show ?thesis using k(1) heap_example_inv(2) by (auto simp: kmalloc_outcome_def)
qed

text \<open>
  (C6) \<open>kmalloc\<close> on a well-formed heap never panics and its search always ends.  It
  keeps the heap well formed and the headers of all live blocks.  A null result
  leaves the live blocks as they are, and does not occur when a free block of at
  least \<open>size + 63\<close> bytes exists.  A non-null result is a 16-byte aligned address of a
  new live block, all \<open>size\<close> bytes from it are mapped in the kernel address space and
  none of them belongs to a block that was live before.
\<close>
theorem kmalloc_correct:
  assumes "heap_inv h ns"
  shows "\<exists>p h' ns'. kmalloc tid sz h = Inr (p, h') \<and> heap_inv h' ns' \<and>
    (\<forall>m\<in>live h ns. kh_hdr h' m = kh_hdr h m) \<and>
    (if p = 0 then live h' ns' = live h ns
     else live h' ns' = insert (p - NODE_SIZE) (live h ns) \<and> p - NODE_SIZE \<notin> live h ns \<and> 16 dvd unat p \<and>
       (\<forall>a. unat p \<le> unat a \<and> unat a < unat p + unat sz \<longrightarrow>
          vmm_is_mapped (m_kernel_pml4 (kh_mach h')) a (kh_mach h') \<and> (\<forall>m\<in>live h ns. a \<notin> block_range h m))) \<and>
    (sz \<noteq> 0 \<and> (\<exists>n\<in>set ns. h_free (kh_hdr h n) \<and> unat sz + 63 \<le> unat (h_size (kh_hdr h n))) \<longrightarrow> p \<noteq> 0)"
proof -
  obtain p h' ns' where k: "kmalloc tid sz h = Inr (p, h')" "kmalloc_outcome h ns (block_size sz) p h' ns'"
    "p \<noteq> 0 \<longrightarrow> sz \<noteq> 0 \<and> unat sz + 63 < 18446744073709551616"
    "sz \<noteq> 0 \<and> (\<exists>n\<in>set ns. h_free (kh_hdr h n) \<and> unat sz + 63 \<le> unat (h_size (kh_hdr h n))) \<longrightarrow> p \<noteq> 0"
    using kmalloc_spec [OF assms, of tid sz] by (elim exE conjE)
  have inv: "heap_inv h' ns'" and keep: "\<forall>m\<in>live h ns. kh_hdr h' m = kh_hdr h m"
    using k(2) by (auto simp: kmalloc_outcome_def)
  have new: "live h' ns' = insert (p - NODE_SIZE) (live h ns) \<and> p - NODE_SIZE \<notin> live h ns \<and> 16 dvd unat p \<and>
       (\<forall>a. unat p \<le> unat a \<and> unat a < unat p + unat sz \<longrightarrow>
          vmm_is_mapped (m_kernel_pml4 (kh_mach h')) a (kh_mach h') \<and> (\<forall>m\<in>live h ns. a \<notin> block_range h m))"
    if "p \<noteq> 0"
  proof -
    let ?n = "p - NODE_SIZE"
    have l: "?n \<notin> live h ns" "live h' ns' = insert ?n (live h ns)" "block_size sz \<le> h_size (kh_hdr h' ?n)"
      using k(2) that by (auto simp: kmalloc_outcome_def)
    then have n: "?n \<in> live h' ns'" by simp
    note lb = live_block [OF inv n]
    have sz: "unat sz + 48 \<le> unat (h_size (kh_hdr h' ?n))"
      using block_size_ok(2) [of sz] k(3) that l(3) by (simp add: word_le_nat_alt)
    have "a \<in> block_range h' ?n" if "unat p \<le> unat a \<and> unat a < unat p + unat sz" for a
      using that sz lb(2) by (simp add: block_range_def)
    moreover have "block_range h' m = block_range h m" if "m \<in> live h ns" for m
      using keep that by (simp add: block_range_def)
    moreover have "block_range h' ?n \<inter> block_range h' m = {}" if "m \<in> live h ns" for m
      using lb(5) [of m] l(1,2) that by auto
    ultimately have "vmm_is_mapped (m_kernel_pml4 (kh_mach h')) a (kh_mach h') \<and> (\<forall>m\<in>live h ns. a \<notin> block_range h m)"
      if "unat p \<le> unat a \<and> unat a < unat p + unat sz" for a
      using lb(4) [of a] that by blast
    then show ?thesis using l(1,2) lb(1) by simp
  qed
  show ?thesis
    using k inv keep new by (intro exI [of _ p] exI [of _ h'] exI [of _ ns']) (simp add: kmalloc_outcome_def)
qed

theorem kmalloc_correct_witness:
  "heap_inv heap_example [KHEAP_VBASE] \<and>
   (\<exists>p h' ns'. kmalloc 7 100 heap_example = Inr (p, h') \<and> heap_inv h' ns' \<and> p \<noteq> 0 \<and> live h' ns' = {p - NODE_SIZE})"
proof -
  have "\<exists>n\<in>set [KHEAP_VBASE]. h_free (kh_hdr heap_example n) \<and>
      unat (100 :: u64) + 63 \<le> unat (h_size (kh_hdr heap_example n))"
    by (simp add: heap_example_free)
  with kmalloc_correct [OF heap_example_inv(1), of 7 100] heap_example_inv show ?thesis
    by (elim exE conjE) (auto split: if_splits)
qed

text \<open>
  (C7) \<open>kfree\<close> of a pointer whose block is live succeeds: exactly that block stops
  being live, the headers of all other live blocks are unchanged and the heap stays
  well formed, so the freed space is merged with free neighbours on both sides.
  Freeing a pointer to a block of the list that is already free panics.
\<close>
theorem kfree_correct:
  assumes "heap_inv h ns" "n \<in> set ns"
  shows "if h_free (kh_hdr h n) then kfree (n + NODE_SIZE) h = Inl (Panic ''kfree: double free'')
    else \<exists>h' ns'. kfree (n + NODE_SIZE) h = Inr h' \<and> heap_inv h' ns' \<and> live h' ns' = live h ns - {n} \<and>
      (\<forall>m\<in>live h ns - {n}. kh_hdr h' m = kh_hdr h m)"
proof (cases "h_free (kh_hdr h n)")
  case True
  then show ?thesis using kfree_free_block [OF assms] by simp
next
  case False
  then show ?thesis using kfree_spec [OF assms(1), of n] assms(2) by (simp add: live_def)
qed

theorem kfree_correct_witness:
  "\<exists>h ns n h' ns'. heap_inv h ns \<and> kfree (n + NODE_SIZE) h = Inr h' \<and> heap_inv h' ns' \<and> live h ns = {n} \<and> live h' ns' = {}"
proof -
  obtain h ns n where h: "heap_inv h ns" "live h ns = {n}" using heap_example_live by blast
  then have "n \<in> set ns" "\<not> h_free (kh_hdr h n)" by (auto simp: live_def)
  with kfree_correct [OF h(1), of n] h(2) have "\<exists>h' ns'. kfree (n + NODE_SIZE) h = Inr h' \<and> heap_inv h' ns' \<and> live h' ns' = {}"
    by auto
  with h show ?thesis by blast
qed

text \<open>
  Any sequence of allocations followed by the release of the returned
  pointers in any order (null pointers included) succeeds: the pointers that are
  not null are pairwise different, and afterwards the heap is well formed with
  exactly the live payloads, at the same capacities, that it had before.
\<close>
theorem kmalloc_kfree_any_order:
  assumes "heap_ok h"
  shows "\<exists>ps h1. alloc_all (kmalloc tid) sizes h = Inr (ps, h1) \<and> distinct (filter (\<lambda>p. p \<noteq> 0) ps) \<and>
    (\<forall>qs. mset qs = mset ps \<longrightarrow> (\<exists>h2. dealloc_all kfree qs h1 = Inr h2 \<and> heap_ok h2 \<and> heap_blocks h2 = heap_blocks h))"
  by (rule kh.alloc_dealloc_all [OF assms])

theorem kmalloc_kfree_any_order_witness:
  "heap_ok heap_example \<and>
   (\<exists>ps h1. alloc_all (kmalloc 3) [32, 100, 32] heap_example = Inr (ps, h1) \<and>
     (\<exists>h2. dealloc_all kfree (rev ps) h1 = Inr h2 \<and> heap_ok h2 \<and> heap_blocks h2 = heap_blocks heap_example))"
proof -
  have ok: "heap_ok heap_example" using heap_example_inv by (auto simp: heap_ok_def)
  obtain ps h1 where k: "alloc_all (kmalloc 3) [32, 100, 32] heap_example = Inr (ps, h1)"
    "\<forall>qs. mset qs = mset ps \<longrightarrow> (\<exists>h2. dealloc_all kfree qs h1 = Inr h2 \<and> heap_ok h2 \<and> heap_blocks h2 = heap_blocks heap_example)"
    using kmalloc_kfree_any_order [OF ok, of 3 "[32, 100, 32]"] by (elim exE conjE)
  show ?thesis using ok k(1) k(2) [THEN spec, of "rev ps"] by (simp del: alloc_all.simps)
qed

lemma coalesced_no_live:
  assumes "coalesced h ns" "\<forall>n\<in>set ns. h_free (kh_hdr h n)" "ns \<noteq> []"
  shows "length ns = 1"
  using assms by (cases ns rule: remdups_adj.cases) (auto simp: coalesced_def)

lemma take_block_mach: "kh_mach (snd (take_block tid need cur h)) = kh_mach h"
  by (simp add: take_block_def Let_def set_hdr_def on_links_def)

lemma kmalloc_from_free:
  assumes "heap_inv h ns" "sz \<noteq> 0" "n \<in> set ns" "h_free (kh_hdr h n)" "unat sz + 63 \<le> unat (h_size (kh_hdr h n))"
  shows "\<exists>p h'. kmalloc tid sz h = Inr (p, h') \<and> p \<noteq> 0 \<and> kh_mach h' = kh_mach h"
proof -
  obtain e where h: "heap_list h ns e" using assms(1) by (auto simp: heap_inv_def)
  then have d: "dlist (kh_links h) (kh_head h) ns" by (simp add: heap_list_def)
  have lim: "unat sz + 63 < 18446744073709551616" using assms(5) unat_u64_less [of "h_size (kh_hdr h n)"] by simp
  have small: "\<not> sz > - 1 - NODE_SIZE - (KHEAP_ALIGNMENT - 1)" using lim by (simp add: word_less_nat_alt)
  have "block_size sz \<le> h_size (kh_hdr h n)" using block_size_ok(3) [OF assms(2) lim] assms(5) by (simp add: word_le_nat_alt)
  then obtain c where c: "List.find (\<lambda>n. h_free (kh_hdr h n) \<and> block_size sz \<le> h_size (kh_hdr h n)) ns = Some c"
    using assms(3,4) by (cases "List.find (\<lambda>n. h_free (kh_hdr h n) \<and> block_size sz \<le> h_size (kh_hdr h n)) ns")
      (auto simp: find_None_iff)
  have "kmalloc tid sz h = Inr (take_block tid (block_size sz) c h)"
    using small assms(2) find_fit_list [OF d, of "kh_hdr h" "block_size sz"] c by (simp add: kmalloc_def block_size_def Let_def)
  moreover have "\<exists>p h'. kmalloc tid sz h = Inr (p, h') \<and> p \<noteq> 0" using kmalloc_spec [OF assms(1), of tid sz] assms(2-) by blast
  ultimately show ?thesis using take_block_mach [of tid "block_size sz" c h] by (cases "take_block tid (block_size sz) c h") auto
qed

text \<open>
  The runs of the heap: initialisation, then any sequence of calls of \<open>kmalloc\<close> and of
  \<open>kfree\<close> for pointers that are in use.  The second argument is the set of the pointers that
  \<open>kmalloc\<close> has returned and that have not been freed.
\<close>

inductive heap_run :: "kheap \<Rightarrow> u64 set \<Rightarrow> bool" where
  init: "kernel_space (kh_mach h0) \<Longrightarrow> \<not> (KHEAP_VBASE \<le> kh_head h0 \<and> kh_head h0 < KHEAP_VBASE + HEAP_MAX_SIZE) \<Longrightarrow>
    kheap_init h0 = Inr h \<Longrightarrow> heap_run h {}"
| malloc: "heap_run h A \<Longrightarrow> kmalloc tid sz h = Inr (p, h') \<Longrightarrow> heap_run h' (if p = 0 then A else insert p A)"
| free: "heap_run h A \<Longrightarrow> p \<in> A \<Longrightarrow> kfree p h = Inr h' \<Longrightarrow> heap_run h' (A - {p})"

lemma heap_run_blocks: "heap_run h A \<Longrightarrow> heap_ok h \<and> dom (heap_blocks h) = A"
proof (induction rule: heap_run.induct)
  case (init h0 h)
  then have i: "heap_inv h [KHEAP_VBASE]" "live h [KHEAP_VBASE] = {}" using kheap_init_spec [OF init(1,2)] by auto
  then show ?case using heap_blocks_eq [OF i(1)] by (auto simp: heap_ok_def domIff)
next
  case (malloc h A tid sz p h')
  obtain q h1 where a: "kmalloc tid sz h = Inr (q, h1)" "heap_ok h1"
    "if q = 0 then heap_blocks h1 = heap_blocks h else heap_blocks h q = None \<and> (\<exists>c. unat sz \<le> c \<and> heap_blocks h1 = (heap_blocks h)(q \<mapsto> c))"
    using kh.alloc_spec [of h tid sz] malloc.IH by blast
  then show ?case using malloc.hyps(2) malloc.IH by auto
next
  case (free h A p h')
  then show ?case using kh.dealloc_spec [of h p] by (auto split: if_splits)
qed

text \<open>
  (C8) No fragmentation is left behind.  In every state that initialisation and any sequence
  of calls of \<open>kmalloc\<close> and \<open>kfree\<close> reach, each pointer in use can be freed without a
  panic.  When all of them have been freed, in whatever order, the list is a single free
  block again that starts at the heap base, and a request for up to all of it
  (less header and rounding) succeeds without taking a page.
\<close>
theorem kheap_no_fragmentation:
  assumes "heap_run h A"
  shows "(\<forall>p\<in>A. \<exists>h'. kfree p h = Inr h') \<and>
    (A = {} \<longrightarrow> lnext (kh_links h) (kh_head h) = kh_base h \<and> lnext (kh_links h) (kh_base h) = kh_head h \<and>
       h_free (kh_hdr h (kh_base h)) \<and>
       (\<forall>tid sz. sz \<noteq> 0 \<and> unat sz + 63 \<le> unat (h_size (kh_hdr h (kh_base h))) \<longrightarrow>
          (\<exists>p h'. kmalloc tid sz h = Inr (p, h') \<and> p \<noteq> 0 \<and> kh_mach h' = kh_mach h)))"
proof (intro conjI ballI impI)
  have run: "heap_ok h" "dom (heap_blocks h) = A" using heap_run_blocks [OF assms] by simp_all
  show "\<exists>h'. kfree p h = Inr h'" if "p \<in> A" for p using kh.dealloc_spec [OF run(1), of p] that run(2) by auto
  assume A: "A = {}"
  obtain ns e where inv: "heap_inv h ns" and h: "heap_list h ns e" "coalesced h ns"
    using run(1) by (auto simp: heap_ok_def heap_inv_def)
  have "n \<notin> live h ns" for n
    using heap_blocks_eq [OF inv, of "n + NODE_SIZE"] run(2) A by (auto simp: domIff split: if_splits)
  then have free: "\<forall>n\<in>set ns. h_free (kh_hdr h n)" by (auto simp: live_def)
  moreover have "ns \<noteq> []" using h(1) by (simp add: heap_list_def)
  ultimately have "length ns = 1" by (rule coalesced_no_live [OF h(2)])
  then obtain n where n: "ns = [n]" by (auto simp: length_Suc_conv)
  then have "unat n = unat (kh_base h)" using h(1) by (simp add: heap_list_def)
  then have b: "ns = [kh_base h]" using n by (simp add: unsigned_word_eqI)
  then show "lnext (kh_links h) (kh_head h) = kh_base h" "lnext (kh_links h) (kh_base h) = kh_head h"
    using h(1) by (auto simp: heap_list_def dlist_def)
  show "h_free (kh_hdr h (kh_base h))" using free b by simp
  show "\<forall>tid sz. sz \<noteq> 0 \<and> unat sz + 63 \<le> unat (h_size (kh_hdr h (kh_base h))) \<longrightarrow>
      (\<exists>p h'. kmalloc tid sz h = Inr (p, h') \<and> p \<noteq> 0 \<and> kh_mach h' = kh_mach h)"
    using kmalloc_from_free [OF inv, of _ "kh_base h"] free b by simp
qed

theorem kheap_no_fragmentation_witness:
  "\<exists>p h1 h2. kmalloc 7 100 heap_example = Inr (p, h1) \<and> p \<noteq> 0 \<and> heap_run h1 {p} \<and> kfree p h1 = Inr h2 \<and> heap_run h2 {} \<and>
     lnext (kh_links h2) (kh_head h2) = kh_base h2 \<and> lnext (kh_links h2) (kh_base h2) = kh_head h2"
proof -
  have "kheap_init heap_start = Inr heap_example" using heap_example_eval by (auto simp: heap_example_def split: sum.splits)
  then have r0: "heap_run heap_example {}" by (rule heap_run.init [OF heap_start_ok])
  have "sz \<noteq> 0 \<and> unat sz + 63 \<le> 4096 \<Longrightarrow> \<exists>p h'. kmalloc tid sz heap_example = Inr (p, h') \<and> p \<noteq> 0" for tid sz
    using kmalloc_from_free [OF heap_example_inv(1), of sz KHEAP_VBASE tid] by (auto simp: heap_example_free)
  from this [of 100 7] obtain p h1 where k: "kmalloc 7 100 heap_example = Inr (p, h1)" "p \<noteq> 0" by auto
  have r1: "heap_run h1 {p}" using heap_run.malloc [OF r0 k(1)] k(2) by simp
  obtain h2 where f: "kfree p h1 = Inr h2" using kheap_no_fragmentation [OF r1] by blast
  have r2: "heap_run h2 {}" using heap_run.free [OF r1 _ f] by simp
  from kheap_no_fragmentation [OF r2] k r1 f r2 show ?thesis by blast
qed

text \<open>
  \<open>kheap_init\<close> on a well-formed kernel address space either panics because the
  first page cannot be mapped or produces a well-formed heap with a single free
  block at the heap base and no live block.
\<close>
theorem kheap_init_correct:
  assumes "kernel_space (kh_mach h)"
    and "\<not> (KHEAP_VBASE \<le> kh_head h \<and> kh_head h < KHEAP_VBASE + HEAP_MAX_SIZE)"
  shows "case kheap_init h of Inl e \<Rightarrow> e = Panic ''kheap_init: cannot map initial heap page''
    | Inr h' \<Rightarrow> heap_inv h' [KHEAP_VBASE] \<and> live h' [KHEAP_VBASE] = {}"
  using kheap_init_spec [OF assms] by auto

theorem kheap_init_correct_witness:
  "case kheap_init heap_start of Inl e \<Rightarrow> False | Inr h' \<Rightarrow> heap_inv h' [KHEAP_VBASE]"
proof -
  have "(case kheap_init heap_start of Inl _ \<Rightarrow> False | Inr _ \<Rightarrow> True)" by code_simp
  then show ?thesis using kheap_init_correct [OF heap_start_ok] by (auto split: sum.splits)
qed

end
