(* ===== verification/Vma.thy ===== *)
theory Vma
  imports Kheap_Contract
begin

text \<open>
  User address spaces: the list of mapped regions of a thread (\<open>kernel/vma.c\<close>), the
  system calls that map and unmap memory and demand paging
  (\<open>do_mmap\<close>, \<open>do_munmap\<close> in \<open>kernel/arch/x86_64/syscall.c\<close>,
  \<open>kernel/arch/x86_64/page_fault.c\<close>).

  The state is the address space of the current thread: its root table (0 for a thread
  without one), its regions in list order, each with the address of its node, and the
  kernel heap, which contains the machine with its page tables and page allocator.
  The loops over the pages of a region count pages, since lengths are rounded to
  multiples of the page size before.
\<close>

section \<open>Regions\<close>

record vma =
  vm_start :: u64
  vm_end :: u64
  vm_prot :: u32
  vm_flags :: u32

record uspace =
  us_pml4 :: u64
  us_vmas :: "(u64 \<times> vma) list"
  us_heap :: kheap

abbreviation (input) USER_MMAP_BASE :: u64 where "USER_MMAP_BASE \<equiv> 0x04000000"
abbreviation (input) USER_MMAP_END :: u64 where "USER_MMAP_END \<equiv> 0x10000000"
abbreviation (input) PROT_WRITE :: u32 where "PROT_WRITE \<equiv> 2"
abbreviation (input) PROT_EXEC :: u32 where "PROT_EXEC \<equiv> 4"
abbreviation (input) MAP_PRIVATE :: u32 where "MAP_PRIVATE \<equiv> 2"
abbreviation (input) MAP_ANONYMOUS :: u32 where "MAP_ANONYMOUS \<equiv> 0x20"
abbreviation (input) MAP_LAZY :: u64 where "MAP_LAZY \<equiv> 0x100"

text \<open>\<open>sizeof(struct vma)\<close>\<close>

abbreviation (input) VMA_SIZE :: u64 where "VMA_SIZE \<equiv> 32"

fun insert_vma :: "u64 \<times> vma \<Rightarrow> (u64 \<times> vma) list \<Rightarrow> (u64 \<times> vma) list" where
  "insert_vma n [] = [n]"
| "insert_vma n (v # vs) = (if vm_start (snd v) < vm_start (snd n) then v # insert_vma n vs else n # v # vs)"

definition vma_alloc :: "u64 \<Rightarrow> u64 \<Rightarrow> u64 \<Rightarrow> u32 \<Rightarrow> u32 \<Rightarrow> uspace \<Rightarrow> (u64 \<times> uspace) res" where
  "vma_alloc tid start fin prot flags s =
     bind_res (kmalloc tid VMA_SIZE (us_heap s)) (\<lambda>(p, h).
       if p = 0 then Inr (0, s\<lparr>us_heap := h\<rparr>)
       else let v = \<lparr>vm_start = start, vm_end = fin, vm_prot = prot, vm_flags = flags\<rparr>
         in Inr (p, s\<lparr>us_vmas := insert_vma (p, v) (us_vmas s), us_heap := h\<rparr>))"

definition vma_find :: "u64 \<Rightarrow> uspace \<Rightarrow> (u64 \<times> vma) option" where
  "vma_find addr s = find (\<lambda>v. addr \<ge> vm_start (snd v) \<and> addr < vm_end (snd v)) (us_vmas s)"

text \<open>The search for the region with exactly these bounds: its node and the other regions.\<close>

fun unlink_vma :: "u64 \<Rightarrow> u64 \<Rightarrow> (u64 \<times> vma) list \<Rightarrow> (u64 \<times> (u64 \<times> vma) list) option" where
  "unlink_vma start fin [] = None"
| "unlink_vma start fin (v # vs) =
     (if vm_start (snd v) = start \<and> vm_end (snd v) = fin then Some (fst v, vs)
      else case unlink_vma start fin vs of None \<Rightarrow> None | Some (p, ws) \<Rightarrow> Some (p, v # ws))"

definition vma_free :: "u64 \<Rightarrow> u64 \<Rightarrow> uspace \<Rightarrow> (int \<times> uspace) res" where
  "vma_free start len s =
     (case unlink_vma start (start + len) (us_vmas s) of
        None \<Rightarrow> Inr (- 1, s)
      | Some (p, vs) \<Rightarrow>
          bind_res (kfree p (us_heap s)) (\<lambda>h. Inr (0, s\<lparr>us_vmas := vs, us_heap := h\<rparr>)))"

definition vma_destroy_all :: "uspace \<Rightarrow> uspace res" where
  "vma_destroy_all s =
     bind_res (fold_res (\<lambda>v h. kfree (fst v) h) (us_vmas s) (us_heap s)) (\<lambda>h.
       Inr (s\<lparr>us_vmas := [], us_heap := h\<rparr>))"

fun find_free_loop :: "u64 \<Rightarrow> (u64 \<times> vma) list \<Rightarrow> u64 \<Rightarrow> u64" where
  "find_free_loop len [] cursor = (if cursor + len \<le> USER_MMAP_END then cursor else 0)"
| "find_free_loop len (v # vs) cursor =
     (if cursor + len \<le> vm_start (snd v) \<and> cursor < USER_MMAP_END then cursor
      else if vm_end (snd v) \<ge> USER_MMAP_END then 0
      else find_free_loop len vs (vm_end (snd v)))"

definition vma_find_free :: "u64 \<Rightarrow> uspace \<Rightarrow> u64" where
  "vma_find_free len s = find_free_loop ((len + 4095) AND NOT 4095) (us_vmas s) USER_MMAP_BASE"

section \<open>Mapping and unmapping\<close>

abbreviation (input) us_mach :: "uspace \<Rightarrow> mach" where "us_mach s \<equiv> kh_mach (us_heap s)"

definition set_mach :: "mach \<Rightarrow> uspace \<Rightarrow> uspace" where
  "set_mach m s = s\<lparr>us_heap := (us_heap s)\<lparr>kh_mach := m\<rparr>\<rparr>"

text \<open>
  The loop that backs \<open>n\<close> pages from \<open>cursor\<close> on: success or not, the number of pages
  that are mapped, and the machine.
\<close>

fun map_pages :: "u64 \<Rightarrow> u64 \<Rightarrow> nat \<Rightarrow> u64 \<Rightarrow> mach \<Rightarrow> (bool \<times> nat \<times> mach) res" where
  "map_pages pml4 flags 0 cursor m = Inr (True, 0, m)"
| "map_pages pml4 flags (Suc n) cursor m =
     (let (phys, m1) = alloc_page m in
      if phys = 0 then Inr (False, 0, m1)
      else bind_res (vmm_map_user pml4 cursor phys flags m1) (\<lambda>(r, m2).
        if r \<noteq> 0 then bind_res (free_page phys m2) (\<lambda>m3. Inr (False, 0, m3))
        else bind_res (map_pages pml4 flags n (cursor + PAGE_SIZE) m2) (\<lambda>(ok, k, m3). Inr (ok, Suc k, m3))))"

definition unmap_page :: "u64 \<Rightarrow> u64 \<Rightarrow> mach \<Rightarrow> mach res" where
  "unmap_page pml4 va m =
     bind_res (vmm_get_phys pml4 va m) (\<lambda>raw.
       let phys = raw AND PTE_ADDR_MASK; m1 = snd (vmm_unmap pml4 va m)
       in if phys \<noteq> 0 then free_page phys m1 else Inr m1)"

definition pages_from :: "u64 \<Rightarrow> nat \<Rightarrow> u64 list" where
  "pages_from addr n = map (\<lambda>i. addr + of_nat i * PAGE_SIZE) [0..<n]"

definition unmap_pages :: "u64 \<Rightarrow> u64 \<Rightarrow> nat \<Rightarrow> mach \<Rightarrow> mach res" where
  "unmap_pages pml4 addr n m = fold_res (unmap_page pml4) (pages_from addr n) m"

definition pte_flags :: "u32 \<Rightarrow> u64" where
  "pte_flags prot =
     PTE_PRESENT OR PTE_USER OR (if prot AND PROT_WRITE \<noteq> 0 then PTE_WRITABLE else 0) OR
     (if prot AND PROT_EXEC = 0 then PTE_NX else 0)"

text \<open>The second half of \<open>do_mmap\<close>: backing the registered region, with the rollback.\<close>

definition mmap_populate :: "u64 \<Rightarrow> u64 \<Rightarrow> u32 \<Rightarrow> uspace \<Rightarrow> (u64 \<times> uspace) res" where
  "mmap_populate vaddr len prot s =
     bind_res (map_pages (us_pml4 s) (pte_flags prot) (unat len div 4096) vaddr (us_mach s)) (\<lambda>(ok, k, m).
       if ok then Inr (vaddr, set_mach m s)
       else bind_res (unmap_pages (us_pml4 s) vaddr k m) (\<lambda>m1.
         bind_res (vma_free vaddr len (set_mach m1 s)) (\<lambda>(_, s1). Inr (0, s1))))"

definition do_mmap :: "u64 \<Rightarrow> u64 \<Rightarrow> u64 \<Rightarrow> u64 \<Rightarrow> uspace \<Rightarrow> (u64 \<times> uspace) res" where
  "do_mmap tid len prot flags s =
     (if us_pml4 s = 0 then Inr (0, s)
      else if len > - 1 - (PAGE_SIZE - 1) then Inr (0, s)
      else let len1 = (len + (PAGE_SIZE - 1)) AND NOT (PAGE_SIZE - 1) in
      if len1 = 0 then Inr (0, s)
      else let vaddr = vma_find_free len1 s in
      if vaddr = 0 \<or> vaddr > - 1 - len1 then Inr (0, s)
      else bind_res (vma_alloc tid vaddr (vaddr + len1) (ucast prot) (MAP_ANONYMOUS OR MAP_PRIVATE OR ucast flags) s) (\<lambda>(p, s1).
        if p = 0 then Inr (0, s1)
        else if flags AND MAP_LAZY \<noteq> 0 then Inr (vaddr, s1)
        else mmap_populate vaddr len1 (ucast prot) s1))"

definition do_munmap :: "u64 \<Rightarrow> u64 \<Rightarrow> uspace \<Rightarrow> (int \<times> uspace) res" where
  "do_munmap addr0 len s =
     (if us_pml4 s = 0 then Inr (- 1, s)
      else let len1 = (len + (PAGE_SIZE - 1)) AND NOT (PAGE_SIZE - 1) in
      if len1 = 0 then Inr (- 1, s)
      else let addr = addr0 AND NOT (PAGE_SIZE - 1) in
      if len1 > - 1 - addr then Inr (- 1, s)
      else case vma_find addr s of
        None \<Rightarrow> Inr (- 1, s)
      | Some (p, v) \<Rightarrow>
          if vm_start v \<noteq> addr \<or> vm_end v \<noteq> addr + len1 then Inr (- 1, s)
          else bind_res (unmap_pages (us_pml4 s) addr (unat len1 div 4096) (us_mach s)) (\<lambda>m.
            vma_free addr len1 (set_mach m s)))"

section \<open>Demand paging\<close>

definition page_fault_demand :: "u64 \<Rightarrow> uspace \<Rightarrow> (int \<times> uspace) res" where
  "page_fault_demand addr s =
     (let vaddr = addr AND NOT 4095 in
      if vmm_is_mapped (us_pml4 s) vaddr (us_mach s) then Inr (0, s)
      else let (phys, m1) = alloc_page (us_mach s) in
      if phys = 0 then Inr (- 1, set_mach m1 s)
      else let flags = (case vma_find vaddr s of None \<Rightarrow> PTE_PRESENT OR PTE_USER | Some (_, v) \<Rightarrow> pte_flags (vm_prot v)) in
        bind_res (vmm_map_user (us_pml4 s) vaddr phys flags m1) (\<lambda>(r, m2).
          if r \<noteq> 0 then bind_res (free_page phys m2) (\<lambda>m3. Inr (- 1, set_mach m3 s))
          else Inr (0, set_mach m2 s)))"

text \<open>
  The outcome of a page fault: the faulting instruction is repeated, the thread is
  killed for a reason, or the general exception handler takes over.
\<close>

datatype fault_outcome = Resume | Kill string | Exception

text \<open>
  \<open>cur\<close> is the current thread: \<open>None\<close> if there is none, otherwise whether it is a user thread.
\<close>

definition page_fault_handler :: "bool option \<Rightarrow> u64 \<Rightarrow> u64 \<Rightarrow> uspace \<Rightarrow> (fault_outcome \<times> uspace) res" where
  "page_fault_handler cur cr2 ec s =
     (if ec AND 4 = 0 then Inr (Exception, s)
      else case cur of None \<Rightarrow> Inr (Exception, s) | Some is_user \<Rightarrow>
      if \<not> is_user \<or> us_vmas s = [] then Inr (Kill ''kernel thread / no VMA'', s)
      else case vma_find cr2 s of
        None \<Rightarrow> Inr (Kill ''address not in any VMA'', s)
      | Some v \<Rightarrow>
          if ec AND 1 = 0 then
            bind_res (page_fault_demand cr2 s) (\<lambda>(r, s1).
              Inr (if r \<noteq> 0 then Kill ''demand paging OOM'' else Resume, s1))
          else if ec AND 8 \<noteq> 0 then Inr (Kill ''reserved bit violation'', s)
          else Inr (Kill ''protection violation'', s))"

section \<open>Regions stay apart\<close>

definition region_ok :: "vma \<Rightarrow> bool" where
  "region_ok v \<longleftrightarrow> page_aligned (vm_start v) \<and> page_aligned (vm_end v) \<and> vm_start v < vm_end v \<and>
     USER_MMAP_BASE \<le> vm_start v \<and> vm_end v \<le> USER_MMAP_END"

definition before :: "u64 \<times> vma \<Rightarrow> u64 \<times> vma \<Rightarrow> bool" where
  "before v w \<longleftrightarrow> vm_end (snd v) \<le> vm_start (snd w)"

definition vmas_ok :: "(u64 \<times> vma) list \<Rightarrow> bool" where
  "vmas_ok vs \<longleftrightarrow> (\<forall>v\<in>set vs. region_ok (snd v)) \<and> sorted_wrt before vs"

text \<open>A range that a search returned, between the regions on its left and on its right.\<close>

definition fits :: "u64 \<Rightarrow> u64 \<Rightarrow> (u64 \<times> vma) list \<Rightarrow> bool" where
  "fits r len vs \<longleftrightarrow> (\<exists>ls rs. vs = ls @ rs \<and> (\<forall>v\<in>set ls. vm_end (snd v) \<le> r) \<and> (\<forall>v\<in>set rs. r + len \<le> vm_start (snd v)))"

lemma find_free_loop_fits:
  assumes "vmas_ok (ls @ vs)" "\<forall>v\<in>set ls. vm_end (snd v) \<le> cursor" "USER_MMAP_BASE \<le> cursor" "page_aligned cursor"
    "r = find_free_loop len vs cursor" "r \<noteq> 0" "\<not> r > - 1 - len" "\<forall>v\<in>set vs. cursor \<le> vm_start (snd v)"
  shows "fits r len (ls @ vs) \<and> USER_MMAP_BASE \<le> r \<and> page_aligned r \<and> r + len \<le> USER_MMAP_END"
  using assms
proof (induction vs arbitrary: ls cursor)
  case Nil
  then have "r = cursor \<and> cursor + len \<le> USER_MMAP_END" by (auto split: if_splits)
  moreover have "fits cursor len (ls @ [])" unfolding fits_def using Nil.prems(2) by (intro exI [of _ ls] exI [of _ "[]"]) auto
  ultimately show ?case using Nil.prems by simp
next
  case (Cons v vs)
  show ?case
  proof (cases "cursor + len \<le> vm_start (snd v) \<and> cursor < USER_MMAP_END")
    case True
    have srt: "\<forall>w\<in>set vs. before v w" "region_ok (snd v)" using Cons.prems(1) by (auto simp: vmas_ok_def sorted_wrt_append)
    have "\<forall>w\<in>set (v # vs). cursor + len \<le> vm_start (snd w)"
      using srt True unfolding before_def region_ok_def by auto
    moreover have "cursor + len \<le> USER_MMAP_END" using srt(2) True unfolding region_ok_def by auto
    ultimately have "fits cursor len (ls @ v # vs)" unfolding fits_def using Cons.prems(2)
      by (intro exI [of _ ls] exI [of _ "v # vs"]) auto
    then show ?thesis using True \<open>cursor + len \<le> USER_MMAP_END\<close> Cons.prems(3-5) by simp
  next
    case False
    let ?c = "vm_end (snd v)"
    have srt: "\<forall>w\<in>set vs. before v w" "region_ok (snd v)" "\<forall>u\<in>set ls. before u v"
      using Cons.prems(1) by (auto simp: vmas_ok_def sorted_wrt_append)
    have r: "r = find_free_loop len vs ?c" using Cons.prems(5,6) False by (auto split: if_splits)
    have "\<forall>u\<in>set (ls @ [v]). vm_end (snd u) \<le> ?c" using srt(2,3) unfolding before_def region_ok_def by fastforce
    moreover have "USER_MMAP_BASE \<le> ?c" "page_aligned ?c" using srt(2) unfolding region_ok_def by auto
    moreover have "\<forall>w\<in>set vs. ?c \<le> vm_start (snd w)" using srt(1) by (simp add: before_def)
    ultimately show ?thesis using Cons.IH [of "ls @ [v]" ?c] r Cons.prems(1,6,7) by simp
  qed
qed

lemma insert_vma_split:
  assumes "\<forall>v\<in>set ls. vm_start (snd v) < vm_start (snd n)" "\<forall>v\<in>set rs. vm_start (snd n) \<le> vm_start (snd v)"
  shows "insert_vma n (ls @ rs) = ls @ n # rs"
proof -
  have "insert_vma n rs = n # rs" using assms(2) by (cases rs) auto
  then show ?thesis using assms(1) by (induction ls) auto
qed

lemma unlink_vma_split:
  assumes "\<forall>v\<in>set ls. vm_start (snd v) \<noteq> start" "vm_start (snd n) = start" "vm_end (snd n) = fin"
  shows "unlink_vma start fin (ls @ n # rs) = Some (fst n, ls @ rs)"
  using assms by (induction ls) auto

lemma unlink_vma_Some:
  assumes "unlink_vma start fin vs = Some (p, ws)"
  obtains ls v rs where "vs = ls @ (p, v) # rs" "ws = ls @ rs" "vm_start v = start" "vm_end v = fin"
  using assms
proof (induction vs arbitrary: ws thesis)
  case (Cons x vs)
  show ?case
  proof (cases "vm_start (snd x) = start \<and> vm_end (snd x) = fin")
    case True
    then show ?thesis using Cons.prems(1) [of "[]" "snd x" vs] Cons.prems(2) by auto
  next
    case False
    then obtain us where us: "unlink_vma start fin vs = Some (p, us)" "ws = x # us"
      using Cons.prems(2) by (auto split: option.splits)
    obtain ls v rs where "vs = ls @ (p, v) # rs" "us = ls @ rs" "vm_start v = start" "vm_end v = fin"
      using Cons.IH [OF _ us(1)] by blast
    then show ?thesis using Cons.prems(1) [of "x # ls" v rs] us(2) by simp
  qed
qed simp

text \<open>The new region goes between its neighbours, and taking it out again restores the list.\<close>

lemma insert_fits:
  assumes ok: "vmas_ok vs" "fits r len vs" and v: "vm_start v = r" "vm_end v = r + len" "region_ok v"
  shows "vmas_ok (insert_vma (p, v) vs)" "set (insert_vma (p, v) vs) = insert (p, v) (set vs)"
    "\<forall>w\<in>set vs. before w (p, v) \<or> before (p, v) w" "unlink_vma r (r + len) (insert_vma (p, v) vs) = Some (p, vs)"
proof -
  obtain ls rs where s: "vs = ls @ rs" "\<forall>v\<in>set ls. vm_end (snd v) \<le> r" "\<forall>v\<in>set rs. r + len \<le> vm_start (snd v)"
    using ok(2) by (auto simp: fits_def)
  have less: "vm_start (snd w) < r" if "w \<in> set ls" for w
    using that s(1,2) ok(1) unfolding vmas_ok_def region_ok_def by (metis UnI1 order_less_le_trans set_append)
  have le: "r \<le> vm_start (snd w)" if "w \<in> set rs" for w
    using that s(3) v unfolding region_ok_def by (metis order_less_imp_le order_trans)
  have i: "insert_vma (p, v) vs = ls @ (p, v) # rs" unfolding s(1) using less le v(1) by (intro insert_vma_split) auto
  show "set (insert_vma (p, v) vs) = insert (p, v) (set vs)" unfolding i unfolding s(1) by auto
  show "vmas_ok (insert_vma (p, v) vs)"
    using ok(1) s(2,3) v unfolding i unfolding s(1) by (auto simp: vmas_ok_def sorted_wrt_append before_def)
  show "\<forall>w\<in>set vs. before w (p, v) \<or> before (p, v) w" using s v by (auto simp: before_def)
  have "\<forall>w\<in>set ls. vm_start (snd w) \<noteq> r" using less by fastforce
  then show "unlink_vma r (r + len) (insert_vma (p, v) vs) = Some (p, vs)"
    unfolding i unfolding s(1) using unlink_vma_split [of ls r "(p, v)" "r + len" rs] v by simp
qed


text \<open>The search finds the lowest address at which a range fits, if there is one.\<close>

definition free_at :: "u64 \<Rightarrow> u64 \<Rightarrow> (u64 \<times> vma) list \<Rightarrow> bool" where
  "free_at a len vs \<longleftrightarrow> (\<forall>v\<in>set vs. vm_end (snd v) \<le> a \<or> a + len \<le> vm_start (snd v))"

lemma fits_free_at: "fits a len vs \<Longrightarrow> free_at a len vs"
  unfolding fits_def free_at_def by (metis Un_iff set_append)

lemma nowrap_iff: "b \<le> - 1 - len \<longleftrightarrow> unat b + unat len < 18446744073709551616" for b len :: u64
proof -
  have "unat (- 1 - len) = unat (- 1 :: u64) - unat len" by (rule unat_sub) simp
  moreover have "unat (- 1 :: u64) = 18446744073709551615" by (simp add: unsigned_minus_1_eq_mask mask_eq_exp_minus_1)
  ultimately show ?thesis using unsigned_less [of len, where ?'a = nat] by (auto simp: word_le_nat_alt)
qed

lemma add_le_nowrap:
  fixes a b len :: u64
  assumes "a \<le> b" "b \<le> - 1 - len"
  shows "a + len \<le> b + len" "b \<le> b + len"
proof -
  have "unat b + unat len < 18446744073709551616" using nowrap_iff assms(2) by blast
  then show "a + len \<le> b + len" "b \<le> b + len" using assms(1) by (simp_all add: word_le_nat_alt unat_word_ariths)
qed

lemma find_free_loop_first:
  assumes "\<forall>v\<in>set vs. region_ok (snd v)" "free_at a len vs" "a \<le> - 1 - len" "a + len \<le> USER_MMAP_END" "0 < len"
    "USER_MMAP_BASE \<le> cursor" "cursor \<le> a"
  shows "find_free_loop len vs cursor \<noteq> 0 \<and> find_free_loop len vs cursor \<le> a"
  using assms
proof (induction vs arbitrary: cursor)
  case Nil
  then show ?case using add_le_nowrap(1) [of cursor a len] by auto
next
  case (Cons v vs)
  have a: "a < USER_MMAP_END"
    using Cons.prems(3-5) unfolding nowrap_iff by (auto simp: word_le_nat_alt word_less_nat_alt unat_word_ariths)
  show ?case
  proof (cases "cursor + len \<le> vm_start (snd v) \<and> cursor < USER_MMAP_END")
    case True
    then show ?thesis using Cons.prems by auto
  next
    case False
    then have "\<not> a + len \<le> vm_start (snd v)" using add_le_nowrap(1) [of cursor a len] Cons.prems(3,7) a by auto
    then have v: "vm_end (snd v) \<le> a" using Cons.prems(2) by (auto simp: free_at_def)
    moreover have "USER_MMAP_BASE \<le> vm_end (snd v)" using Cons.prems(1) by (auto simp: region_ok_def)
    moreover have "free_at a len vs" using Cons.prems(2) by (simp add: free_at_def)
    ultimately show ?thesis using Cons.IH [of "vm_end (snd v)"] Cons.prems False a by auto
  qed
qed

section \<open>The regions after each system call\<close>

abbreviation round_page :: "u64 \<Rightarrow> u64" where
  "round_page len \<equiv> (len + (PAGE_SIZE - 1)) AND NOT (PAGE_SIZE - 1)"

lemma page_mask_12: "(PAGE_SIZE - 1 :: u64) = mask 12"
  by (simp add: mask_eq_exp_minus_1)

lemma page_aligned_unat: "page_aligned a \<longleftrightarrow> unat a mod 4096 = 0"
  by (simp add: page_aligned_def word_unat_eq_iff unat_mod)

lemma round_page_aligned: "page_aligned (round_page len)"
  unfolding page_mask_12 page_aligned_unat unat_and_not_mask by (simp add: minus_mod_eq_mult_div)

lemma round_page_id:
  assumes "page_aligned len"
  shows "round_page len = len"
proof -
  obtain k where k: "unat len = 4096 * k" using assms unfolding page_aligned_unat by auto
  then have "k < 4503599627370496" using unsigned_less [of len, where ?'a = nat] by simp
  then have "unat len + 4095 < 18446744073709551616" using k by simp
  then have "unat (len + mask 12) = unat len + 4095" by (simp add: unat_word_ariths mask_eq_exp_minus_1)
  then have "unat ((len + mask 12) AND NOT (mask 12)) = unat len" unfolding unat_and_not_mask using k by simp
  then show ?thesis unfolding page_mask_12 by (simp only: word_unat_eq_iff)
qed

lemma vma_find_free_fits:
  assumes "vmas_ok (us_vmas s)" "page_aligned len" "vma_find_free len s = r" "r \<noteq> 0" "\<not> r > - 1 - len"
  shows "fits r len (us_vmas s)" "USER_MMAP_BASE \<le> r" "page_aligned r" "r + len \<le> USER_MMAP_END"
proof -
  have "r = find_free_loop len (us_vmas s) USER_MMAP_BASE" using assms(2,3) round_page_id by (simp add: vma_find_free_def)
  moreover have "\<forall>v\<in>set (us_vmas s). USER_MMAP_BASE \<le> vm_start (snd v)" using assms(1) by (simp add: vmas_ok_def region_ok_def)
  moreover have "page_aligned USER_MMAP_BASE" by (simp add: page_aligned_def)
  ultimately show "fits r len (us_vmas s)" "USER_MMAP_BASE \<le> r" "page_aligned r" "r + len \<le> USER_MMAP_END"
    using find_free_loop_fits [of "[]" "us_vmas s" USER_MMAP_BASE r len] assms(1,4,5) by simp_all
qed

lemma vma_alloc_Inr:
  assumes "vma_alloc tid a b prot flags s = Inr (p, s1)"
  shows "us_pml4 s1 = us_pml4 s"
    "us_vmas s1 = (if p = 0 then us_vmas s else insert_vma (p, \<lparr>vm_start = a, vm_end = b, vm_prot = prot, vm_flags = flags\<rparr>) (us_vmas s))"
proof -
  obtain h where "kmalloc tid VMA_SIZE (us_heap s) = Inr (p, h)" using assms by (auto simp: vma_alloc_def Let_def bind_res_Inr_iff split: if_splits)
  then show "us_pml4 s1 = us_pml4 s"
    "us_vmas s1 = (if p = 0 then us_vmas s else insert_vma (p, \<lparr>vm_start = a, vm_end = b, vm_prot = prot, vm_flags = flags\<rparr>) (us_vmas s))"
    using assms by (cases "p = 0"; auto simp: vma_alloc_def)+
qed

definition regions_without :: "u64 \<Rightarrow> u64 \<Rightarrow> (u64 \<times> vma) list \<Rightarrow> (u64 \<times> vma) list" where
  "regions_without a b vs = (case unlink_vma a b vs of None \<Rightarrow> vs | Some (p, ws) \<Rightarrow> ws)"

lemma vma_free_Inr:
  assumes "vma_free a len s = Inr (r, s')"
  shows "us_pml4 s' = us_pml4 s"
    "us_vmas s' = regions_without a (a + len) (us_vmas s)"
    "r = (case unlink_vma a (a + len) (us_vmas s) of None \<Rightarrow> - 1 | Some _ \<Rightarrow> 0)"
  using assms by (auto simp: vma_free_def regions_without_def bind_res_Inr_iff split: option.splits)

lemma set_mach_fields [simp]:
  "us_pml4 (set_mach m s) = us_pml4 s" "us_vmas (set_mach m s) = us_vmas s" "us_mach (set_mach m s) = m"
  "us_heap (set_mach m s) = (us_heap s)\<lparr>kh_mach := m\<rparr>"
  by (simp_all add: set_mach_def)

lemma mmap_populate_Inr:
  assumes "mmap_populate a len prot s = Inr (r, s')"
  shows "us_pml4 s' = us_pml4 s \<and>
    (r = a \<and> us_vmas s' = us_vmas s \<or> r = 0 \<and> us_vmas s' = regions_without a (a + len) (us_vmas s))"
proof -
  obtain ok k m where m: "map_pages (us_pml4 s) (pte_flags prot) (unat len div 4096) a (us_mach s) = Inr (ok, k, m)"
    using assms by (auto simp: mmap_populate_def bind_res_Inr_iff)
  show ?thesis
  proof (cases ok)
    case True
    then show ?thesis using assms m by (auto simp: mmap_populate_def)
  next
    case False
    then obtain m1 j where "unmap_pages (us_pml4 s) a k m = Inr m1" "vma_free a len (set_mach m1 s) = Inr (j, s')" "r = 0"
      using assms m by (auto simp: mmap_populate_def bind_res_Inr_iff)
    then show ?thesis using vma_free_Inr(1,2) [of a len "set_mach m1 s" j s'] by simp
  qed
qed

text \<open>
  A call either fails without touching the regions, or reserves a range; backing it may
  then still fail, after which the region is taken out again.
\<close>

lemma do_mmap_reserves:
  assumes "do_mmap tid len prot flags s = Inr (r, s')" "us_vmas s' \<noteq> us_vmas s \<or> r \<noteq> 0"
  defines "l \<equiv> round_page len" and "a \<equiv> vma_find_free (round_page len) s"
  shows "\<exists>p v. len \<le> - 1 - (PAGE_SIZE - 1) \<and> l \<noteq> 0 \<and> a \<noteq> 0 \<and> \<not> a > - 1 - l \<and> p \<noteq> 0 \<and>
    vm_start v = a \<and> vm_end v = a + l \<and> vm_prot v = ucast prot \<and>
    (r = a \<and> us_vmas s' = insert_vma (p, v) (us_vmas s) \<or>
     r = 0 \<and> us_vmas s' = regions_without a (a + l) (insert_vma (p, v) (us_vmas s)))"
proof -
  have g: "us_pml4 s \<noteq> 0" "\<not> len > - 1 - (PAGE_SIZE - 1)" "l \<noteq> 0" "a \<noteq> 0" "\<not> a > - 1 - l"
    using assms(1,2) unfolding l_def a_def do_mmap_def Let_def by (metis (no_types, lifting) Inr_inject prod.inject)+
  let ?f = "MAP_ANONYMOUS OR MAP_PRIVATE OR ucast flags :: u32"
  obtain p s1 where al: "vma_alloc tid a (a + l) (ucast prot) ?f s = Inr (p, s1)"
    and rest: "(if p = 0 then Inr (0, s1) else if flags AND MAP_LAZY \<noteq> 0 then Inr (a, s1)
        else mmap_populate a l (ucast prot) s1) = Inr (r, s')"
    using assms(1) g unfolding l_def a_def do_mmap_def Let_def by (auto simp: bind_res_Inr_iff)
  note i = vma_alloc_Inr(2) [OF al]
  have p: "p \<noteq> 0" using rest i assms(2) by (auto split: if_splits)
  have "r = a \<and> us_vmas s' = us_vmas s1 \<or> r = 0 \<and> us_vmas s' = regions_without a (a + l) (us_vmas s1)"
    using rest p mmap_populate_Inr [of a l "ucast prot" s1 r s'] by (auto split: if_splits)
  then show ?thesis using g p i
    by (intro exI [of _ p] exI [of _ "\<lparr>vm_start = a, vm_end = a + l, vm_prot = ucast prot, vm_flags = ?f\<rparr>"]) auto
qed

lemma round_page_le:
  assumes "len \<le> - 1 - (PAGE_SIZE - 1)"
  shows "unat (round_page len) = (unat len + 4095) div 4096 * 4096" "len \<le> round_page len"
proof -
  have "unat len + 4095 < 18446744073709551616" using assms unfolding nowrap_iff by simp
  from align_up_page [OF this] show e: "unat (round_page len) = (unat len + 4095) div 4096 * 4096" by (simp only: add_diff_eq)
  have "unat len \<le> (unat len + 4095) div 4096 * 4096"
    using div_mult_mod_eq [of "unat len + 4095" 4096] mod_less_divisor [of 4096 "unat len + 4095"] by linarith
  then show "len \<le> round_page len" unfolding word_le_nat_alt e .
qed

lemma page_aligned_sum: "page_aligned a \<Longrightarrow> page_aligned b \<Longrightarrow> page_aligned (a + b)"
  unfolding page_aligned_unat by (simp add: unat_word_ariths mod_mod_cancel mod_eq_0_iff_dvd dvd_add)

lemma new_region:
  assumes "vmas_ok (us_vmas s)" "len \<le> - 1 - (PAGE_SIZE - 1)" "round_page len \<noteq> 0"
    "a = vma_find_free (round_page len) s" "a \<noteq> 0" "\<not> a > - 1 - round_page len"
    "vm_start v = a" "vm_end v = a + round_page len"
  shows "region_ok v" "fits a (round_page len) (us_vmas s)"
proof -
  note f = vma_find_free_fits [OF assms(1) round_page_aligned assms(4) [symmetric] assms(5,6)]
  show "fits a (round_page len) (us_vmas s)" by (rule f(1))
  have nw: "unat a + unat (round_page len) < 18446744073709551616" using assms(6) nowrap_iff by (simp add: not_less)
  have "unat (round_page len) \<noteq> 0" using assms(3) by (simp only: unat_eq_0 not_False_eq_True)
  then have "a < a + round_page len" unfolding word_less_nat_alt using nw by (simp only: unat_word_ariths) simp
  then show "region_ok v" unfolding region_ok_def assms(7,8) using f(2-4) page_aligned_sum [OF f(3) round_page_aligned] by blast
qed

section \<open>Properties of the region list\<close>

text \<open>
  (C13) The region list stays well formed: sorted, without overlaps, every region page
  aligned, not empty and inside the area reserved for mappings.  A failed \<open>do_mmap\<close>
  (also one that fails half way through backing the region) leaves the list as it was;
  a successful one adds one region at the returned address, whose length is the
  requested one rounded up to pages without wrapping around, and which overlaps no
  region that was there before.
\<close>
theorem mmap_regions:
  assumes "vmas_ok (us_vmas s)" "do_mmap tid len prot flags s = Inr (r, s')"
  shows "vmas_ok (us_vmas s') \<and>
    (if r = 0 then us_vmas s' = us_vmas s
     else \<exists>p v. set (us_vmas s') = insert (p, v) (set (us_vmas s)) \<and> vm_start v = r \<and> vm_prot v = ucast prot \<and>
       0 < len \<and> unat (vm_end v) = unat r + (unat len + 4095) div 4096 * 4096 \<and>
       (\<forall>w\<in>set (us_vmas s). vm_end (snd w) \<le> vm_start v \<or> vm_end v \<le> vm_start (snd w)))"
proof (cases "us_vmas s' \<noteq> us_vmas s \<or> r \<noteq> 0")
  case False
  then show ?thesis using assms(1) by simp
next
  case True
  define l where "l = round_page len"
  define a where "a = vma_find_free l s"
  obtain p v where v: "len \<le> - 1 - (PAGE_SIZE - 1)" "l \<noteq> 0" "a \<noteq> 0" "\<not> a > - 1 - l"
    "vm_start v = a" "vm_end v = a + l" "vm_prot v = ucast prot"
    "r = a \<and> us_vmas s' = insert_vma (p, v) (us_vmas s) \<or>
     r = 0 \<and> us_vmas s' = regions_without a (a + l) (insert_vma (p, v) (us_vmas s))"
    using do_mmap_reserves [OF assms(2) True] unfolding l_def a_def by (elim exE conjE)
  note n = new_region [OF assms(1) v(1) v(2) [unfolded l_def] a_def [unfolded l_def] v(3) v(4) [unfolded l_def] v(5) v(6) [unfolded l_def]]
  note i = insert_fits [OF assms(1) n(2) v(5) v(6) [unfolded l_def] n(1), folded l_def]
  show ?thesis
  proof (cases "r = 0")
    case True
    then show ?thesis using v(3,8) i(4) assms(1) by (auto simp: regions_without_def)
  next
    case False
    have "unat (a + l) = unat a + unat l" using v(4) nowrap_iff [of a l] by (simp add: not_less unat_word_ariths)
    moreover have "0 < len" using v(2) unfolding l_def by (cases "len = 0") (simp_all add: word_gt_0)
    ultimately show ?thesis using False v i round_page_le(1) [OF v(1), folded l_def]
      by (auto simp: before_def intro!: exI [of _ p] exI [of _ v])
  qed
qed

lemma vma_alloc_total:
  assumes "heap_ok (us_heap s)"
  shows "\<exists>p s1. vma_alloc tid a b prot flags s = Inr (p, s1) \<and> heap_ok (us_heap s1) \<and>
    fst (projr (kmalloc tid VMA_SIZE (us_heap s))) = p \<and>
    (if p = 0 then heap_blocks (us_heap s1) = heap_blocks (us_heap s)
     else p \<notin> dom (heap_blocks (us_heap s)) \<and> dom (heap_blocks (us_heap s1)) = insert p (dom (heap_blocks (us_heap s))) \<and>
       heap_blocks (us_heap s1) |` (- {p}) = heap_blocks (us_heap s))"
proof -
  obtain p h where k: "kmalloc tid VMA_SIZE (us_heap s) = Inr (p, h)" "heap_ok h"
    "if p = 0 then heap_blocks h = heap_blocks (us_heap s)
     else heap_blocks (us_heap s) p = None \<and> (\<exists>c. unat (32 :: u64) \<le> c \<and> heap_blocks h = (heap_blocks (us_heap s))(p \<mapsto> c))"
    using kh.alloc_spec [OF assms, of tid VMA_SIZE] by (elim exE conjE)
  show ?thesis
  proof (cases "p = 0")
    case True
    then show ?thesis using k by (simp add: vma_alloc_def)
  next
    case False
    then obtain c where c: "heap_blocks (us_heap s) p = None" "heap_blocks h = (heap_blocks (us_heap s))(p \<mapsto> c)" using k(3) by auto
    then have "heap_blocks h |` (- {p}) = heap_blocks (us_heap s)" by (auto simp: restrict_map_def fun_eq_iff)
    then show ?thesis using False k(1,2) c by (auto simp: vma_alloc_def Let_def)
  qed
qed

text \<open>A range of \<open>n\<close> bytes from \<open>a\<close> on that lies in the mapping area and overlaps no region.\<close>

definition free_range :: "nat \<Rightarrow> u64 \<Rightarrow> (u64 \<times> vma) list \<Rightarrow> bool" where
  "free_range n a vs \<longleftrightarrow> USER_MMAP_BASE \<le> a \<and> unat a + n \<le> unat USER_MMAP_END \<and>
     (\<forall>v\<in>set vs. unat (vm_end (snd v)) \<le> unat a \<or> unat a + n \<le> unat (vm_start (snd v)))"

lemma free_range_at:
  assumes "USER_MMAP_BASE \<le> a" "\<not> a > - 1 - l" "a + l \<le> USER_MMAP_END"
  shows "free_range (unat l) a vs \<longleftrightarrow> free_at a l vs"
proof -
  have "unat (a + l) = unat a + unat l" using assms(2) nowrap_iff [of a l] by (simp add: not_less unat_word_ariths)
  then show ?thesis using assms(1,3) by (simp add: free_range_def free_at_def word_le_nat_alt)
qed

lemma free_range_word:
  assumes "free_range (unat l) a vs"
  shows "USER_MMAP_BASE \<le> a" "a \<le> - 1 - l" "a + l \<le> USER_MMAP_END" "free_at a l vs"
proof -
  show 1: "USER_MMAP_BASE \<le> a" and 2: "a \<le> - 1 - l" using assms by (auto simp: free_range_def nowrap_iff)
  then have "unat (a + l) = unat a + unat l" using nowrap_iff [of a l] by (simp add: unat_word_ariths)
  then show 3: "a + l \<le> USER_MMAP_END" using assms by (simp add: free_range_def word_le_nat_alt)
  show "free_at a l vs" using assms free_range_at [OF 1 _ 3] 2 by simp
qed

lemma vma_find_free_first:
  assumes "vmas_ok (us_vmas s)" "page_aligned l" "l \<noteq> 0" "free_range (unat l) a (us_vmas s)"
  shows "vma_find_free l s \<noteq> 0 \<and> vma_find_free l s \<le> a"
proof -
  have "vma_find_free l s = find_free_loop l (us_vmas s) USER_MMAP_BASE" using assms(2) round_page_id by (simp add: vma_find_free_def)
  then show ?thesis using find_free_loop_first [of "us_vmas s" a l USER_MMAP_BASE] free_range_word [OF assms(4)] assms(1,3)
    by (simp add: vmas_ok_def word_gt_0)
qed

text \<open>
  A reservation that is backed on demand (\<open>MAP_LAZY\<close>) always returns.  The result is
  the lowest address at which the rounded length fits between the regions, and it is 0
  only when the length does not fit anywhere or the heap has no room for the node.
\<close>
theorem mmap_lazy_first_fit:
  assumes "vmas_ok (us_vmas s)" "heap_ok (us_heap s)" "us_pml4 s \<noteq> 0" "flags AND MAP_LAZY \<noteq> 0" "0 < len"
  defines "n \<equiv> (unat len + 4095) div 4096 * 4096"
  shows "\<exists>r s'. do_mmap tid len prot flags s = Inr (r, s') \<and> heap_ok (us_heap s') \<and>
    (if r = 0 then (\<forall>a. \<not> free_range n a (us_vmas s)) \<or> fst (projr (kmalloc tid VMA_SIZE (us_heap s))) = 0
     else free_range n r (us_vmas s) \<and> (\<forall>a. free_range n a (us_vmas s) \<longrightarrow> r \<le> a))"
proof (cases "len > - 1 - (PAGE_SIZE - 1)")
  case True
  then have "18446744073709551616 \<le> n" using nowrap_iff [of len "PAGE_SIZE - 1"] unfolding n_def by (simp add: not_less [symmetric])
  then have "\<not> free_range n a (us_vmas s)" for a by (simp add: free_range_def)
  then show ?thesis using True assms(2,3) by (simp add: do_mmap_def)
next
  case False
  define l where "l = round_page len"
  define a where "a = vma_find_free l s"
  have n: "unat l = n" using round_page_le(1) [of len] False unfolding l_def n_def by (simp add: not_less)
  have "0 < unat len" using assms(5) by (simp add: word_less_nat_alt)
  then have "0 < n" unfolding n_def by (simp add: div_greater_zero_iff)
  then have l: "l \<noteq> 0" using n by auto
  have first: "free_range n x (us_vmas s) \<Longrightarrow> a \<noteq> 0 \<and> a \<le> x" for x
    using vma_find_free_first [OF assms(1) _ l, of x] round_page_aligned n unfolding a_def l_def by simp
  obtain p s1 where al: "vma_alloc tid a (a + l) (ucast prot) (MAP_ANONYMOUS OR MAP_PRIVATE OR ucast flags) s = Inr (p, s1)"
    "heap_ok (us_heap s1)" "fst (projr (kmalloc tid VMA_SIZE (us_heap s))) = p" using vma_alloc_total [OF assms(2)] by metis
  show ?thesis
  proof (cases "a = 0 \<or> a > - 1 - l")
    case True
    have "\<not> free_range n x (us_vmas s)" for x
    proof
      assume x: "free_range n x (us_vmas s)"
      have "x \<le> - 1 - l" using free_range_word(2) [of l x] x n by simp
      then show False using first [OF x] True by auto
    qed
    moreover have "do_mmap tid len prot flags s = Inr (0, s)"
      using True False assms(3) l unfolding do_mmap_def Let_def a_def l_def by auto
    ultimately show ?thesis using assms(2) by auto
  next
    case ok: False
    then have r: "do_mmap tid len prot flags s = Inr (if p = 0 then 0 else a, s1)"
      using al(1) False assms(3,4) l unfolding do_mmap_def Let_def a_def l_def by auto
    note f = vma_find_free_fits [OF assms(1) round_page_aligned refl, of len, folded l_def, folded a_def]
    have "free_range n a (us_vmas s)"
      using f ok free_range_at [of a l "us_vmas s"] fits_free_at [of a l "us_vmas s"] n by auto
    then show ?thesis using r al first ok by auto
  qed
qed

section \<open>The nodes of the regions\<close>

text \<open>The nodes are distinct live blocks of the heap.\<close>

definition nodes_ok :: "uspace \<Rightarrow> bool" where
  "nodes_ok s \<longleftrightarrow> heap_ok (us_heap s) \<and> distinct (map fst (us_vmas s)) \<and>
     fst ` set (us_vmas s) \<subseteq> dom (heap_blocks (us_heap s)) - {0}"

inductive region_step :: "uspace \<Rightarrow> uspace \<Rightarrow> bool" where
  alloc: "vma_alloc tid a b prot flags s = Inr (p, s') \<Longrightarrow> region_step s s'"
| free: "vma_free a len s = Inr (r, s') \<Longrightarrow> region_step s s'"

text \<open>The blocks of the heap that are not nodes.\<close>

definition other_blocks :: "uspace \<Rightarrow> u64 \<Rightarrow> nat option" where
  "other_blocks s = heap_blocks (us_heap s) |` (- fst ` set (us_vmas s))"

lemma insert_vma_mset: "mset (insert_vma n vs) = add_mset n (mset vs)"
  by (induction vs) auto

lemma insert_vma_nodes:
  "set (insert_vma n vs) = insert n (set vs)" "distinct (map fst (insert_vma n vs)) \<longleftrightarrow> fst n \<notin> fst ` set vs \<and> distinct (map fst vs)"
proof -
  show "set (insert_vma n vs) = insert n (set vs)" using arg_cong [OF insert_vma_mset, of set_mset] by simp
  have "mset (map fst (insert_vma n vs)) = mset (map fst (n # vs))" by (simp add: insert_vma_mset)
  then have "distinct (map fst (insert_vma n vs)) = distinct (map fst (n # vs))" by (rule mset_eq_imp_distinct_iff)
  then show "distinct (map fst (insert_vma n vs)) \<longleftrightarrow> fst n \<notin> fst ` set vs \<and> distinct (map fst vs)" by auto
qed

lemma alloc_nodes:
  assumes "nodes_ok s"
  shows "\<exists>p s'. vma_alloc tid a b prot flags s = Inr (p, s') \<and> nodes_ok s' \<and> other_blocks s' = other_blocks s"
proof -
  have ok: "heap_ok (us_heap s)" using assms by (simp add: nodes_ok_def)
  obtain p s' where al: "vma_alloc tid a b prot flags s = Inr (p, s')" "heap_ok (us_heap s')"
    "if p = 0 then heap_blocks (us_heap s') = heap_blocks (us_heap s)
     else p \<notin> dom (heap_blocks (us_heap s)) \<and> dom (heap_blocks (us_heap s')) = insert p (dom (heap_blocks (us_heap s))) \<and>
       heap_blocks (us_heap s') |` (- {p}) = heap_blocks (us_heap s)"
    using vma_alloc_total [OF ok, of tid a b prot flags] by (elim exE conjE)
  note i = vma_alloc_Inr(2) [OF al(1)]
  show ?thesis
  proof (cases "p = 0")
    case True
    then show ?thesis using al i assms by (simp add: nodes_ok_def other_blocks_def)
  next
    case False
    have eq: "heap_blocks (us_heap s') q = heap_blocks (us_heap s) q" if "q \<noteq> p" for q
    proof -
      have "heap_blocks (us_heap s') |` (- {p}) = heap_blocks (us_heap s)" using al(3) False by simp
      from fun_cong [OF this, of q] that show ?thesis by simp
    qed
    have none: "heap_blocks (us_heap s) p = None" using al(3) False by auto
    have "nodes_ok s'" using assms al i False by (auto simp: nodes_ok_def insert_vma_nodes)
    moreover have "other_blocks s' = other_blocks s"
      using eq none i False by (auto simp: other_blocks_def restrict_map_def insert_vma_nodes fun_eq_iff)
    ultimately show ?thesis using al(1) by blast
  qed
qed

lemma unlink_vma_Some_ex:
  "unlink_vma a b vs = Some (p, ws) \<Longrightarrow> \<exists>ls v rs. vs = ls @ (p, v) # rs \<and> ws = ls @ rs \<and> vm_start v = a \<and> vm_end v = b"
  by (metis unlink_vma_Some)

lemma free_nodes:
  assumes "nodes_ok s"
  shows "\<exists>r s'. vma_free a len s = Inr (r, s') \<and> nodes_ok s' \<and> other_blocks s' = other_blocks s"
proof (cases "unlink_vma a (a + len) (us_vmas s)")
  case None
  then show ?thesis using assms by (simp add: vma_free_def)
next
  case (Some pv)
  obtain p ws where pv: "pv = (p, ws)" by (cases pv)
  obtain ls v rs where l: "us_vmas s = ls @ (p, v) # rs" "ws = ls @ rs" using unlink_vma_Some_ex Some pv by metis
  have n: "heap_ok (us_heap s)" "distinct (map fst (us_vmas s))" "fst ` set (us_vmas s) \<subseteq> dom (heap_blocks (us_heap s)) - {0}"
    using assms by (auto simp: nodes_ok_def)
  have "p \<in> dom (heap_blocks (us_heap s))" using n(3) l(1) by auto
  then obtain h where h: "kfree p (us_heap s) = Inr h" "heap_ok h" "heap_blocks h = (heap_blocks (us_heap s))(p := None)"
    using kh.dealloc_spec [OF n(1), of p] by (elim exE conjE meta_impE)
  have r: "vma_free a len s = Inr (0, s\<lparr>us_vmas := ws, us_heap := h\<rparr>)" using Some pv h(1) by (simp add: vma_free_def)
  have fresh: "p \<notin> fst ` set ws" using n(2) l by auto
  have "nodes_ok (s\<lparr>us_vmas := ws, us_heap := h\<rparr>)" using n h(2,3) l fresh by (auto simp: nodes_ok_def)
  moreover have "other_blocks (s\<lparr>us_vmas := ws, us_heap := h\<rparr>) = other_blocks s"
    using h(3) l by (auto simp: other_blocks_def restrict_map_def fun_eq_iff)
  ultimately show ?thesis using r by blast
qed

lemma region_steps_nodes:
  assumes "region_step\<^sup>*\<^sup>* s s'" "nodes_ok s"
  shows "nodes_ok s' \<and> other_blocks s' = other_blocks s"
  using assms
proof (induction rule: rtranclp_induct)
  case (step t u)
  then have "nodes_ok t" by simp
  from step.hyps(2) have "nodes_ok u \<and> other_blocks u = other_blocks t"
  proof cases
    case (alloc tid a b prot flags p)
    then show ?thesis using alloc_nodes [OF \<open>nodes_ok t\<close>, of tid a b prot flags] by auto
  next
    case (free a len r)
    then show ?thesis using free_nodes [OF \<open>nodes_ok t\<close>, of a len] by auto
  qed
  then show ?case using step by simp
qed simp

lemma fold_kfree: "fold_res (\<lambda>v h. kfree (fst v) h) vs h = dealloc_all kfree (map fst vs) h"
  by (induction vs arbitrary: h) (simp_all add: bind_res_def split: sum.split)

text \<open>
  (C14) Nodes are neither leaked nor freed twice.  From a thread without regions, in any
  state that allocating and freeing regions in any order leads to, both operations and
  \<open>vma_destroy_all\<close> return without a panic, and after \<open>vma_destroy_all\<close> the heap
  is well formed with exactly the blocks it had at the start.
\<close>
theorem region_nodes_released:
  assumes "us_vmas s = []" "heap_ok (us_heap s)" "region_step\<^sup>*\<^sup>* s t"
  shows "(\<exists>q. vma_alloc tid a b prot flags t = Inr q) \<and> (\<exists>q. vma_free c len t = Inr q) \<and>
    (\<exists>u. vma_destroy_all t = Inr u \<and> us_vmas u = [] \<and> heap_ok (us_heap u) \<and> heap_blocks (us_heap u) = heap_blocks (us_heap s))"
proof -
  have "nodes_ok s" "other_blocks s = heap_blocks (us_heap s)" using assms(1,2) by (auto simp: nodes_ok_def other_blocks_def)
  then have t: "nodes_ok t" "other_blocks t = heap_blocks (us_heap s)" using region_steps_nodes [OF assms(3)] by auto
  let ?ps = "map fst (us_vmas t)"
  have n: "heap_ok (us_heap t)" "distinct (filter (\<lambda>p. p \<noteq> 0) ?ps)" "\<forall>p\<in>set ?ps. p \<noteq> 0 \<longrightarrow> p \<in> dom (heap_blocks (us_heap t))"
    "{p \<in> set ?ps. p \<noteq> 0} = fst ` set (us_vmas t)"
    using t(1) by (auto simp: nodes_ok_def)
  obtain h where h: "dealloc_all kfree ?ps (us_heap t) = Inr h" "heap_ok h"
    "heap_blocks h = heap_blocks (us_heap t) |` (- {p \<in> set ?ps. p \<noteq> 0})"
    using kh.dealloc_all_spec [OF n(1-3)] by (elim exE conjE)
  have "vma_destroy_all t = Inr (t\<lparr>us_vmas := [], us_heap := h\<rparr>)" using h(1) by (simp add: vma_destroy_all_def fold_kfree)
  moreover have "heap_blocks h = heap_blocks (us_heap s)" using h(3) t(2) unfolding n(4) other_blocks_def by simp
  ultimately show ?thesis using h(2) alloc_nodes [OF t(1), of tid a b prot flags] free_nodes [OF t(1), of c len] by auto
qed

text \<open>A thread without regions on an initialised heap, and one with a region of two pages.\<close>

definition us_example :: uspace where
  "us_example = \<lparr>us_pml4 = 0x100000, us_vmas = [], us_heap = heap_example\<rparr>"

lemma heap_example_ok: "heap_ok heap_example"
  using heap_example_inv(1) by (auto simp: heap_ok_def)

lemma us_example_mmap: "\<exists>s'. do_mmap 7 5000 3 0x100 us_example = Inr (0x4000000, s')"
proof -
  obtain p h ns where k: "kmalloc 7 VMA_SIZE heap_example = Inr (p, h)"
    "VMA_SIZE \<noteq> 0 \<and> (\<exists>n\<in>set [KHEAP_VBASE]. h_free (kh_hdr heap_example n) \<and>
       unat VMA_SIZE + 63 \<le> unat (h_size (kh_hdr heap_example n))) \<longrightarrow> p \<noteq> 0"
    using kmalloc_spec [OF heap_example_inv(1), of 7 VMA_SIZE] by (elim exE conjE)
  have "p \<noteq> 0" using k(2) by (simp add: heap_example_free)
  moreover have "(5000 + 4095 :: u64) AND NOT 4095 = 8192" "vma_find_free 8192 us_example = 0x4000000" 
    by (simp_all add: vma_find_free_def us_example_def)
  ultimately show ?thesis using k(1) by (simp add: do_mmap_def vma_alloc_def us_example_def Let_def)
qed

theorem mmap_regions_witness:
  "\<exists>s'. do_mmap 7 5000 3 0x100 us_example = Inr (0x4000000, s') \<and> vmas_ok (us_vmas s') \<and>
    (\<exists>p v. set (us_vmas s') = {(p, v)} \<and> unat (vm_end v) = 0x4002000)"
proof -
  have ok: "vmas_ok (us_vmas us_example)" by (simp add: vmas_ok_def us_example_def)
  obtain s' where s': "do_mmap 7 5000 3 0x100 us_example = Inr (0x4000000, s')" using us_example_mmap by blast
  from mmap_regions [OF ok s'] s' show ?thesis by (auto simp: us_example_def)
qed

theorem mmap_lazy_first_fit_witness:
  "\<exists>r s'. do_mmap 7 5000 3 0x100 us_example = Inr (r, s') \<and> heap_ok (us_heap s')"
  using mmap_lazy_first_fit [of us_example "0x100" 5000 7 3] heap_example_ok
  by (auto simp: vmas_ok_def us_example_def)

theorem region_nodes_released_witness:
  "\<exists>p t u. vma_alloc 7 0x4000000 0x4001000 3 0x22 us_example = Inr (p, t) \<and> vma_destroy_all t = Inr u \<and>
    heap_blocks (us_heap u) = heap_blocks heap_example"
proof -
  have h: "heap_ok (us_heap us_example)" "us_vmas us_example = []" using heap_example_ok by (simp_all add: us_example_def)
  obtain p t where t: "vma_alloc 7 0x4000000 0x4001000 3 0x22 us_example = Inr (p, t)"
    using vma_alloc_total [OF h(1)] by blast
  then have "region_step\<^sup>*\<^sup>* us_example t" using region_step.alloc by blast
  from region_nodes_released [OF h(2,1) this] obtain u
    where "vma_destroy_all t = Inr u" "heap_blocks (us_heap u) = heap_blocks (us_heap us_example)" by blast
  then show ?thesis using t by (auto simp: us_example_def)
qed


end
