(* ===== verification/User_Pages.thy ===== *)
theory User_Pages
  imports Vma
begin

text \<open>
  The pages behind the regions of a thread: what mapping, unmapping and demand paging
  do to the translation of user addresses and to the ownership of physical pages.
\<close>

section \<open>Page tables are never taken away\<close>

lemma leaf_table_frame:
  assumes "\<forall>p\<in>reach (Suc k) P t. Q p = P p"
  shows "leaf_table (Suc k) t v Q = leaf_table (Suc k) t v P"
  using assms
proof (induction k arbitrary: t)
  case (Suc k)
  let ?e = "P t (lidx (Suc (Suc k)) v)"
  have t: "Q t = P t" using Suc.prems reach_root by blast
  show ?case
  proof (cases "is_table (Suc (Suc k)) ?e")
    case True
    then have "\<forall>p\<in>reach (Suc k) P (next_table ?e). Q p = P p" using Suc.prems lidx_less by (auto simp: reach_child [of _ "Suc k"])
    then show ?thesis using Suc.IH t by (simp add: Let_def)
  qed (simp add: t Let_def)
qed simp

text \<open>
  Mapping keeps every page table, stores the entry of the address in one when it succeeds, and
  every page it takes becomes a table.
\<close>

definition map_keeps :: "nat \<Rightarrow> u64 \<Rightarrow> u64 \<Rightarrow> u64 \<Rightarrow> mach \<Rightarrow> int \<Rightarrow> mach \<Rightarrow> bool" where
  "map_keeps l v e t m r m' \<longleftrightarrow>
     (\<forall>v' p. leaf_table l t v' (m_pages m) = Some p \<longrightarrow> leaf_table l t v' (m_pages m') = Some p) \<and>
     (r = 0 \<longrightarrow> (\<exists>p. leaf_table l t v (m_pages m') = Some p \<and> m_pages m' p (lidx 1 v) = e)) \<and>
     owned m' - owned m \<subseteq> reach l (m_pages m') t \<and>
     reach l (m_pages m) t \<subseteq> reach l (m_pages m') t"

lemma map_keeps_lift:
  assumes tr: "pt_tree (Suc (Suc k)) (m_pages m) t" and sub: "reach (Suc (Suc k)) (m_pages m) t \<subseteq> owned m"
    and lo: "level_outcome (Suc k) t (lidx (Suc (Suc k)) v) m (Some n, m1)"
    and mo: "map_outcome (Suc k) v e n m1 r m'" and lk: "map_keeps (Suc k) v e n m1 r m'"
  shows "map_keeps (Suc (Suc k)) v e t m r m'"
proof -
  let ?i = "lidx (Suc (Suc k)) v" and ?P = "m_pages m" and ?Q = "m_pages m1" and ?R = "m_pages m'"
  have st: "level_step (Suc k) t ?i n (owned m) ?P ?Q" and ow1: "owned m1 = insert n (owned m)"
    using lo by (simp_all add: level_outcome_def)
  note tr1 = level_step_tree [OF tr sub lidx_less st]
  have tab: "is_table (Suc (Suc k)) (?Q t ?i)" "next_table (?Q t ?i) = n" using st by (simp_all add: level_step_def)
  have sub1: "reach (Suc (Suc k)) ?Q t \<subseteq> owned m1" using tr1(2) sub ow1 by auto
  have same: "\<forall>p\<in>owned m1 - reach (Suc k) ?Q n. ?R p = ?Q p"
    and trn: "pt_tree (Suc k) ?R n" and bk: "reach (Suc k) ?R n \<inter> owned m1 \<subseteq> reach (Suc k) ?Q n"
    using mo by (simp_all add: map_outcome_def)
  have Rt: "?R t = ?Q t" by (rule subtree_replace(1) [OF tr1(1) lidx_less tab sub1 same trn bk])
  have tD: "t \<in> owned m" using sub reach_root by blast
  have pq: "?Q p = ?P p" if "p \<in> owned m" "p \<noteq> t" for p
    using st that by (auto simp: level_step_def fun_eq_iff)
  have old: "leaf_table (Suc k) (next_table (?P t j)) v' ?Q = leaf_table (Suc k) (next_table (?P t j)) v' ?P"
    if j: "j < 512" "is_table (Suc (Suc k)) (?P t j)" for j v'
    using tree_child [OF tr j] sub pq by (intro leaf_table_frame) blast
  have other: "\<forall>p\<in>reach (Suc k) ?Q (next_table (?Q t j)). ?R p = ?Q p"
    if j: "j < 512" "j \<noteq> ?i" "is_table (Suc (Suc k)) (?Q t j)" for j
  proof -
    have "reach (Suc k) ?Q (next_table (?Q t j)) \<inter> reach (Suc k) ?Q n = {}"
      using tree_child(4) [OF tr1(1) lidx_less tab(1) j] unfolding tab(2) by blast
    then show ?thesis using same sub1 tree_child(3) [OF tr1(1) j(1,3)] by blast
  qed
  have sub_grow: "reach (Suc k) ?Q (next_table (?Q t j)) \<subseteq> reach (Suc k) ?R (next_table (?Q t j))"
    if j: "j < 512" "is_table (Suc (Suc k)) (?Q t j)" for j
    using lk tree_frame(1) [OF other [OF j(1) _ j(2)]] tab(2) by (cases "j = ?i") (auto simp: map_keeps_def)
  have grow: "reach (Suc (Suc k)) ?P t \<subseteq> reach (Suc (Suc k)) ?R t"
  proof -
    have "p \<in> reach (Suc (Suc k)) ?R t" if "p \<in> reach (Suc (Suc k)) ?Q t" for p
      using that sub_grow unfolding reach_child [of p "Suc k"] Rt by blast
    then show ?thesis using tr1(2) by blast
  qed
  have keep: "leaf_table (Suc (Suc k)) t v' ?R = Some p" if lt: "leaf_table (Suc (Suc k)) t v' ?P = Some p" for v' p
  proof -
    let ?j = "lidx (Suc (Suc k)) v'"
    have j: "is_table (Suc (Suc k)) (?P t ?j)" "leaf_table (Suc k) (next_table (?P t ?j)) v' ?P = Some p"
      using lt by (auto simp: Let_def split: if_splits)
    then have lq: "leaf_table (Suc k) (next_table (?P t ?j)) v' ?Q = Some p" using old by simp
    show ?thesis
    proof (cases "?j = ?i")
      case True
      then have "n = next_table (?P t ?j)" using st j(1) by (simp add: level_step_def)
      then show ?thesis using lk lq tab Rt True by (simp add: map_keeps_def)
    next
      case False
      then have Qj: "?Q t ?j = ?P t ?j" using st tD by (auto simp: level_step_def)
      then have "\<forall>p\<in>reach (Suc k) ?Q (next_table (?Q t ?j)). ?R p = ?Q p"
        using other [OF lidx_less False] j(1) by simp
      then show ?thesis using leaf_table_frame [of k ?Q "next_table (?Q t ?j)" ?R v'] lq j(1) Qj Rt by simp
    qed
  qed
  moreover have "leaf_table (Suc (Suc k)) t v ?R = leaf_table (Suc k) n v ?R" using tab Rt by simp
  moreover have "reach (Suc k) ?R n \<subseteq> reach (Suc (Suc k)) ?R t"
    using tab Rt lidx_less by (auto simp: reach_child [of _ "Suc k"])
  then have "owned m' - owned m \<subseteq> reach (Suc (Suc k)) ?R t"
  proof -
    have "owned m' - owned m1 \<subseteq> reach (Suc k) ?R n" using lk by (simp add: map_keeps_def)
    moreover have "n \<in> reach (Suc (Suc k)) ?R t" using \<open>reach (Suc k) ?R n \<subseteq> _\<close> reach_root by blast
    ultimately show ?thesis using \<open>reach (Suc k) ?R n \<subseteq> _\<close> ow1 by auto
  qed
  ultimately show ?thesis using lk grow by (simp add: map_keeps_def)
qed

lemma map_walk_keeps:
  assumes "vm_inv m" "pt_tree (Suc k) (m_pages m) t" "reach (Suc k) (m_pages m) t \<subseteq> owned m"
    "map_walk (Suc k) v pa fl ow t m = Inr (r, m')"
  shows "map_keeps (Suc k) v (pa OR fl) t m r m'"
  using assms
proof (induction k arbitrary: t m)
  case 0
  then have "m_pmm m' = m_pmm m" "m_pages m' t (lidx 1 v) = pa OR fl"
    by (auto simp: vmm_map_pt_level_def lidx_macros split: if_splits)
  then show ?case by (simp add: map_keeps_def owned_def level1_simps)
next
  case (Suc k)
  let ?i = "lidx (Suc (Suc k)) v"
  obtain r1 m1 where ml: "map_level (Suc (Suc k)) v fl t ?i m = (r1, m1)" by fastforce
  note lo = map_level_outcome [OF Suc.prems(1-3) lidx_less, of "Suc (Suc k)" v v fl, unfolded ml]
  show ?case
  proof (cases r1)
    case None
    then have "m_pages m' = m_pages m" "r = - 1" "owned m' = owned m" using lo ml Suc.prems(4) by (simp_all add: level_outcome_def)
    then show ?thesis by (simp add: map_keeps_def)
  next
    case (Some n)
    have st: "level_step (Suc k) t ?i n (owned m) (m_pages m) (m_pages m1)" and v1: "vm_inv m1"
      and ow1: "owned m1 = insert n (owned m)" using lo Some by (simp_all add: level_outcome_def)
    note tr1 = level_step_tree [OF Suc.prems(2,3) lidx_less st]
    have "is_table (Suc (Suc k)) (m_pages m1 t ?i)" "next_table (m_pages m1 t ?i) = n"
      using st by (simp_all add: level_step_def)
    then have tn: "pt_tree (Suc k) (m_pages m1) n" using tree_child(1) [OF tr1(1) lidx_less] by metis
    have rn: "reach (Suc k) (m_pages m1) n \<subseteq> owned m1" using tr1(3) Suc.prems(3) ow1 by blast
    have mw: "map_walk (Suc k) v pa fl ow n m1 = Inr (r, m')" using Suc.prems(4) ml Some by simp
    have "map_outcome (Suc k) v (pa OR fl) n m1 r m'" using map_walk_outcome [OF v1 tn rn, where v = v and pa = pa and fl = fl and ow = ow] mw by simp
    then show ?thesis using map_keeps_lift [OF Suc.prems(2,3)] lo Some Suc.IH [OF v1 tn rn mw] by blast
  qed
qed

lemma vmm_map_raw_keeps:
  assumes "addr_space pml4 m" "vmm_map_raw pml4 v pa fl ow m = Inr (r, m')"
  shows "map_keeps 4 (v AND NOT pmask) ((pa AND PTE_ADDR_MASK) OR fl) pml4 m r m'"
proof -
  have 4: "Suc 3 = 4" by simp
  show ?thesis using assms map_walk_keeps [where m = m and k = 3 and t = pml4 and v = "v AND NOT pmask"]
    unfolding 4 vmm_map_raw_walk addr_space_def by blast
qed

lemma set_pte_same_tables:
  assumes "pt_tree (Suc k) P t" "leaf_table (Suc k) t v P = Some p" and "Q = P(p := (P p)(lidx (Suc 0) v := e))"
  shows "reach (Suc k) Q t = reach (Suc k) P t \<and> (\<forall>v'. leaf_table (Suc k) t v' Q = leaf_table (Suc k) t v' P) \<and>
    p \<in> reach (Suc k) P t"
  using assms(1,2)
proof (induction k arbitrary: t)
  case 0
  then show ?case by (simp add: level1_simps)
next
  case (Suc k)
  let ?i = "lidx (Suc (Suc k)) v"
  let ?n = "next_table (P t ?i)"
  have tab: "is_table (Suc (Suc k)) (P t ?i)" and lt: "leaf_table (Suc k) ?n v P = Some p"
    using Suc.prems(2) by (auto simp: Let_def split: if_splits)
  note ch = tree_child [OF Suc.prems(1) lidx_less tab]
  note IH = Suc.IH [OF ch(1) lt]
  have t: "Q t = P t" using ch(2) IH assms(3) by auto
  have other: "\<forall>q\<in>reach (Suc k) P (next_table (P t j)). Q q = P q"
    if "j < 512" "j \<noteq> ?i" "is_table (Suc (Suc k)) (P t j)" for j
    using ch(4) [OF that] IH assms(3) by auto
  have sub: "reach (Suc k) Q (next_table (P t j)) = reach (Suc k) P (next_table (P t j)) \<and>
      (\<forall>v'. leaf_table (Suc k) (next_table (P t j)) v' Q = leaf_table (Suc k) (next_table (P t j)) v' P)"
    if "j < 512" "is_table (Suc (Suc k)) (P t j)" for j
    using that IH tree_frame(1) [OF other] leaf_table_frame [OF other] by (cases "j = ?i") auto
  have "reach (Suc (Suc k)) Q t = reach (Suc (Suc k)) P t" using sub by (auto simp: reach.simps(2) t)
  moreover have "leaf_table (Suc (Suc k)) t v' Q = leaf_table (Suc (Suc k)) t v' P" for v'
    using sub [OF lidx_less] by (simp add: t Let_def)
  ultimately show ?case using IH ch(3) by blast
qed

section \<open>User pages\<close>

definition user_area :: "u64 set" where
  "user_area = {v. USER_MMAP_BASE \<le> v \<and> v < USER_MMAP_END}"

text \<open>The physical page behind an address.\<close>

definition frame :: "u64 \<Rightarrow> mach \<Rightarrow> u64 \<Rightarrow> u64 option" where
  "frame k m v = map_option (\<lambda>a. a AND PTE_ADDR_MASK) (walk 4 k v (m_pages m))"

text \<open>
  Every mapped user page is a small page, its physical page is in use, is no page
  table, and belongs to no other user page.
\<close>

definition user_pages :: "u64 \<Rightarrow> mach \<Rightarrow> bool" where
  "user_pages k m \<longleftrightarrow> addr_space k m \<and> k \<le> 0x00007FFFFFFFFFFF \<and>
     (\<forall>v\<in>user_area. \<forall>f. frame k m v = Some f \<longrightarrow>
        leaf_table 4 k v (m_pages m) \<noteq> None \<and> f \<in> owned m \<and> f \<notin> reach 4 (m_pages m) k) \<and>
     (\<forall>v\<in>user_area. \<forall>v'\<in>user_area. page_number v \<noteq> page_number v' \<and> frame k m v \<noteq> None \<longrightarrow> frame k m v \<noteq> frame k m v')"

lemma frame_mapped: "vmm_is_mapped k v m \<longleftrightarrow> frame k m v \<noteq> None"
  by (simp add: is_mapped_walk frame_def)

lemma frame_pages: "m_pages m' = m_pages m \<Longrightarrow> frame k m' = frame k m"
  by (intro ext) (simp add: frame_def)

lemma page_part_addr: "(a AND NOT pmask) AND PTE_ADDR_MASK = a AND PTE_ADDR_MASK"
  by (rule bit_word_eqI) (auto simp: pte_bits simp del: bit_numeral_word_iff)

lemma frame_page_part: "frame k m v = map_option (\<lambda>a. a AND PTE_ADDR_MASK) (map_option page_part (walk 4 k v (m_pages m)))"
  unfolding frame_def option.map_comp by (simp add: comp_def page_part_addr)

lemma phys_entry_addr:
  assumes "phys_page a" "fl AND PTE_ADDR_MASK = 0"
  shows "(((a AND PTE_ADDR_MASK) OR fl) AND NOT pmask) AND PTE_ADDR_MASK = a"
proof (rule bit_word_eqI)
  fix n :: nat assume "n < LENGTH(64)"
  have "bit a n \<longrightarrow> 12 \<le> n \<and> n < 52" using assms(1) by (simp add: phys_page_def)
  moreover have "\<not> (bit fl n \<and> 12 \<le> n \<and> n < 52)"
    using arg_cong [OF assms(2), of "\<lambda>x. bit x n"] by (auto simp: bit_and_iff bit_addr_mask simp del: bit_numeral_word_iff)
  ultimately show "bit ((((a AND PTE_ADDR_MASK) OR fl) AND NOT pmask) AND PTE_ADDR_MASK) n = bit a n"
    by (auto simp: pte_bits simp del: bit_numeral_word_iff)
qed

lemma user_flags:
  "bit (pte_flags prot OR PTE_USER) 0" "(pte_flags prot OR PTE_USER) AND PTE_ADDR_MASK = 0"
  by (simp_all add: pte_flags_def bit_or_iff)

text \<open>Giving one page to an address, as the loop of \<open>do_mmap\<close> and demand paging do it.\<close>

definition page_given :: "u64 \<Rightarrow> u64 \<Rightarrow> u64 \<Rightarrow> mach \<Rightarrow> mach \<Rightarrow> bool" where
  "page_given k v fl m m' \<longleftrightarrow> user_pages k m' \<and> (\<exists>a. a \<notin> owned m \<and>
     (\<exists>p. leaf_table 4 k v (m_pages m') = Some p \<and> m_pages m' p (PT_IDX v) = a OR fl OR PTE_USER) \<and>
     (\<forall>v'. frame k m' v' = (if page_number v = page_number v' then Some a else frame k m v')) \<and>
     owned m \<subseteq> owned m' \<and> owned m' - owned m \<subseteq> insert a (reach 4 (m_pages m') k)) \<and>
     reach 4 (m_pages m) k \<subseteq> reach 4 (m_pages m') k"

definition nothing_given :: "u64 \<Rightarrow> mach \<Rightarrow> mach \<Rightarrow> bool" where
  "nothing_given k m m' \<longleftrightarrow> user_pages k m' \<and> frame k m' = frame k m \<and>
     owned m \<subseteq> owned m' \<and> owned m' - owned m \<subseteq> reach 4 (m_pages m') k \<and>
     reach 4 (m_pages m) k \<subseteq> reach 4 (m_pages m') k"

lemma user_pagesI:
  assumes "addr_space k m" "k \<le> 0x00007FFFFFFFFFFF"
    "\<And>v f. v \<in> user_area \<Longrightarrow> frame k m v = Some f \<Longrightarrow>
       leaf_table 4 k v (m_pages m) \<noteq> None \<and> f \<in> owned m \<and> f \<notin> reach 4 (m_pages m) k"
    "\<And>v v'. v \<in> user_area \<Longrightarrow> v' \<in> user_area \<Longrightarrow> page_number v \<noteq> page_number v' \<Longrightarrow> frame k m v \<noteq> None \<Longrightarrow> frame k m v \<noteq> frame k m v'"
  shows "user_pages k m"
  using assms unfolding user_pages_def by blast

lemma user_pages_distinct:
  assumes "user_pages k m" "v \<in> user_area" "v' \<in> user_area" "page_number v \<noteq> page_number v'" "frame k m v \<noteq> None"
  shows "frame k m v \<noteq> frame k m v'"
  using assms unfolding user_pages_def by blast

lemma user_pages_space:
  assumes "user_pages k m"
  shows "addr_space k m" "k \<le> 0x00007FFFFFFFFFFF"
  using assms unfolding user_pages_def by blast+

lemma user_pagesD:
  assumes "user_pages k m" "v \<in> user_area" "frame k m v = Some f"
  shows "leaf_table 4 k v (m_pages m) \<noteq> None" "f \<in> owned m" "f \<notin> reach 4 (m_pages m) k"
  using assms by (auto simp: user_pages_def)

lemma frame_same_page:
  assumes "page_number v = page_number v'" "frame k m v = None"
  shows "frame k m v' = None"
  using assms is_mapped_page [OF assms(1), of k m] by (simp add: frame_mapped)

lemma alloc_page_user:
  assumes "user_pages k m" "alloc_page m = (a, m1)"
  shows "user_pages k m1" "frame k m1 = frame k m" "m_pages m1 = m_pages m"
    "a = 0 \<Longrightarrow> owned m1 = owned m" "a \<noteq> 0 \<Longrightarrow> a \<notin> owned m \<and> owned m1 = insert a (owned m) \<and> phys_page a"
proof -
  have sp: "addr_space k m" "vm_inv m" using assms(1) by (simp_all add: user_pages_def addr_space_def)
  note ac = alloc_page_cases [OF sp(2) assms(2)]
  show pg: "m_pages m1 = m_pages m" using ac by simp
  then show fr: "frame k m1 = frame k m" by (rule frame_pages)
  show ow: "a = 0 \<Longrightarrow> owned m1 = owned m" "a \<noteq> 0 \<Longrightarrow> a \<notin> owned m \<and> owned m1 = insert a (owned m) \<and> phys_page a"
    using ac by auto
  then have "owned m \<subseteq> owned m1" by (cases "a = 0") auto
  then show "user_pages k m1" using assms(1) alloc_page_space(1) [OF sp(1) assms(2)] pg fr unfolding user_pages_def by auto
qed

lemma user_pages_mapped:
  assumes up: "user_pages k m" and nm: "frame k m v = None" and a: "a \<in> owned m" "a \<notin> reach 4 (m_pages m) k"
    and fresh: "\<And>v'. v' \<in> user_area \<Longrightarrow> frame k m v' \<noteq> Some a"
    and out: "addr_space k m'" "owned m \<subseteq> owned m'" "reach 4 (m_pages m') k \<inter> owned m \<subseteq> reach 4 (m_pages m) k"
    and fr: "\<And>v'. frame k m' v' = (if page_number v = page_number v' then Some a else frame k m v')"
    and lk: "\<And>v' p. leaf_table 4 k v' (m_pages m) = Some p \<Longrightarrow> leaf_table 4 k v' (m_pages m') = Some p"
      "\<And>v'. page_number v = page_number v' \<Longrightarrow> leaf_table 4 k v' (m_pages m') \<noteq> None"
  shows "user_pages k m'"
proof -
  have "leaf_table 4 k v' (m_pages m') \<noteq> None \<and> f \<in> owned m' \<and> f \<notin> reach 4 (m_pages m') k"
    if v: "v' \<in> user_area" "frame k m' v' = Some f" for v' f
  proof (cases "page_number v = page_number v'")
    case True
    then show ?thesis using v(2) fr a out lk(2) by auto
  next
    case False
    then have "frame k m v' = Some f" using v(2) fr by simp
    note d = user_pagesD [OF up v(1) this]
    show ?thesis using d out(2,3) lk(1) by blast
  qed
  moreover have "frame k m' v1 \<noteq> frame k m' v2"
    if "v1 \<in> user_area" "v2 \<in> user_area" "page_number v1 \<noteq> page_number v2" "frame k m' v1 \<noteq> None" for v1 v2
  proof -
    have d: "frame k m v1 \<noteq> None \<Longrightarrow> frame k m v1 \<noteq> frame k m v2" using up that(1-3) by (auto simp: user_pages_def)
    show ?thesis using that d fr [of v1] fr [of v2] fresh [of v1] fresh [of v2]
      by (cases "page_number v = page_number v1"; cases "page_number v = page_number v2") auto
  qed
  ultimately show ?thesis by (rule user_pagesI [OF out(1) user_pages_space(2) [OF up]])
qed

lemma leaf_table_same_path:
  "same_path (Suc k) v v' \<Longrightarrow> leaf_table (Suc k) t v P = leaf_table (Suc k) t v' P"
proof (induction k arbitrary: t)
  case (Suc k)
  then show ?case by (simp add: same_path_Suc [of "Suc k"] Let_def)
qed simp

lemma leaf_table_page: "page_number v = page_number v' \<Longrightarrow> leaf_table 4 k v P = leaf_table 4 k v' P"
  using leaf_table_same_path [of 3 v v' k P] by (simp add: same_path_4 [symmetric])

lemma page_number_page: "page_number (v AND NOT pmask) = page_number v"
  using same_path_page [of 4 v v] by (simp add: same_path_4)

lemma user_pages_same:
  assumes up: "user_pages k m" and fr: "frame k m' = frame k m" and sp: "addr_space k m'"
    and ow: "owned m \<subseteq> owned m'" "reach 4 (m_pages m') k \<inter> owned m \<subseteq> reach 4 (m_pages m) k"
    and lk: "\<And>v' p. leaf_table 4 k v' (m_pages m) = Some p \<Longrightarrow> leaf_table 4 k v' (m_pages m') = Some p"
  shows "user_pages k m'"
proof (rule user_pagesI [OF sp user_pages_space(2) [OF up]], unfold fr)
  show "leaf_table 4 k v (m_pages m') \<noteq> None \<and> f \<in> owned m' \<and> f \<notin> reach 4 (m_pages m') k"
    if "v \<in> user_area" "frame k m v = Some f" for v f
    using user_pagesD [OF up that] ow lk by blast
qed (rule user_pages_distinct [OF up])

lemma free_page_user:
  assumes up: "user_pages k m" and a: "a \<in> owned m" "a \<notin> reach 4 (m_pages m) k"
    and no: "\<And>v. v \<in> user_area \<Longrightarrow> frame k m v \<noteq> Some a"
  shows "\<exists>m'. free_page a m = Inr m' \<and> user_pages k m' \<and> m_pages m' = m_pages m \<and> owned m' = owned m - {a}"
proof -
  note sp = user_pages_space(1) [OF up]
  have inv: "pmm_inv (m_pmm m)" "pmm_owns (m_pmm m) a"
    using sp a(1) by (simp_all add: addr_space_def vm_inv_def owned_def)
  obtain m' where m': "free_page a m = Inr m'" "addr_space k m'" "m_pages m' = m_pages m" using free_page_space [OF sp a] by blast
  obtain p where p: "pmm_free a (m_pmm m) = Inr p" "\<forall>b. pmm_owns p b \<longleftrightarrow> pmm_owns (m_pmm m) b \<and> b \<noteq> a"
    using pp.free_owned [OF inv] by blast
  have "m_pmm m' = p" using m'(1) p(1) by (auto simp: free_page_def)
  then have ow: "owned m' = owned m - {a}" using p(2) unfolding owned_def by blast
  have fr: "frame k m' = frame k m" by (rule frame_pages [OF m'(3)])
  have "user_pages k m'"
  proof (rule user_pagesI [OF m'(2) user_pages_space(2) [OF up]], unfold fr m'(3) ow)
    show "leaf_table 4 k v (m_pages m) \<noteq> None \<and> f \<in> owned m - {a} \<and> f \<notin> reach 4 (m_pages m) k"
      if "v \<in> user_area" "frame k m v = Some f" for v f
      using user_pagesD [OF up that] no [OF that(1)] that(2) by simp
  qed (rule user_pages_distinct [OF up])
  then show ?thesis using m' ow by blast
qed


lemma map_user_outcome:
  assumes up: "user_pages k m" and nm: "frame k m v = None" and a: "phys_page a"
    and fl: "bit (fl OR PTE_USER) 0" "(fl OR PTE_USER) AND PTE_ADDR_MASK = 0"
  shows "\<exists>r m2. vmm_map_user k v a fl m = Inr (r, m2) \<and> addr_space k m2 \<and>
    owned m \<subseteq> owned m2 \<and> reach 4 (m_pages m2) k \<inter> owned m \<subseteq> reach 4 (m_pages m) k \<and>
    map_keeps 4 (v AND NOT pmask) (a OR fl OR PTE_USER) k m r m2 \<and>
    (\<forall>v'. frame k m2 v' = (if r = 0 \<and> page_number v = page_number v' then Some a else frame k m v'))"
proof -
  have sp: "addr_space k m" "\<not> vmm_is_mapped k v m" using up nm by (auto simp: user_pages_def frame_mapped)
  have av: "a AND PTE_ADDR_MASK = a" using a
    by (intro bit_word_eqI) (auto simp: phys_page_def bit_and_iff bit_addr_mask simp del: bit_numeral_word_iff)
  let ?e = "(a AND PTE_ADDR_MASK) OR (fl OR PTE_USER)"
  obtain r m2 where mp: "vmm_map_raw k v a (fl OR PTE_USER) False m = Inr (r, m2)" and out: "map_outcome 4 v ?e k m r m2"
    using vmm_map_raw_outcome [OF sp(1), where v = v and pa = a and fl = "fl OR PTE_USER" and ow = False] sp(2) by (auto split: sum.splits)
  have e0: "bit ?e 0" using fl(1) by (auto simp: bit_or_iff)
  have "frame k m2 v' = (if r = 0 \<and> page_number v = page_number v' then Some a else frame k m v')" for v'
  proof (cases "r = 0 \<and> page_number v = page_number v'")
    case True
    then have "walk 4 k v' (m_pages m2) = Some (?e AND NOT pmask)" using out e0 by (simp add: map_outcome_def same_path_4)
    then show ?thesis using True phys_entry_addr [OF a fl(2)] by (simp add: frame_def)
  next
    case False
    then have "map_option page_part (walk 4 k v' (m_pages m2)) = map_option page_part (walk 4 k v' (m_pages m))"
      using out unfolding map_outcome_def same_path_4 by metis
    then show ?thesis using False by (simp only: frame_page_part) simp
  qed
  moreover have "map_keeps 4 (v AND NOT pmask) (a OR fl OR PTE_USER) k m r m2"
    using vmm_map_raw_keeps [OF sp(1) mp] unfolding av or.assoc .
  moreover have "vmm_map_user k v a fl m = Inr (r, m2)" using mp by (simp add: vmm_map_user_def vmm_map_def)
  ultimately show ?thesis using out map_outcome_space [OF out] unfolding map_outcome_def by blast
qed

text \<open>Both outcomes of mapping a freshly allocated page.\<close>

lemma map_user_page:
  assumes up: "user_pages k m" and nm: "frame k m v = None" and al: "alloc_page m = (a, m1)" "a \<noteq> 0"
    and fl: "bit (fl OR PTE_USER) 0" "(fl OR PTE_USER) AND PTE_ADDR_MASK = 0"
  shows "\<exists>r m2. vmm_map_user k v a fl m1 = Inr (r, m2) \<and> (r = 0 \<longrightarrow> page_given k v fl m m2) \<and>
    (r \<noteq> 0 \<longrightarrow> (\<exists>m3. free_page a m2 = Inr m3 \<and> nothing_given k m m3))"
proof -
  note a1 = alloc_page_user [OF up al(1)]
  have a: "a \<notin> owned m" "owned m1 = insert a (owned m)" "phys_page a" using a1(5) al(2) by auto
  have nm1: "frame k m1 v = None" using nm a1(2) by simp
  obtain r m2 where mu: "vmm_map_user k v a fl m1 = Inr (r, m2)" and sp2: "addr_space k m2"
    and ow: "owned m1 \<subseteq> owned m2" "reach 4 (m_pages m2) k \<inter> owned m1 \<subseteq> reach 4 (m_pages m1) k"
    and kp: "map_keeps 4 (v AND NOT pmask) (a OR fl OR PTE_USER) k m1 r m2"
    and fr: "\<forall>v'. frame k m2 v' = (if r = 0 \<and> page_number v = page_number v' then Some a else frame k m1 v')"
    using map_user_outcome [OF a1(1) nm1 a(3) fl] by (elim exE conjE)
  have ar: "a \<notin> reach 4 (m_pages m1) k" using alloc_page_space(4) [OF _ al(1) al(2), of k] up by (simp add: user_pages_def)
  have no: "frame k m1 v' \<noteq> Some a" if "v' \<in> user_area" for v' using user_pagesD(2) [OF up that] a(1) a1(2) by auto
  have lk: "\<And>v' p. leaf_table 4 k v' (m_pages m1) = Some p \<Longrightarrow> leaf_table 4 k v' (m_pages m2) = Some p"
    and new: "owned m2 - owned m1 \<subseteq> reach 4 (m_pages m2) k" "reach 4 (m_pages m) k \<subseteq> reach 4 (m_pages m2) k"
    using kp a1(3) by (simp_all add: map_keeps_def)
  show ?thesis
  proof (cases "r = 0")
    case True
    have en: "\<exists>p. leaf_table 4 k v (m_pages m2) = Some p \<and> m_pages m2 p (PT_IDX v) = a OR fl OR PTE_USER"
      using kp True leaf_table_page [of "v AND NOT pmask" v] lidx_page [of 1 v]
      unfolding map_keeps_def page_number_page lidx_macros by auto
    then have lv: "leaf_table 4 k v' (m_pages m2) \<noteq> None" if "page_number v = page_number v'" for v'
      using leaf_table_page [OF that, of k "m_pages m2"] by auto
    have "user_pages k m2"
      by (rule user_pages_mapped [OF a1(1) nm1 _ ar no sp2 ow _ lk lv]) (use a(2) fr True in simp_all)
    then have "page_given k v fl m m2"
      unfolding page_given_def using a en fr True ow(1) new a1(2) by (intro conjI exI [of "\<lambda>x. x \<notin> owned m \<and> _ x" a]) auto
    then show ?thesis using mu True by blast
  next
    case False
    have fr2: "frame k m2 = frame k m1" using fr False by (intro ext) simp
    have up2: "user_pages k m2" by (rule user_pages_same [OF a1(1) fr2 sp2 ow lk])
    have "a \<in> owned m2" "a \<notin> reach 4 (m_pages m2) k" using a(2) ar ow by auto
    moreover have "frame k m2 v' \<noteq> Some a" if "v' \<in> user_area" for v' using no [OF that] fr2 by simp
    ultimately obtain m3 where
      m3: "free_page a m2 = Inr m3" "user_pages k m3" "m_pages m3 = m_pages m2" "owned m3 = owned m2 - {a}"
      using free_page_user [OF up2] by blast
    have "frame k m3 = frame k m" using fr2 a1(2) frame_pages [OF m3(3)] by simp
    then have "nothing_given k m m3" unfolding nothing_given_def using m3 ow(1) a new by auto
    then show ?thesis using mu False m3(1) by blast
  qed
qed

section \<open>Taking a page away\<close>

lemma level_numerals: "Suc 3 = 4" "Suc 2 = 3" "Suc (Suc 0) = 2"
  by simp_all

lemmas tree_step = tree_entry_ok [of 3, unfolded level_numerals] tree_entry_ok [of 2, unfolded level_numerals]
  tree_child(1) [of 3, unfolded level_numerals] tree_child(1) [of 2, unfolded level_numerals]

lemma unmap_no_table:
  assumes tr: "pt_tree 4 (m_pages m) k" and w: "walk 4 k v (m_pages m) = None" and lt: "leaf_table 4 k v (m_pages m) = None"
  shows "vmm_unmap k v m = (- 1, m)"
proof -
  have idx: "lidx 4 (v AND NOT pmask) = lidx 4 v" "lidx 3 (v AND NOT pmask) = lidx 3 v"
    "lidx 2 (v AND NOT pmask) = lidx 2 v" by (simp_all add: lidx_page)
  let ?P = "m_pages m"
  define e4 where "e4 = ?P k (lidx 4 v)"
  define e3 where "e3 = ?P (next_table e4) (lidx 3 v)"
  define e2 where "e2 = ?P (next_table e3) (lidx 2 v)"
  have "\<not> (bit e4 0 \<and> bit e3 0 \<and> bit e2 0)"
  proof (intro notI, elim conjE)
    assume b: "bit e4 0" "bit e3 0" "bit e2 0"
    have t4: "is_table 4 e4" using b(1) by (simp add: is_table_def is_leaf_def)
    have n4: "e4 AND NOT pmask = next_table e4" using next_table_page tree_step(1) [OF tr lidx_less] t4 unfolding e4_def by blast
    have tr3: "pt_tree 3 ?P (next_table e4)" using tree_step(3) [OF tr lidx_less] t4 unfolding e4_def by blast
    have w3: "walk 3 (next_table e4) v ?P = None" using w b(1) n4 unfolding walk_levels(1) Let_def e4_def [symmetric] by simp
    have t3: "is_table 3 e3" using w3 b(2) unfolding walk_levels(2) Let_def e3_def [symmetric]
      by (auto simp: is_table_def is_leaf_def pte_leaf_bits split: if_splits)
    have n3: "e3 AND NOT pmask = next_table e3" using next_table_page tree_step(2) [OF tr3 lidx_less] t3 unfolding e3_def by blast
    have w2: "walk 2 (next_table e3) v ?P = None"
      using w3 b(2) n3 unfolding walk_levels(2) Let_def e3_def [symmetric] by (auto split: if_splits)
    have t2: "is_table 2 e2" using w2 b(3) unfolding walk_levels(3) Let_def e2_def [symmetric]
      by (auto simp: is_table_def is_leaf_def pte_leaf_bits split: if_splits)
    show False using lt t4 t3 t2 unfolding leaf_table_levels Let_def e4_def [symmetric] e3_def [symmetric] e2_def [symmetric] by simp
  qed
  then show ?thesis
    unfolding vmm_unmap_def vmm_unmap_raw_def Let_def page_clear lidx_macros idx pte_present_bit next_table_def [symmetric]
      e4_def [symmetric] e3_def [symmetric] e2_def [symmetric] by auto
qed

definition page_taken :: "u64 \<Rightarrow> u64 \<Rightarrow> mach \<Rightarrow> mach \<Rightarrow> bool" where
  "page_taken k v m m' \<longleftrightarrow> user_pages k m' \<and> reach 4 (m_pages m') k = reach 4 (m_pages m) k \<and>
     (\<forall>v'. frame k m' v' = (if page_number v = page_number v' then None else frame k m v')) \<and>
     owned m' = owned m - set_option (frame k m v)"

lemma user_unmap:
  assumes up: "user_pages k m" and lt: "leaf_table 4 k v (m_pages m) = Some p"
  defines "m' \<equiv> snd (vmm_unmap k v m)"
  shows "user_pages k m'" "reach 4 (m_pages m') k = reach 4 (m_pages m) k" "owned m' = owned m"
    "\<And>v'. frame k m' v' = (if page_number v = page_number v' then None else frame k m v')"
proof -
  have pg: "m_pages m' = (m_pages m)(p := (m_pages m p)(lidx (Suc 0) v := 0))" and pm: "m_pmm m' = m_pmm m"
    unfolding m'_def by (simp_all add: vmm_unmap_def unmap_entry [OF lt] set_entry_def)
  note sp = user_pages_space(1) [OF up]
  note us = unmap_space [OF sp lt, folded m'_def]
  have st: "reach 4 (m_pages m') k = reach 4 (m_pages m) k \<and> (\<forall>v'. leaf_table 4 k v' (m_pages m') = leaf_table 4 k v' (m_pages m))"
    using set_pte_same_tables [of 3, unfolded level_numerals, OF _ lt pg] sp by (simp add: addr_space_def)
  then show rc: "reach 4 (m_pages m') k = reach 4 (m_pages m) k" by simp
  show ow: "owned m' = owned m" by (simp add: owned_def pm)
  show fr: "frame k m' v' = (if page_number v = page_number v' then None else frame k m v')" for v'
    using us by (simp add: frame_def)
  show "user_pages k m'"
  proof (rule user_pagesI)
    show "addr_space k m'" "k \<le> 0x00007FFFFFFFFFFF" using us user_pages_space(2) [OF up] by auto
    show "leaf_table 4 k v' (m_pages m') \<noteq> None \<and> f \<in> owned m' \<and> f \<notin> reach 4 (m_pages m') k"
      if "v' \<in> user_area" "frame k m' v' = Some f" for v' f
      using that user_pagesD [OF up that(1), of f] fr [of v'] st ow by (simp split: if_splits)
    show "frame k m' v1 \<noteq> frame k m' v2"
      if "v1 \<in> user_area" "v2 \<in> user_area" "page_number v1 \<noteq> page_number v2" "frame k m' v1 \<noteq> None" for v1 v2
      using that user_pages_distinct [OF up that(1-3)] fr [of v1] fr [of v2] by (auto split: if_splits)
  qed
qed

lemma owned_not_null: "f \<in> owned m \<Longrightarrow> f \<noteq> 0"
  by (auto simp: owned_def pmm_owns_def)

lemma unmap_user_page:
  assumes up: "user_pages k m" and v: "v \<in> user_area"
  shows "\<exists>m'. unmap_page k v m = Inr m' \<and> page_taken k v m m'"
proof -
  note sp = user_pages_space [OF up]
  have ph: "unmap_page k v m = (let phys = (case frame k m v of None \<Rightarrow> 0 | Some f \<Rightarrow> f); m1 = snd (vmm_unmap k v m)
      in if phys \<noteq> 0 then free_page phys m1 else Inr m1)"
    unfolding unmap_page_def get_phys_walk [OF sp(2)] frame_def by (simp split: option.split)
  show ?thesis
  proof (cases "leaf_table 4 k v (m_pages m)")
    case None
    then have fr: "frame k m v = None" using user_pagesD(1) [OF up v] by (cases "frame k m v") auto
    then have "vmm_unmap k v m = (- 1, m)" using unmap_no_table None sp(1) by (simp add: addr_space_def frame_def)
    then have "unmap_page k v m = Inr m" using ph fr by simp
    moreover have "page_taken k v m m" unfolding page_taken_def using up fr frame_same_page [of v _ k m] by auto
    ultimately show ?thesis by blast
  next
    case (Some p)
    note u = user_unmap [OF up Some]
    show ?thesis
    proof (cases "frame k m v")
      case None
      then have "unmap_page k v m = Inr (snd (vmm_unmap k v m))" using ph by simp
      moreover have "page_taken k v m (snd (vmm_unmap k v m))" unfolding page_taken_def using u None by simp
      ultimately show ?thesis by blast
    next
      case (Some f)
      note d = user_pagesD(2,3) [OF up v Some]
      have no: "frame k (snd (vmm_unmap k v m)) v' \<noteq> Some f" if "v' \<in> user_area" for v'
        using user_pages_distinct [OF up v that] Some u(4) by auto
      obtain m' where m': "free_page f (snd (vmm_unmap k v m)) = Inr m'" "user_pages k m'"
        "m_pages m' = m_pages (snd (vmm_unmap k v m))" "owned m' = owned m - {f}"
        using free_page_user [OF u(1) _ _ no, unfolded u(2,3)] d by blast
      have "unmap_page k v m = Inr m'" using ph Some m'(1) owned_not_null [OF d(1)] by simp
      moreover have "page_taken k v m m'" unfolding page_taken_def using m' u Some frame_pages [OF m'(3), of k] by simp
      ultimately show ?thesis by blast
    qed
  qed
qed

section \<open>Ranges of pages\<close>

definition page_numbers :: "u64 \<Rightarrow> nat \<Rightarrow> u64 set" where
  "page_numbers a n = page_number ` set (pages_from a n)"

text \<open>A page aligned range inside the user area.\<close>

definition user_range :: "u64 \<Rightarrow> nat \<Rightarrow> bool" where
  "user_range a n \<longleftrightarrow> page_aligned a \<and> USER_MMAP_BASE \<le> a \<and> unat a + n * 4096 \<le> unat USER_MMAP_END"

lemma pages_from_0 [simp]: "pages_from a 0 = []"
  by (simp add: pages_from_def)

lemma pages_from_Suc: "pages_from a (Suc n) = a # pages_from (a + PAGE_SIZE) n"
  unfolding pages_from_def map_upt_Suc by (simp add: algebra_simps)

lemma user_range_Suc:
  assumes "user_range a (Suc n)"
  shows "a \<in> user_area" "user_range (a + PAGE_SIZE) n" "unat (a + PAGE_SIZE) = unat a + 4096"
proof -
  have le: "unat a + 4096 \<le> 0x10000000" using assms by (simp add: user_range_def)
  then show u: "unat (a + PAGE_SIZE) = unat a + 4096" by (simp add: unat_word_ariths)
  show "a \<in> user_area" using assms le by (simp add: user_range_def user_area_def word_less_nat_alt)
  show "user_range (a + PAGE_SIZE) n"
    using assms u page_aligned_add by (simp add: user_range_def word_le_nat_alt)
qed

lemma pages_from_unat:
  assumes "user_range a n" "v \<in> set (pages_from a n)"
  shows "\<exists>i<n. unat v = unat a + i * 4096" "v \<in> user_area" "page_aligned v"
proof -
  have "(\<exists>i<n. unat v = unat a + i * 4096) \<and> v \<in> user_area \<and> page_aligned v"
    using assms
  proof (induction n arbitrary: a)
    case (Suc n)
    note r = user_range_Suc [OF Suc.prems(1)]
    show ?case
    proof (cases "v = a")
      case True
      then show ?thesis using r(1) Suc.prems(1) by (auto simp: user_range_def)
    next
      case False
      then obtain i where "i < n" "unat v = unat (a + PAGE_SIZE) + i * 4096" "v \<in> user_area" "page_aligned v"
        using Suc.IH [OF r(2)] Suc.prems(2) by (auto simp: pages_from_Suc)
      then show ?thesis using r(3) by (intro conjI exI [of _ "Suc i"]) auto
    qed
  qed simp
  then show "\<exists>i<n. unat v = unat a + i * 4096" "v \<in> user_area" "page_aligned v" by blast+
qed

lemma page_number_inj:
  assumes "page_aligned v" "page_aligned w" "v \<in> user_area" "w \<in> user_area" "page_number v = page_number w"
  shows "v = w"
proof -
  have u: "unat (page_number x) = unat x div 4096" if "x \<in> user_area" for x
  proof -
    have "unat x < 268435456" using that by (simp add: user_area_def word_less_nat_alt)
    then show ?thesis by (simp add: page_number_def take_bit_eq_mod drop_bit_eq_div unat_mod unat_div)
  qed
  have "unat v div 4096 = unat w div 4096" using u [OF assms(3)] u [OF assms(4)] assms(5) by simp
  moreover have "unat v = unat v div 4096 * 4096" "unat w = unat w div 4096 * 4096"
    using assms(1,2) unfolding page_aligned_unat by (metis add.right_neutral div_mult_mod_eq)+
  ultimately have "unat v = unat w" by metis
  then show ?thesis by (simp add: word_unat_eq_iff)
qed

lemma page_numbers_Suc: "page_numbers a (Suc n) = insert (page_number a) (page_numbers (a + PAGE_SIZE) n)"
  by (simp add: page_numbers_def pages_from_Suc)

lemma page_numbers_fresh:
  assumes "user_range a (Suc n)"
  shows "page_number a \<notin> page_numbers (a + PAGE_SIZE) n"
proof
  note r = user_range_Suc [OF assms]
  assume "page_number a \<in> page_numbers (a + PAGE_SIZE) n"
  then obtain v where v: "v \<in> set (pages_from (a + PAGE_SIZE) n)" "page_number a = page_number v" by (auto simp: page_numbers_def)
  note p = pages_from_unat [OF r(2) v(1)]
  have "a = v" using page_number_inj [of a v] p(2,3) v(2) r(1) assms by (simp add: user_range_def)
  then show False using p(1) r(3) by auto
qed

lemma page_numbers_mem: "v \<in> set (pages_from a n) \<Longrightarrow> page_number v \<in> page_numbers a n"
  by (simp add: page_numbers_def)

definition range_taken :: "u64 \<Rightarrow> u64 \<Rightarrow> nat \<Rightarrow> mach \<Rightarrow> mach \<Rightarrow> bool" where
  "range_taken k a n m m' \<longleftrightarrow> user_pages k m' \<and> reach 4 (m_pages m') k = reach 4 (m_pages m) k \<and>
     (\<forall>v. frame k m' v = (if page_number v \<in> page_numbers a n then None else frame k m v)) \<and>
     owned m' = owned m - {f. \<exists>v\<in>set (pages_from a n). frame k m v = Some f}"

lemma unmap_pages_user:
  assumes "user_pages k m" "user_range a n"
  shows "\<exists>m'. unmap_pages k a n m = Inr m' \<and> range_taken k a n m m'"
  using assms
proof (induction n arbitrary: a m)
  case 0
  then show ?case by (simp add: unmap_pages_def range_taken_def page_numbers_def)
next
  case (Suc n)
  note r = user_range_Suc [OF Suc.prems(2)]
  obtain m1 where m1: "unmap_page k a m = Inr m1" "page_taken k a m m1" using unmap_user_page [OF Suc.prems(1) r(1)] by blast
  have t: "user_pages k m1" "reach 4 (m_pages m1) k = reach 4 (m_pages m) k" "owned m1 = owned m - set_option (frame k m a)"
    and fr: "frame k m1 v = (if page_number a = page_number v then None else frame k m v)" for v
    using m1(2) by (auto simp: page_taken_def)
  obtain m' where m': "unmap_pages k (a + PAGE_SIZE) n m1 = Inr m'" "range_taken k (a + PAGE_SIZE) n m1 m'"
    using Suc.IH [OF t(1) r(2)] by blast
  have same: "frame k m1 v = frame k m v" if "v \<in> set (pages_from (a + PAGE_SIZE) n)" for v
    using page_numbers_fresh [OF Suc.prems(2)] page_numbers_mem [OF that] fr [of v] by auto
  have "owned m' = owned m - {f. \<exists>v\<in>set (pages_from a (Suc n)). frame k m v = Some f}"
    using m'(2) t(3) same unfolding range_taken_def pages_from_Suc by auto
  moreover have "frame k m' v = (if page_number v \<in> page_numbers a (Suc n) then None else frame k m v)" for v
    using m'(2) fr [of v] unfolding range_taken_def page_numbers_Suc by auto
  ultimately have "range_taken k a (Suc n) m m'" using m'(2) t(2) unfolding range_taken_def by simp
  moreover have "unmap_pages k a (Suc n) m = Inr m'" using m1(1) m'(1) by (simp add: unmap_pages_def pages_from_Suc)
  ultimately show ?case by blast
qed

definition range_given :: "u64 \<Rightarrow> u64 \<Rightarrow> nat \<Rightarrow> mach \<Rightarrow> mach \<Rightarrow> bool" where
  "range_given k a n m m' \<longleftrightarrow> user_pages k m' \<and> owned m \<subseteq> owned m' \<and>
     (\<forall>v. if page_number v \<in> page_numbers a n then \<exists>f. frame k m' v = Some f \<and> f \<notin> owned m else frame k m' v = frame k m v) \<and>
     owned m' - owned m \<subseteq> {f. \<exists>v\<in>set (pages_from a n). frame k m' v = Some f} \<union> reach 4 (m_pages m') k \<and>
     reach 4 (m_pages m) k \<subseteq> reach 4 (m_pages m') k"

lemma range_given_none: "nothing_given k m m' \<Longrightarrow> range_given k a 0 m m'"
  by (auto simp: range_given_def nothing_given_def page_numbers_def)

lemma range_given_Suc:
  assumes r: "user_range a (Suc n)" and pg: "page_given k a fl m m2" and rg: "range_given k (a + PAGE_SIZE) j m2 m'" and j: "j \<le> n"
  shows "range_given k a (Suc j) m m'"
proof -
  have r': "user_range a (Suc j)" using r j by (simp add: user_range_def)
  obtain x where x: "x \<notin> owned m" "owned m \<subseteq> owned m2" "owned m2 - owned m \<subseteq> insert x (reach 4 (m_pages m2) k)"
    and fr: "\<And>v. frame k m2 v = (if page_number a = page_number v then Some x else frame k m v)"
    using pg by (auto simp: page_given_def)
  have fr': "if page_number v \<in> page_numbers (a + PAGE_SIZE) j then \<exists>f. frame k m' v = Some f \<and> f \<notin> owned m2
      else frame k m' v = frame k m2 v" for v using rg by (auto simp: range_given_def)
  have fa: "frame k m' a = Some x" using fr' [of a] fr [of a] page_numbers_fresh [OF r'] by simp
  have "if page_number v \<in> page_numbers a (Suc j) then \<exists>f. frame k m' v = Some f \<and> f \<notin> owned m else frame k m' v = frame k m v" for v
    using fr' [of v] fr [of v] x(1,2) unfolding page_numbers_Suc by (auto split: if_splits)
  moreover have "owned m' - owned m \<subseteq> {f. \<exists>v\<in>set (pages_from a (Suc j)). frame k m' v = Some f} \<union> reach 4 (m_pages m') k"
  proof
    fix f assume "f \<in> owned m' - owned m"
    then show "f \<in> {f. \<exists>v\<in>set (pages_from a (Suc j)). frame k m' v = Some f} \<union> reach 4 (m_pages m') k"
      using rg x(3) fa unfolding range_given_def pages_from_Suc by (cases "f \<in> owned m2") auto
  qed
  ultimately show ?thesis using rg pg x(2) unfolding range_given_def page_given_def by blast
qed

lemma map_pages_user:
  assumes "user_pages k m" "user_range a n" "\<forall>v\<in>set (pages_from a n). frame k m v = None"
    and fl: "bit (fl OR PTE_USER) 0" "(fl OR PTE_USER) AND PTE_ADDR_MASK = 0"
  shows "\<exists>ok j m'. map_pages k fl n a m = Inr (ok, j, m') \<and> j \<le> n \<and> (ok \<longrightarrow> j = n) \<and> range_given k a j m m'"
  using assms(1-3)
proof (induction n arbitrary: a m)
  case 0
  then have "range_given k a 0 m m" by (intro range_given_none) (simp add: nothing_given_def)
  then show ?case by auto
next
  case (Suc n)
  note r = user_range_Suc [OF Suc.prems(2)]
  have nm: "frame k m a = None" using Suc.prems(3) by (simp add: pages_from_Suc)
  obtain p m1 where al: "alloc_page m = (p, m1)" by fastforce
  show ?case
  proof (cases "p = 0")
    case True
    note a1 = alloc_page_user [OF Suc.prems(1) al]
    have "range_given k a 0 m m1" using a1 True by (intro range_given_none) (simp add: nothing_given_def)
    then show ?thesis using al True by auto
  next
    case False
    obtain r0 m2 where mp: "vmm_map_user k a p fl m1 = Inr (r0, m2)" "r0 = 0 \<longrightarrow> page_given k a fl m m2"
      "r0 \<noteq> 0 \<longrightarrow> (\<exists>m3. free_page p m2 = Inr m3 \<and> nothing_given k m m3)"
      using map_user_page [OF Suc.prems(1) nm al False fl] by (elim exE conjE)
    show ?thesis
    proof (cases "r0 = 0")
      case False
      then obtain m3 where "free_page p m2 = Inr m3" "nothing_given k m m3" using mp(3) by blast
      then show ?thesis using range_given_none [of k m m3 a] al mp(1) False \<open>p \<noteq> 0\<close> by auto
    next
      case True
      then have pg: "page_given k a fl m m2" using mp(2) by simp
      then have up2: "user_pages k m2" by (simp add: page_given_def)
      have "\<forall>v\<in>set (pages_from (a + PAGE_SIZE) n). frame k m2 v = None"
      proof
        fix v assume v: "v \<in> set (pages_from (a + PAGE_SIZE) n)"
        have "page_number a \<noteq> page_number v" using page_numbers_fresh [OF Suc.prems(2)] page_numbers_mem [OF v] by auto
        then show "frame k m2 v = None" using pg Suc.prems(3) v by (auto simp: page_given_def pages_from_Suc)
      qed
      from Suc.IH [OF up2 r(2) this] obtain ok j m' where
        IH: "map_pages k fl n (a + PAGE_SIZE) m2 = Inr (ok, j, m')" "j \<le> n" "ok \<longrightarrow> j = n" "range_given k (a + PAGE_SIZE) j m2 m'"
        by (elim exE conjE)
      have "map_pages k fl (Suc n) a m = Inr (ok, Suc j, m')" using al mp(1) True \<open>p \<noteq> 0\<close> IH(1) by simp
      then show ?thesis using range_given_Suc [OF Suc.prems(2) pg IH(4,2)] IH(2,3) by blast
    qed
  qed
qed

text \<open>Giving pages and taking the same pages away leaves the translations as they were.\<close>

lemma given_then_taken:
  assumes r: "user_range a n" "j \<le> n" and none: "\<forall>v\<in>set (pages_from a n). frame k m v = None"
    and g: "range_given k a j m m1" and t: "range_taken k a j m1 m2"
  shows "nothing_given k m m2"
proof -
  have rj: "user_range a j" using r by (simp add: user_range_def)
  have sub: "set (pages_from a j) \<subseteq> set (pages_from a n)" using r(2) by (auto simp: pages_from_def)
  have fg: "if page_number v \<in> page_numbers a j then \<exists>f. frame k m1 v = Some f \<and> f \<notin> owned m else frame k m1 v = frame k m v" for v
    using g by (simp add: range_given_def)
  have og: "owned m \<subseteq> owned m1" "owned m1 - owned m \<subseteq> {f. \<exists>v\<in>set (pages_from a j). frame k m1 v = Some f} \<union> reach 4 (m_pages m1) k"
    "reach 4 (m_pages m) k \<subseteq> reach 4 (m_pages m1) k" using g by (simp_all add: range_given_def)
  have tk: "user_pages k m2" "reach 4 (m_pages m2) k = reach 4 (m_pages m1) k"
    "owned m2 = owned m1 - {f. \<exists>v\<in>set (pages_from a j). frame k m1 v = Some f}"
    and ft: "frame k m2 v = (if page_number v \<in> page_numbers a j then None else frame k m1 v)" for v
    using t by (simp_all add: range_taken_def)
  have "frame k m2 v = frame k m v" for v
  proof (cases "page_number v \<in> page_numbers a j")
    case True
    then obtain w where "w \<in> set (pages_from a j)" "page_number w = page_number v" by (auto simp: page_numbers_def)
    then have "frame k m v = None" using none sub frame_same_page [of w v k m] by auto
    then show ?thesis using ft True by simp
  next
    case False
    then show ?thesis using fg [of v] ft by simp
  qed
  then have "frame k m2 = frame k m" by blast
  moreover have "frame k m1 v \<noteq> Some f" if "f \<in> owned m" "v \<in> set (pages_from a j)" for f v
    using fg [of v] page_numbers_mem [OF that(2)] that(1) by auto
  then have "owned m \<subseteq> owned m2" using og(1) tk(3) by blast
  moreover have "owned m2 - owned m \<subseteq> reach 4 (m_pages m2) k" using og(2) tk(2,3) by blast
  ultimately show ?thesis using tk(1,2) og(3) unfolding nothing_given_def by simp
qed

section \<open>The node of a region\<close>

lemma kfree_mach:
  "kfree p (h\<lparr>kh_mach := m\<rparr>) = bind_res (kfree p h) (\<lambda>h'. Inr (h'\<lparr>kh_mach := m\<rparr>))"
  by (simp add: kfree_def kfree_merge_prev_def kfree_merge_next_def Let_def set_hdr_def on_links_def)

text \<open>The region with given bounds is found and taken out.\<close>

lemma unlink_region:
  assumes ok: "vmas_ok vs" and v: "(p, v) \<in> set vs"
  shows "\<exists>ws. unlink_vma (vm_start v) (vm_end v) vs = Some (p, ws) \<and> set ws = set vs - {(p, v)} \<and> vmas_ok ws"
proof -
  obtain ls rs where s: "vs = ls @ (p, v) # rs" using v by (meson split_list)
  have l: "\<forall>w\<in>set ls. before w (p, v) \<and> region_ok (snd w)" and r: "\<forall>w\<in>set rs. before (p, v) w \<and> region_ok (snd w)" and "region_ok v"
    using ok unfolding s vmas_ok_def by (auto simp: sorted_wrt_append)
  then have nl: "\<forall>w\<in>set ls. vm_start (snd w) \<noteq> vm_start v" and nr: "\<forall>w\<in>set rs. vm_start (snd w) \<noteq> vm_start v"
    by (fastforce simp: before_def region_ok_def)+
  have "unlink_vma (vm_start v) (vm_end v) vs = Some (p, ls @ rs)" unfolding s using unlink_vma_split [of ls "vm_start v" "(p, v)"] nl by simp
  moreover have "set (ls @ rs) = set vs - {(p, v)}" using nl nr unfolding s by auto
  moreover have "vmas_ok (ls @ rs)" using ok unfolding s vmas_ok_def by (auto simp: sorted_wrt_append)
  ultimately show ?thesis by blast
qed

lemma vma_find_region:
  assumes ok: "vmas_ok (us_vmas s)"
  shows "vma_find x s = Some (p, v) \<longleftrightarrow> (p, v) \<in> set (us_vmas s) \<and> vm_start v \<le> x \<and> x < vm_end v"
proof
  assume "vma_find x s = Some (p, v)"
  then show "(p, v) \<in> set (us_vmas s) \<and> vm_start v \<le> x \<and> x < vm_end v"
    unfolding vma_find_def find_Some_iff by (metis nth_mem snd_conv)
next
  assume a: "(p, v) \<in> set (us_vmas s) \<and> vm_start v \<le> x \<and> x < vm_end v"
  then obtain ls rs where s: "us_vmas s = ls @ (p, v) # rs" by (meson split_list)
  have "\<forall>w\<in>set ls. before w (p, v)" using ok unfolding s vmas_ok_def by (auto simp: sorted_wrt_append)
  then have "\<forall>w\<in>set ls. \<not> (vm_start (snd w) \<le> x \<and> x < vm_end (snd w))" using a by (auto simp: before_def)
  then have "find (\<lambda>v. vm_start (snd v) \<le> x \<and> x < vm_end (snd v)) (ls @ (p, v) # rs) = Some (p, v)"
    using a by (induction ls) auto
  then show "vma_find x s = Some (p, v)" by (simp add: vma_find_def s)
qed

definition region_size :: "vma \<Rightarrow> u64" where "region_size v = vm_end v - vm_start v"

lemma region_range:
  assumes "region_ok v"
  shows "user_range (vm_start v) (unat (region_size v) div 4096)" "unat (region_size v) div 4096 * 4096 = unat (vm_end v) - unat (vm_start v)"
    "vm_start v + region_size v = vm_end v" "vm_start v \<noteq> 0" "unat (region_size v) = unat (vm_end v) - unat (vm_start v)"
proof -
  have r: "page_aligned (vm_start v)" "page_aligned (vm_end v)" "vm_start v < vm_end v" "USER_MMAP_BASE \<le> vm_start v" "vm_end v \<le> USER_MMAP_END"
    using assms by (auto simp: region_ok_def)
  show u: "unat (region_size v) = unat (vm_end v) - unat (vm_start v)" unfolding region_size_def using r(3) by (simp add: unat_sub)
  have "unat (region_size v) mod 4096 = 0" unfolding u using r(1,2) unfolding page_aligned_unat by (metis dvd_diff_nat mod_0_imp_dvd mod_eq_0_iff_dvd)
  then show e: "unat (region_size v) div 4096 * 4096 = unat (vm_end v) - unat (vm_start v)" using u by auto
  show "user_range (vm_start v) (unat (region_size v) div 4096)"
    using r u e by (simp add: user_range_def word_le_nat_alt word_less_nat_alt)
  show "vm_start v + region_size v = vm_end v" by (simp add: region_size_def)
  show "vm_start v \<noteq> 0" using r(4) by auto
qed

lemma page_offset:
  fixes a x n :: nat
  assumes "a mod 4096 = 0"
  shows "(\<exists>i<n. x div 4096 = a div 4096 + i) \<longleftrightarrow> a \<le> x \<and> x < a + n * 4096"
proof -
  obtain c where c: "a = 4096 * c" using assms by auto
  have "(\<exists>i<n. x div 4096 = c + i) \<longleftrightarrow> c \<le> x div 4096 \<and> x div 4096 < c + n"
    by (auto intro!: exI [of _ "x div 4096 - c"])
  also have "\<dots> \<longleftrightarrow> 4096 * c \<le> x \<and> x < 4096 * c + n * 4096" by linarith
  finally show ?thesis unfolding c by simp
qed

lemma page_numbers_iff:
  assumes "user_range a n" "x < 0x1000000000000"
  shows "page_number x \<in> page_numbers a n \<longleftrightarrow> unat a \<le> unat x \<and> unat x < unat a + n * 4096"
proof -
  have pn: "unat (page_number y) = unat y div 4096" if "y < 0x1000000000000" for y
    using that by (simp add: page_number_def take_bit_eq_mod drop_bit_eq_div unat_mod unat_div word_less_nat_alt)
  have al: "unat a mod 4096 = 0" using assms(1) by (simp add: user_range_def page_aligned_unat)
  have mem: "page_number x = page_number (a + of_nat i * PAGE_SIZE) \<longleftrightarrow> unat x div 4096 = unat a div 4096 + i" if "i < n" for i
  proof -
    let ?y = "a + of_nat i * PAGE_SIZE"
    have "?y \<in> set (pages_from a n)" using that by (auto simp: pages_from_def)
    note y = pages_from_unat [OF assms(1) this]
    have iy: "unat ?y = unat a + i * 4096" using that assms(1) by (simp add: user_range_def unat_word_ariths unat_of_nat)
    have "?y < 0x1000000000000" using y(2) by (simp add: user_area_def word_less_nat_alt)
    then show ?thesis using pn [OF assms(2)] pn [of ?y] iy by (auto simp: word_unat_eq_iff)
  qed
  have "page_number x \<in> page_numbers a n \<longleftrightarrow> (\<exists>i<n. unat x div 4096 = unat a div 4096 + i)"
  proof -
    have "page_number x \<in> page_numbers a n \<longleftrightarrow> (\<exists>i<n. page_number x = page_number (a + of_nat i * PAGE_SIZE))"
      unfolding page_numbers_def pages_from_def by auto
    then show ?thesis using mem by blast
  qed
  also have "\<dots> \<longleftrightarrow> unat a \<le> unat x \<and> unat x < unat a + n * 4096" by (rule page_offset [OF al])
  finally show ?thesis .
qed

lemma region_pages:
  assumes "region_ok v" "x < 0x1000000000000"
  shows "page_number x \<in> page_numbers (vm_start v) (unat (region_size v) div 4096) \<longleftrightarrow> vm_start v \<le> x \<and> x < vm_end v"
proof -
  have "vm_start v \<le> vm_end v" using assms(1) by (simp add: region_ok_def order_less_imp_le)
  then show ?thesis using page_numbers_iff [OF region_range(1) [OF assms(1)] assms(2)] region_range(2) [OF assms(1)]
    by (auto simp: word_le_nat_alt word_less_nat_alt)
qed

lemma region_area: "region_ok v \<Longrightarrow> vm_start v \<le> x \<Longrightarrow> x < vm_end v \<Longrightarrow> x \<in> user_area \<and> x < 0x1000000000000"
  by (auto simp: region_ok_def user_area_def word_le_nat_alt word_less_nat_alt)

text \<open>Freeing a region after the machine has changed.\<close>

lemma vma_free_region:
  assumes "vmas_ok (us_vmas s)" "nodes_ok s" "(p, v) \<in> set (us_vmas s)"
  shows "\<exists>s' h. vma_free (vm_start v) (region_size v) (set_mach m s) = Inr (0, s') \<and>
    set (us_vmas s') = set (us_vmas s) - {(p, v)} \<and> vmas_ok (us_vmas s') \<and> us_pml4 s' = us_pml4 s \<and>
    kfree p (us_heap s) = Inr h \<and> us_heap s' = h\<lparr>kh_mach := m\<rparr>"
proof -
  obtain ws where ws: "unlink_vma (vm_start v) (vm_end v) (us_vmas s) = Some (p, ws)" "set ws = set (us_vmas s) - {(p, v)}" "vmas_ok ws"
    using unlink_region [OF assms(1,3)] by blast
  have "heap_ok (us_heap s)" "p \<in> dom (heap_blocks (us_heap s))" using assms(2,3) by (auto simp: nodes_ok_def)
  then obtain h where h: "kfree p (us_heap s) = Inr h" using kh.dealloc_spec [of "us_heap s" p] by blast
  let ?s = "(set_mach m s)\<lparr>us_vmas := ws, us_heap := h\<lparr>kh_mach := m\<rparr>\<rparr>"
  have e: "vm_start v + region_size v = vm_end v" by (simp add: region_size_def)
  have "vma_free (vm_start v) (region_size v) (set_mach m s) = Inr (0, ?s)"
    unfolding vma_free_def e by (simp add: ws(1) kfree_mach h)
  then show ?thesis using ws(2,3) h by (intro exI [of _ ?s] exI [of _ h]) simp
qed

section \<open>Properties\<close>

text \<open>
  (C11) Backing a registered region is all or nothing, and it always returns.  When
  enough memory is available every address of the region translates to a page that
  was free before, different user pages to different ones, and no other translation
  changes.  Otherwise the call returns 0, no translation at all has changed, every
  page given to the region is free again (the only pages kept are new page tables of
  this address space), the region is off the list and its node is freed.
\<close>
theorem mmap_populate_all_or_nothing:
  assumes "user_pages (us_pml4 s) (us_mach s)" "vmas_ok (us_vmas s)" "nodes_ok s" "(p, v) \<in> set (us_vmas s)"
    "\<forall>x. vm_start v \<le> x \<and> x < vm_end v \<longrightarrow> \<not> vmm_is_mapped (us_pml4 s) x (us_mach s)"
  shows "\<exists>r s'. mmap_populate (vm_start v) (vm_end v - vm_start v) prot s = Inr (r, s') \<and>
    user_pages (us_pml4 s) (us_mach s') \<and> us_pml4 s' = us_pml4 s \<and> vmas_ok (us_vmas s') \<and>
    (if r \<noteq> 0 then r = vm_start v \<and> us_vmas s' = us_vmas s \<and>
       (\<forall>x < 0x1000000000000. if vm_start v \<le> x \<and> x < vm_end v
          then \<exists>f. frame (us_pml4 s) (us_mach s') x = Some f \<and> f \<notin> owned (us_mach s)
          else frame (us_pml4 s) (us_mach s') x = frame (us_pml4 s) (us_mach s) x)
     else set (us_vmas s') = set (us_vmas s) - {(p, v)} \<and>
       frame (us_pml4 s) (us_mach s') = frame (us_pml4 s) (us_mach s) \<and>
       owned (us_mach s) \<subseteq> owned (us_mach s') \<and>
       owned (us_mach s') - owned (us_mach s) \<subseteq> reach 4 (m_pages (us_mach s')) (us_pml4 s) \<and>
       (\<exists>h. kfree p (us_heap s) = Inr h \<and> us_heap s' = h\<lparr>kh_mach := us_mach s'\<rparr>))"
proof -
  let ?k = "us_pml4 s" and ?m = "us_mach s" and ?a = "vm_start v"
  define n where "n = unat (region_size v) div 4096"
  have ro: "region_ok v" using assms(2,4) by (auto simp: vmas_ok_def)
  note rr = region_range [OF ro, folded n_def]
  have none: "\<forall>x\<in>set (pages_from ?a n). frame ?k ?m x = None"
  proof
    fix x assume x: "x \<in> set (pages_from ?a n)"
    have "x < 0x1000000000000" using pages_from_unat(2) [OF rr(1) x] by (simp add: user_area_def word_less_nat_alt)
    then have "vm_start v \<le> x \<and> x < vm_end v" using region_pages [OF ro, folded n_def] page_numbers_mem [OF x] by blast
    then show "frame ?k ?m x = None" using assms(5) by (simp add: frame_mapped)
  qed
  obtain ok j m' where mp: "map_pages ?k (pte_flags prot) n ?a ?m = Inr (ok, j, m')" "j \<le> n" "ok \<longrightarrow> j = n" "range_given ?k ?a j ?m m'"
    using map_pages_user [OF assms(1) rr(1) none user_flags [of prot]] by (elim exE conjE)
  have pop: "mmap_populate ?a (vm_end v - vm_start v) prot s =
     (if ok then Inr (?a, set_mach m' s) else bind_res (unmap_pages ?k ?a j m') (\<lambda>m1.
         bind_res (vma_free ?a (region_size v) (set_mach m1 s)) (\<lambda>(_, s1). Inr (0, s1))))"
    unfolding mmap_populate_def region_size_def [symmetric] n_def [symmetric] using mp(1) by simp
  show ?thesis
  proof (cases ok)
    case True
    have fr: "if page_number x \<in> page_numbers ?a n then \<exists>f. frame ?k m' x = Some f \<and> f \<notin> owned ?m else frame ?k m' x = frame ?k ?m x" for x
      using mp(3,4) True by (simp add: range_given_def)
    have "if vm_start v \<le> x \<and> x < vm_end v then \<exists>f. frame ?k m' x = Some f \<and> f \<notin> owned ?m else frame ?k m' x = frame ?k ?m x"
      if "x < 0x1000000000000" for x using fr [of x] region_pages [OF ro that, folded n_def] by simp
    moreover have "user_pages ?k m'" using mp(4) by (simp add: range_given_def)
    ultimately show ?thesis using pop True assms(2) rr(4) by (intro exI [of _ ?a] exI [of _ "set_mach m' s"]) simp
  next
    case False
    have "user_pages ?k m'" "user_range ?a j" using mp(2,4) rr(1) by (auto simp: range_given_def user_range_def)
    then obtain m1 where un: "unmap_pages ?k ?a j m' = Inr m1" "range_taken ?k ?a j m' m1" using unmap_pages_user by blast
    have ng: "nothing_given ?k ?m m1" by (rule given_then_taken [OF rr(1) mp(2) none mp(4) un(2)])
    obtain s' h where f: "vma_free ?a (region_size v) (set_mach m1 s) = Inr (0, s')" "set (us_vmas s') = set (us_vmas s) - {(p, v)}"
      "vmas_ok (us_vmas s')" "us_pml4 s' = ?k" "kfree p (us_heap s) = Inr h" "us_heap s' = h\<lparr>kh_mach := m1\<rparr>"
      using vma_free_region [OF assms(2-4)] by blast
    have "mmap_populate ?a (vm_end v - vm_start v) prot s = Inr (0, s')" using pop False un(1) f(1) by simp
    then show ?thesis using f ng unfolding nothing_given_def by (intro exI [of _ 0] exI [of _ s']) simp
  qed
qed

lemma user_root_not_null: "user_pages k m \<Longrightarrow> k \<noteq> 0"
  using owned_not_null reach_root [of k 3 "m_pages m"] unfolding user_pages_def addr_space_def level_numerals by blast

text \<open>
  (C10) \<open>do_munmap\<close> always returns and succeeds exactly when its rounded range is one whole
  region.  Then the region's addresses are unmapped and no others, exactly the physical
  pages behind them become free, each of them once, the region is off the list and its
  node is freed.  Otherwise nothing changes.
\<close>
theorem munmap_releases_exactly:
  fixes addr len :: u64
  assumes "user_pages (us_pml4 s) (us_mach s)" "vmas_ok (us_vmas s)" "nodes_ok s"
  defines "a \<equiv> addr AND NOT (PAGE_SIZE - 1)" and "l \<equiv> (len + (PAGE_SIZE - 1)) AND NOT (PAGE_SIZE - 1)"
  shows "if \<exists>p v. (p, v) \<in> set (us_vmas s) \<and> vm_start v = a \<and> vm_end v = a + l then
      \<exists>s' p v h. do_munmap addr len s = Inr (0, s') \<and> (p, v) \<in> set (us_vmas s) \<and> vm_start v = a \<and> vm_end v = a + l \<and>
        set (us_vmas s') = set (us_vmas s) - {(p, v)} \<and> vmas_ok (us_vmas s') \<and> us_pml4 s' = us_pml4 s \<and>
        user_pages (us_pml4 s) (us_mach s') \<and>
        (\<forall>x < 0x1000000000000. frame (us_pml4 s) (us_mach s') x =
          (if a \<le> x \<and> x < a + l then None else frame (us_pml4 s) (us_mach s) x)) \<and>
        owned (us_mach s') = owned (us_mach s) - {f. \<exists>x\<in>set (pages_from a (unat l div 4096)). frame (us_pml4 s) (us_mach s) x = Some f} \<and>
        kfree p (us_heap s) = Inr h \<and> us_heap s' = h\<lparr>kh_mach := us_mach s'\<rparr>
    else do_munmap addr len s = Inr (- 1, s)"
proof (cases "\<exists>p v. (p, v) \<in> set (us_vmas s) \<and> vm_start v = a \<and> vm_end v = a + l")
  case True
  then obtain p v where v: "(p, v) \<in> set (us_vmas s)" "vm_start v = a" "vm_end v = a + l" by blast
  have ro: "region_ok v" using assms(2) v(1) by (auto simp: vmas_ok_def)
  have l: "region_size v = l" by (simp add: region_size_def v(2,3))
  note rr = region_range [OF ro, unfolded l v(2,3)]
  let ?k = "us_pml4 s" and ?m = "us_mach s" and ?n = "unat l div 4096"
  obtain m1 where un: "unmap_pages ?k a ?n ?m = Inr m1" "range_taken ?k a ?n ?m m1"
    using unmap_pages_user [OF assms(1) rr(1)] by blast
  obtain s' h where f: "vma_free a l (set_mach m1 s) = Inr (0, s')" "set (us_vmas s') = set (us_vmas s) - {(p, v)}"
    "vmas_ok (us_vmas s')" "us_pml4 s' = ?k" "kfree p (us_heap s) = Inr h" "us_heap s' = h\<lparr>kh_mach := m1\<rparr>"
    using vma_free_region [OF assms(2,3) v(1), unfolded l v(2)] by blast
  have st: "a < a + l" using ro v(2,3) by (simp add: region_ok_def)
  have find: "vma_find a s = Some (p, v)" using vma_find_region [OF assms(2)] v st by simp
  have "a \<le> a + l" using st by simp
  then have "unat l + unat a = unat (a + l)" using rr(5) by (simp add: word_le_nat_alt)
  then have nw: "\<not> l > - 1 - a" using nowrap_iff [of l a] unsigned_less [of "a + l", where ?'a = nat] by (simp add: not_less)
  have "l \<noteq> 0" using st by auto
  then have "do_munmap addr len s = Inr (0, s')"
    using user_root_not_null [OF assms(1)] nw find v(2,3) un(1) f(1) unfolding do_munmap_def Let_def a_def [symmetric] l_def [symmetric] by simp
  moreover have "frame ?k m1 x = (if a \<le> x \<and> x < a + l then None else frame ?k ?m x)" if "x < 0x1000000000000" for x
    using un(2) region_pages [OF ro that, unfolded l v(2,3)] by (simp add: range_taken_def)
  moreover have "user_pages ?k m1" "owned m1 = owned ?m - {f. \<exists>x\<in>set (pages_from a ?n). frame ?k ?m x = Some f}"
    using un(2) by (simp_all add: range_taken_def)
  moreover have "us_mach s' = m1" using f(6) by simp
  ultimately show ?thesis unfolding if_P [OF True] using v f
    by (intro exI [of _ s'] exI [of _ p] exI [of _ v] exI [of _ h]) simp
next
  case False
  have "do_munmap addr len s = Inr (- 1, s)"
  proof (cases "vma_find a s")
    case None
    then show ?thesis unfolding do_munmap_def Let_def a_def [symmetric] l_def [symmetric] by simp
  next
    case (Some pv)
    obtain p v where pv: "pv = (p, v)" by (cases pv)
    have "(p, v) \<in> set (us_vmas s)" using vma_find_region [OF assms(2)] Some pv by blast
    then have "vm_start v \<noteq> a \<or> vm_end v \<noteq> a + l" using False by blast
    then show ?thesis using Some pv unfolding do_munmap_def Let_def a_def [symmetric] l_def [symmetric] by simp
  qed
  then show ?thesis using False by simp
qed

lemma page_start_in_region:
  assumes "region_ok v" "vm_start v \<le> x" "x < vm_end v"
  shows "vm_start v \<le> x AND NOT pmask" "x AND NOT pmask < vm_end v"
proof -
  have u: "unat (x AND NOT pmask) = unat x - unat x mod 4096" using unat_and_not_mask [of x 12] by simp
  obtain c where c: "unat (vm_start v) = 4096 * c" using assms(1) by (auto simp: region_ok_def page_aligned_unat)
  have "4096 * c \<le> unat x" using assms(2) c by (simp add: word_le_nat_alt)
  then have "c \<le> unat x div 4096" by linarith
  then have "4096 * c \<le> unat x - unat x mod 4096" unfolding minus_mod_eq_mult_div by simp
  then show "vm_start v \<le> x AND NOT pmask" using u c by (simp add: word_le_nat_alt)
  show "x AND NOT pmask < vm_end v" using u assms(3) by (simp add: word_less_nat_alt)
qed

lemma page_fault_demand_cases:
  assumes up: "user_pages (us_pml4 s) (us_mach s)" and ok: "vmas_ok (us_vmas s)" and v: "vma_find x s = Some (p, v)"
  shows "\<exists>r s'. page_fault_demand x s = Inr (r, s') \<and> us_vmas s' = us_vmas s \<and> us_pml4 s' = us_pml4 s \<and>
    (if vmm_is_mapped (us_pml4 s) x (us_mach s) then r = 0 \<and> s' = s
     else r = 0 \<and> page_given (us_pml4 s) (x AND NOT pmask) (pte_flags (vm_prot v)) (us_mach s) (us_mach s') \<or>
       r \<noteq> 0 \<and> nothing_given (us_pml4 s) (us_mach s) (us_mach s'))"
proof -
  let ?k = "us_pml4 s" and ?m = "us_mach s" and ?x = "x AND NOT pmask" and ?fl = "pte_flags (vm_prot v)"
  have vr: "(p, v) \<in> set (us_vmas s)" "vm_start v \<le> x" "x < vm_end v" using v vma_find_region [OF ok] by blast+
  have ro: "region_ok v" using ok vr(1) by (auto simp: vmas_ok_def)
  have fd: "vma_find ?x s = Some (p, v)" using page_start_in_region [OF ro vr(2,3)] vr(1) vma_find_region [OF ok] by blast
  have 12: "x AND NOT 4095 = ?x" using page_clear [of x] by simp
  have mp: "vmm_is_mapped ?k ?x ?m = vmm_is_mapped ?k x ?m" by (rule is_mapped_page [OF page_number_page])
  show ?thesis
  proof (cases "vmm_is_mapped ?k x ?m")
    case True
    then show ?thesis unfolding page_fault_demand_def Let_def 12 by (simp add: mp)
  next
    case False
    then have nm: "frame ?k ?m ?x = None" using mp by (simp add: frame_mapped)
    obtain a m1 where al: "alloc_page ?m = (a, m1)" by fastforce
    show ?thesis
    proof (cases "a = 0")
      case True
      note a1 = alloc_page_user [OF up al]
      have "page_fault_demand x s = Inr (- 1, set_mach m1 s)" using False al True unfolding page_fault_demand_def Let_def 12 by (simp add: mp)
      then show ?thesis using False a1 True by (simp add: nothing_given_def)
    next
      case a: False
      obtain r m2 where mu: "vmm_map_user ?k ?x a ?fl m1 = Inr (r, m2)" "r = 0 \<longrightarrow> page_given ?k ?x ?fl ?m m2"
        "r \<noteq> 0 \<longrightarrow> (\<exists>m3. free_page a m2 = Inr m3 \<and> nothing_given ?k ?m m3)"
        using map_user_page [OF up nm al a user_flags [of "vm_prot v"]] by (elim exE conjE)
      have pd: "page_fault_demand x s = (if r \<noteq> 0 then bind_res (free_page a m2) (\<lambda>m3. Inr (- 1, set_mach m3 s)) else Inr (0, set_mach m2 s))"
        using False al a mu(1) fd unfolding page_fault_demand_def Let_def 12 by (simp add: mp)
      show ?thesis
      proof (cases "r = 0")
        case True
        then show ?thesis using pd mu(2) False by (intro exI [of _ 0] exI [of _ "set_mach m2 s"]) simp
      next
        case rn: False
        then obtain m3 where "free_page a m2 = Inr m3" "nothing_given ?k ?m m3" using mu(3) by blast
        then show ?thesis using pd False rn by (intro exI [of _ "- 1"] exI [of _ "set_mach m3 s"]) simp
      qed
    qed
  qed
qed

text \<open>
  (C12) The page fault handler resumes the thread only for a user access to a page that is
  not present at an address inside one of its regions; every other fault leaves memory
  as it is and kills the thread or goes to the exception handler.  On resuming from a
  fault on an unmapped page, that page has been given a physical page that was free,
  with a page table entry that carries exactly the rights of the region; no other
  translation has changed.  When memory runs out the thread is killed, no translation
  has changed and the page is returned.
\<close>
theorem page_fault_demand_paging:
  assumes "user_pages (us_pml4 s) (us_mach s)" "vmas_ok (us_vmas s)"
  shows "\<exists>out s'. page_fault_handler cur cr2 ec s = Inr (out, s') \<and> us_vmas s' = us_vmas s \<and> us_pml4 s' = us_pml4 s \<and>
    user_pages (us_pml4 s) (us_mach s') \<and>
    (if ec AND 4 \<noteq> 0 \<and> cur = Some True \<and> ec AND 1 = 0 \<and> (\<exists>w\<in>set (us_vmas s). vm_start (snd w) \<le> cr2 \<and> cr2 < vm_end (snd w))
     then if vmm_is_mapped (us_pml4 s) cr2 (us_mach s) then out = Resume \<and> s' = s
       else out = Resume \<and> (\<exists>w\<in>set (us_vmas s). vm_start (snd w) \<le> cr2 \<and> cr2 < vm_end (snd w) \<and>
           page_given (us_pml4 s) (cr2 AND NOT 0xFFF) (pte_flags (vm_prot (snd w))) (us_mach s) (us_mach s')) \<or>
         out = Kill ''demand paging OOM'' \<and> nothing_given (us_pml4 s) (us_mach s) (us_mach s')
     else out \<noteq> Resume \<and> s' = s)"
proof (cases "ec AND 4 \<noteq> 0 \<and> cur = Some True \<and> ec AND 1 = 0 \<and> vma_find cr2 s \<noteq> None")
  case True
  then obtain p v where v: "vma_find cr2 s = Some (p, v)" by auto
  then have vr: "(p, v) \<in> set (us_vmas s)" "vm_start v \<le> cr2" "cr2 < vm_end v" using vma_find_region [OF assms(2)] by blast+
  obtain r s' where r: "page_fault_demand cr2 s = Inr (r, s')" "us_vmas s' = us_vmas s" "us_pml4 s' = us_pml4 s"
    "if vmm_is_mapped (us_pml4 s) cr2 (us_mach s) then r = 0 \<and> s' = s
     else r = 0 \<and> page_given (us_pml4 s) (cr2 AND NOT pmask) (pte_flags (vm_prot v)) (us_mach s) (us_mach s') \<or>
       r \<noteq> 0 \<and> nothing_given (us_pml4 s) (us_mach s) (us_mach s')"
    using page_fault_demand_cases [OF assms v] by (elim exE conjE)
  have h: "page_fault_handler cur cr2 ec s = Inr (if r \<noteq> 0 then Kill ''demand paging OOM'' else Resume, s')"
    using True v vr(1) r(1) by (auto simp: page_fault_handler_def)
  have up: "user_pages (us_pml4 s) (us_mach s')" using r(4) assms(1) by (auto simp: page_given_def nothing_given_def split: if_splits)
  have c: "\<exists>w\<in>set (us_vmas s). vm_start (snd w) \<le> cr2 \<and> cr2 < vm_end (snd w)" using vr by force
  show ?thesis using h r(2-4) up True c vr unfolding page_mask_const(1) by (cases "vmm_is_mapped (us_pml4 s) cr2 (us_mach s)") force+
next
  case False
  have "vma_find cr2 s \<noteq> None" if "w \<in> set (us_vmas s)" "vm_start (snd w) \<le> cr2" "cr2 < vm_end (snd w)" for w
    using vma_find_region [OF assms(2), of cr2 "fst w" "snd w"] that by auto
  then have c: "\<not> (ec AND 4 \<noteq> 0 \<and> cur = Some True \<and> ec AND 1 = 0 \<and> (\<exists>w\<in>set (us_vmas s). vm_start (snd w) \<le> cr2 \<and> cr2 < vm_end (snd w)))"
    using False by blast
  have "\<exists>out. page_fault_handler cur cr2 ec s = Inr (out, s) \<and> out \<noteq> Resume"
    using False unfolding page_fault_handler_def by (cases cur) (auto split: option.split)
  then show ?thesis unfolding if_not_P [OF c] using assms(1) by auto
qed

section \<open>An example\<close>

text \<open>The thread of \<open>Vma\<close> with a region of two pages that is not backed yet.\<close>

definition region_example :: vma where
  "region_example = \<lparr>vm_start = 0x4000000, vm_end = 0x4002000, vm_prot = 3, vm_flags = 0x122\<rparr>"

definition us_region :: uspace where
  "us_region = (case vma_alloc 7 0x4000000 0x4002000 3 0x122 us_example of Inl _ \<Rightarrow> us_example | Inr (_, s) \<Rightarrow> s)"

lemma heap_example_links:
  "lnext (kh_links heap_example) (kh_head heap_example) = KHEAP_VBASE" "kh_head heap_example \<noteq> KHEAP_VBASE"
proof -
  obtain e where l: "heap_list heap_example [KHEAP_VBASE] e" using heap_example_inv(1) by (auto simp: heap_inv_def)
  then have d: "dlist (kh_links heap_example) (kh_head heap_example) [KHEAP_VBASE]" by (simp add: heap_list_def)
  show "lnext (kh_links heap_example) (kh_head heap_example) = KHEAP_VBASE"
    using dlist_first [OF d] by (simp add: list_first_entry_def)
  have "\<not> h_free (kh_hdr heap_example (kh_head heap_example))" using l by (simp add: heap_list_def)
  then show "kh_head heap_example \<noteq> KHEAP_VBASE" by (auto simp: heap_example_free)
qed

lemma heap_example_kmalloc:
  "kmalloc 7 VMA_SIZE heap_example = Inr (take_block 7 80 KHEAP_VBASE heap_example)"
proof -
  have "find_fit (kh_head heap_example) (kh_hdr heap_example) (kh_links heap_example) 80 KHEAP_VBASE = Some (Some KHEAP_VBASE)"
    by (subst find_fit.simps) (use heap_example_links(2) in \<open>simp add: heap_example_free\<close>)
  moreover have "(32 + 48 + (16 - 1) :: u64) AND NOT (16 - 1) = 80" by simp
  ultimately show ?thesis unfolding kmalloc_def Let_def heap_example_links(1) by simp
qed

lemma us_region_ok:
  "\<exists>p. us_vmas us_region = [(p, region_example)]" "us_mach us_region = kh_mach heap_example" "us_pml4 us_region = 0x100000"
  "nodes_ok us_region" "vmas_ok (us_vmas us_region)"
proof -
  have n: "nodes_ok us_example" using heap_example_ok by (simp add: nodes_ok_def us_example_def)
  obtain p s where a: "vma_alloc 7 0x4000000 0x4002000 3 0x122 us_example = Inr (p, s)" "nodes_ok s"
    using alloc_nodes [OF n] by blast
  then have e: "us_region = s" by (simp add: us_region_def)
  have p: "p = fst (take_block 7 80 KHEAP_VBASE heap_example)" "us_heap s = snd (take_block 7 80 KHEAP_VBASE heap_example)"
    using a(1) heap_example_kmalloc unfolding vma_alloc_def us_example_def
    by (auto simp: Let_def split: if_splits prod.splits)
  have "p \<noteq> 0" unfolding p(1) by (simp add: take_block_def Let_def heap_example_free)
  then have v: "us_vmas s = [(p, region_example)]" "us_pml4 s = 0x100000"
    using vma_alloc_Inr [OF a(1)] by (simp_all add: us_example_def region_example_def)
  show "\<exists>p. us_vmas us_region = [(p, region_example)]" "us_pml4 us_region = 0x100000" "nodes_ok us_region" using e v a(2) by simp_all
  show "us_mach us_region = kh_mach heap_example" unfolding e p(2) by (rule take_block_mach)
  show "vmas_ok (us_vmas us_region)" unfolding e v by (simp add: vmas_ok_def region_ok_def region_example_def page_aligned_def)
qed

lemma empty_user_pages:
  assumes "addr_space k m" "k \<le> 0x00007FFFFFFFFFFF" "m_pages m k 0 = 0"
  shows "user_pages k m" "v \<in> user_area \<Longrightarrow> frame k m v = None"
proof -
  have "walk 4 k v (m_pages m) = None" if "v \<in> user_area" for v
  proof -
    have "drop_bit 39 v = 0" using that
      by (simp add: user_area_def drop_bit_eq_div word_unat_eq_iff unat_div word_less_nat_alt)
    then have "lidx 4 v = 0" by (simp add: lidx_def lbits_def)
    then show ?thesis unfolding walk_levels(1) Let_def using assms(3) by simp
  qed
  then show fr: "frame k m v = None" if "v \<in> user_area" for v using that by (simp add: frame_def)
  show "user_pages k m" using assms(1,2) fr by (intro user_pagesI) simp_all
qed

lemma us_region_pages: "user_pages (us_pml4 us_region) (us_mach us_region)"
  "v \<in> user_area \<Longrightarrow> frame (us_pml4 us_region) (us_mach us_region) v = None"
proof -
  have "addr_space 0x100000 (kh_mach heap_example)"
    using heap_example_inv(1) heap_example_mach(2) unfolding heap_inv_def heap_mapped_def kernel_space_def by auto
  then show "user_pages (us_pml4 us_region) (us_mach us_region)" "v \<in> user_area \<Longrightarrow> frame (us_pml4 us_region) (us_mach us_region) v = None"
    using empty_user_pages [OF _ _ heap_example_mach(1)] by (simp_all add: us_region_ok(2,3))
qed

theorem mmap_populate_all_or_nothing_witness:
  "\<exists>r s'. mmap_populate 0x4000000 0x2000 3 us_region = Inr (r, s') \<and> user_pages 0x100000 (us_mach s') \<and> vmas_ok (us_vmas s')"
proof -
  obtain p where p: "us_vmas us_region = [(p, region_example)]" using us_region_ok(1) by blast
  have v: "(p, region_example) \<in> set (us_vmas us_region)" by (simp add: p)
  have "region_ok region_example" using us_region_ok(5) by (simp add: p vmas_ok_def)
  then have "\<forall>x. vm_start region_example \<le> x \<and> x < vm_end region_example \<longrightarrow> \<not> vmm_is_mapped (us_pml4 us_region) x (us_mach us_region)"
    using region_area us_region_pages(2) by (simp add: frame_mapped)
  from mmap_populate_all_or_nothing [OF us_region_pages(1) us_region_ok(5,4) v this, of 3] show ?thesis
    unfolding us_region_ok(3) by (simp add: region_example_def) blast
qed

theorem munmap_releases_exactly_witness:
  "\<exists>s'. do_munmap 0x4000000 5000 us_region = Inr (0, s') \<and> us_vmas s' = []"
proof -
  obtain p where p: "us_vmas us_region = [(p, region_example)]" using us_region_ok(1) by blast
  have l: "(5000 + (PAGE_SIZE - 1)) AND NOT (PAGE_SIZE - 1) = (0x2000 :: u64)" "0x4000000 AND NOT (PAGE_SIZE - 1) = (0x4000000 :: u64)" by simp_all
  have c: "\<exists>p v. (p, v) \<in> set (us_vmas us_region) \<and> vm_start v = 0x4000000 \<and> vm_end v = 0x4000000 + 0x2000"
    by (simp add: p region_example_def)
  show ?thesis
    using munmap_releases_exactly [OF us_region_pages(1) us_region_ok(5,4), of "0x4000000" 5000] unfolding l if_P [OF c]
    by (elim exE conjE) (auto simp: p)
qed

theorem page_fault_demand_paging_witness:
  "\<exists>out s'. page_fault_handler (Some True) 0x4001234 6 us_region = Inr (out, s') \<and> user_pages 0x100000 (us_mach s') \<and>
    us_vmas s' = us_vmas us_region"
  using page_fault_demand_paging [OF us_region_pages(1) us_region_ok(5), of "Some True" "0x4001234" 6]
  unfolding us_region_ok(3) by blast


end
