(* ===== verification/Rcu.thy ===== *)
theory Rcu
  imports LaOS_Prelude
begin

text \<open>
  Preemptible RCU (\<open>kernel/rcu.c\<close>, \<open>kernel/rcu.h\<close>).  The first part models the global
  state and the operations as functions.  The second part is a step relation in which
  readers, timer ticks, context switches and any number of updaters interleave at the
  level of single shared-memory accesses; the theorem at the end is the grace-period
  guarantee of \<open>synchronize_rcu\<close>.

  The blocked list is a HOL list: its operations run under \<open>blocked_lock\<close> and
  implement cons and removal, as shown for \<open>list.h\<close> in \<open>Klist\<close>.  Debug output, the
  metric counters and the stall reports are dropped.
\<close>

section \<open>State and operations\<close>

type_synonym tid = nat

text \<open>Arithmetic of the C type \<open>int\<close>: 32 bits, two's complement.\<close>

definition sint32 :: "int \<Rightarrow> int" where
  "sint32 x = (x + 2147483648) mod 4294967296 - 2147483648"

record rcu =
  gp_seq :: int
  blocked_tasks :: "tid list"
  rcu_nesting :: "tid \<Rightarrow> int"
  rcu_blocked :: "tid \<Rightarrow> bool"
  gp_seq_seen :: "nat \<Rightarrow> int"

definition rcu_init :: rcu where
  "rcu_init = \<lparr>gp_seq = 0, blocked_tasks = [], rcu_nesting = (\<lambda>_. 0), rcu_blocked = (\<lambda>_. False),
     gp_seq_seen = (\<lambda>_. 0)\<rparr>"

definition set_nesting :: "tid \<Rightarrow> int \<Rightarrow> rcu \<Rightarrow> rcu" where
  "set_nesting t n r = r\<lparr>rcu_nesting := (rcu_nesting r)(t := n)\<rparr>"

definition set_seen :: "nat \<Rightarrow> int \<Rightarrow> rcu \<Rightarrow> rcu" where
  "set_seen c g r = r\<lparr>gp_seq_seen := (gp_seq_seen r)(c := g)\<rparr>"

definition rcu_read_lock :: "tid \<Rightarrow> rcu \<Rightarrow> rcu" where
  "rcu_read_lock t r = set_nesting t (sint32 (rcu_nesting r t + 1)) r"

text \<open>The four stores of \<open>rcu_read_unlock\<close>, and the whole function.\<close>

definition unlock_dec :: "tid \<Rightarrow> rcu \<Rightarrow> rcu" where
  "unlock_dec t r = set_nesting t (sint32 (rcu_nesting r t - 1)) r"

definition unlock_del :: "tid \<Rightarrow> rcu \<Rightarrow> rcu" where
  "unlock_del t r = r\<lparr>blocked_tasks := remove1 t (blocked_tasks r)\<rparr>"

definition unlock_clear :: "tid \<Rightarrow> rcu \<Rightarrow> rcu" where
  "unlock_clear t r = r\<lparr>rcu_blocked := (rcu_blocked r)(t := False)\<rparr>"

definition rcu_read_unlock :: "nat \<Rightarrow> tid \<Rightarrow> rcu \<Rightarrow> rcu" where
  "rcu_read_unlock c t r =
     (let r1 = unlock_dec t r in
      if rcu_nesting r1 t = 0 then
        let r2 = (if rcu_blocked r1 t then unlock_clear t (unlock_del t r1) else r1)
        in set_seen c (gp_seq r2) r2
      else r1)"

definition rcu_check_quiescent_state :: "nat \<Rightarrow> tid option \<Rightarrow> rcu \<Rightarrow> rcu" where
  "rcu_check_quiescent_state c cur r =
     (case cur of None \<Rightarrow> r
      | Some t \<Rightarrow> if rcu_nesting r t = 0 then set_seen c (gp_seq r) r else r)"

definition note_blocked :: "tid \<Rightarrow> rcu \<Rightarrow> rcu" where
  "note_blocked prev r =
     (if \<not> rcu_blocked r prev
      then r\<lparr>rcu_blocked := (rcu_blocked r)(prev := True), blocked_tasks := prev # blocked_tasks r\<rparr>
      else r)"

definition rcu_note_context_switch :: "nat \<Rightarrow> tid \<Rightarrow> rcu \<Rightarrow> rcu" where
  "rcu_note_context_switch c prev r =
     (if rcu_nesting r prev > 0 then note_blocked prev r else set_seen c (gp_seq r) r)"

text \<open>
  \<open>synchronize_rcu\<close>: the increment that starts the grace period, the test of phase one
  for one CPU (\<open>c->rcu_gp_seq_seen < target\<close> is the waiting condition), and the test of
  phase two.
\<close>

definition sync_start :: "rcu \<Rightarrow> int \<times> rcu" where
  "sync_start r = (let target = sint32 (gp_seq r + 1) in (target, r\<lparr>gp_seq := target\<rparr>))"

definition sync_cpu_done :: "int \<Rightarrow> nat \<Rightarrow> rcu \<Rightarrow> bool" where
  "sync_cpu_done target c r \<longleftrightarrow> \<not> gp_seq_seen r c < target"

definition sync_blocked_done :: "rcu \<Rightarrow> bool" where
  "sync_blocked_done r \<longleftrightarrow> blocked_tasks r = []"

section \<open>Interleaving\<close>

text \<open>
  Where a thread is: outside of RCU code or in a reader section (\<open>Run\<close>), inside
  \<open>rcu_read_unlock\<close> after its decrement, or inside \<open>synchronize_rcu\<close>.  The \<open>nat\<close> of the
  synchronisation states is the number of the grace period, a ghost value.
\<close>

datatype rpc = Run | UnlTest | UnlDel | UnlClear | UnlRead | UnlStore int
  | Sync1 int nat nat | Sync2 int nat | SyncDone nat

text \<open>
  Where a CPU is: running its current thread, or with interrupts disabled in the timer
  tick after reading \<open>gp_seq\<close>, or in \<open>__schedule\<close> (after reading \<open>gp_seq\<close>, or just before
  \<open>current\<close> changes).
\<close>

datatype ipc = IrqNone | TickStore int | SwitchStore int tid | SwitchTo tid

text \<open>Ghost state: \<open>gps\<close> counts the grace periods started, \<open>cs_start t\<close> is its value when
  \<open>t\<close> entered its outermost reader section.\<close>

record rsys =
  rs :: rcu
  cur :: "nat \<Rightarrow> tid"
  pc :: "tid \<Rightarrow> rpc"
  irq :: "nat \<Rightarrow> ipc"
  gps :: nat
  cs_start :: "tid \<Rightarrow> nat"

definition set_pc :: "tid \<Rightarrow> rpc \<Rightarrow> rsys \<Rightarrow> rsys" where
  "set_pc t p s = s\<lparr>pc := (pc s)(t := p)\<rparr>"

definition set_irq :: "nat \<Rightarrow> ipc \<Rightarrow> rsys \<Rightarrow> rsys" where
  "set_irq c p s = s\<lparr>irq := (irq s)(c := p)\<rparr>"

definition on_rcu :: "(rcu \<Rightarrow> rcu) \<Rightarrow> rsys \<Rightarrow> rsys" where
  "on_rcu f s = s\<lparr>rs := f (rs s)\<rparr>"

text \<open>
  \<open>home t\<close> is the CPU a thread is bound to; \<open>ncpu\<close> is \<open>g_cpu_count\<close> and \<open>has_ctx c\<close> says
  whether \<open>g_cpu_contexts[c]\<close> is set.  \<open>runs home s t\<close>: \<open>t\<close> is the current thread of its
  CPU and may execute its next access.
\<close>

definition runs :: "(tid \<Rightarrow> nat) \<Rightarrow> rsys \<Rightarrow> tid \<Rightarrow> bool" where
  "runs home s t \<longleftrightarrow> cur s (home t) = t \<and> irq s (home t) = IrqNone"

inductive rstep :: "(tid \<Rightarrow> nat) \<Rightarrow> nat \<Rightarrow> (nat \<Rightarrow> bool) \<Rightarrow> rsys \<Rightarrow> rsys \<Rightarrow> bool"
  for home ncpu has_ctx
where
  lock: "runs home s t \<Longrightarrow> pc s t = Run \<Longrightarrow> rcu_nesting (rs s) t < 2147483647 \<Longrightarrow>
    rstep home ncpu has_ctx s
      (on_rcu (rcu_read_lock t)
        (if rcu_nesting (rs s) t = 0 then s\<lparr>cs_start := (cs_start s)(t := gps s)\<rparr> else s))"
| unlock_nested: "runs home s t \<Longrightarrow> pc s t = Run \<Longrightarrow> 1 < rcu_nesting (rs s) t \<Longrightarrow>
    rstep home ncpu has_ctx s (on_rcu (unlock_dec t) s)"
| unlock_last: "runs home s t \<Longrightarrow> pc s t = Run \<Longrightarrow> rcu_nesting (rs s) t = 1 \<Longrightarrow>
    rstep home ncpu has_ctx s (set_pc t UnlTest (on_rcu (unlock_dec t) s))"
| unlock_test: "runs home s t \<Longrightarrow> pc s t = UnlTest \<Longrightarrow>
    rstep home ncpu has_ctx s (set_pc t (if rcu_blocked (rs s) t then UnlDel else UnlRead) s)"
| unlock_list: "runs home s t \<Longrightarrow> pc s t = UnlDel \<Longrightarrow>
    rstep home ncpu has_ctx s (set_pc t UnlClear (on_rcu (unlock_del t) s))"
| unlock_flag: "runs home s t \<Longrightarrow> pc s t = UnlClear \<Longrightarrow>
    rstep home ncpu has_ctx s (set_pc t UnlRead (on_rcu (unlock_clear t) s))"
| unlock_read: "runs home s t \<Longrightarrow> pc s t = UnlRead \<Longrightarrow>
    rstep home ncpu has_ctx s (set_pc t (UnlStore (gp_seq (rs s))) s)"
| unlock_store: "runs home s t \<Longrightarrow> pc s t = UnlStore g \<Longrightarrow>
    rstep home ncpu has_ctx s (set_pc t Run (on_rcu (set_seen (home t) g) s))"
| sync_begin: "runs home s t \<Longrightarrow> pc s t = Run \<Longrightarrow>
    rstep home ncpu has_ctx s
      (set_pc t (Sync1 (fst (sync_start (rs s))) (Suc (gps s)) 0)
        (on_rcu (\<lambda>r. snd (sync_start r)) (s\<lparr>gps := Suc (gps s)\<rparr>)))"
| sync_cpu: "runs home s t \<Longrightarrow> pc s t = Sync1 target n c \<Longrightarrow> c < ncpu \<Longrightarrow>
    \<not> has_ctx c \<or> sync_cpu_done target c (rs s) \<Longrightarrow>
    rstep home ncpu has_ctx s (set_pc t (Sync1 target n (Suc c)) s)"
| sync_cpus: "runs home s t \<Longrightarrow> pc s t = Sync1 target n c \<Longrightarrow> \<not> c < ncpu \<Longrightarrow>
    rstep home ncpu has_ctx s (set_pc t (Sync2 target n) s)"
| sync_blocked: "runs home s t \<Longrightarrow> pc s t = Sync2 target n \<Longrightarrow> sync_blocked_done (rs s) \<Longrightarrow>
    rstep home ncpu has_ctx s (set_pc t (SyncDone n) s)"
| sync_return: "runs home s t \<Longrightarrow> pc s t = SyncDone n \<Longrightarrow>
    rstep home ncpu has_ctx s (set_pc t Run s)"
| tick: "c < ncpu \<Longrightarrow> irq s c = IrqNone \<Longrightarrow> rcu_nesting (rs s) (cur s c) = 0 \<Longrightarrow>
    rstep home ncpu has_ctx s (set_irq c (TickStore (gp_seq (rs s))) s)"
| tick_store: "irq s c = TickStore g \<Longrightarrow>
    rstep home ncpu has_ctx s (set_irq c IrqNone (on_rcu (set_seen c g) s))"
| switch_reader: "irq s c = IrqNone \<Longrightarrow> home u = c \<Longrightarrow> u \<noteq> cur s c \<Longrightarrow> 0 < rcu_nesting (rs s) (cur s c) \<Longrightarrow>
    rstep home ncpu has_ctx s (set_irq c (SwitchTo u) (on_rcu (note_blocked (cur s c)) s))"
| switch_read: "irq s c = IrqNone \<Longrightarrow> home u = c \<Longrightarrow> u \<noteq> cur s c \<Longrightarrow> \<not> 0 < rcu_nesting (rs s) (cur s c) \<Longrightarrow>
    rstep home ncpu has_ctx s (set_irq c (SwitchStore (gp_seq (rs s)) u) s)"
| switch_store: "irq s c = SwitchStore g u \<Longrightarrow>
    rstep home ncpu has_ctx s (set_irq c (SwitchTo u) (on_rcu (set_seen c g) s))"
| switch_to: "irq s c = SwitchTo u \<Longrightarrow>
    rstep home ncpu has_ctx s (set_irq c IrqNone (s\<lparr>cur := (cur s)(c := u)\<rparr>))"

text \<open>Initially every CPU runs one of its threads and nobody is inside RCU code.\<close>

definition rstart :: "(nat \<Rightarrow> tid) \<Rightarrow> rsys" where
  "rstart boot = \<lparr>rs = rcu_init, cur = boot, pc = (\<lambda>_. Run), irq = (\<lambda>_. IrqNone), gps = 0, cs_start = (\<lambda>_. 0)\<rparr>"

section \<open>The invariant\<close>

named_theorems rcu_defs \<open>definitions of the RCU operations and of the state updates\<close>

lemmas [rcu_defs] = set_nesting_def set_seen_def rcu_read_lock_def unlock_dec_def unlock_del_def
  unlock_clear_def note_blocked_def sync_start_def sync_cpu_done_def sync_blocked_done_def
  set_pc_def set_irq_def on_rcu_def runs_def Let_def

abbreviation nest :: "rsys \<Rightarrow> tid \<Rightarrow> int" where "nest s t \<equiv> rcu_nesting (rs s) t"
abbreviation listed :: "rsys \<Rightarrow> tid \<Rightarrow> bool" where "listed s t \<equiv> t \<in> set (blocked_tasks (rs s))"

lemma sint32_id [simp]: "- 2147483648 \<le> x \<Longrightarrow> x < 2147483648 \<Longrightarrow> sint32 x = x"
  by (simp add: sint32_def)

definition unlocking :: "rpc \<Rightarrow> bool" where
  "unlocking p \<longleftrightarrow> (case p of UnlTest \<Rightarrow> True | UnlDel \<Rightarrow> True | UnlClear \<Rightarrow> True | UnlRead \<Rightarrow> True | UnlStore _ \<Rightarrow> True
     | _ \<Rightarrow> False)"

text \<open>A reader is on the blocked list, or it is running and its CPU has not reported a
  grace period that started after the reader did.\<close>

definition covered :: "(tid \<Rightarrow> nat) \<Rightarrow> rsys \<Rightarrow> tid \<Rightarrow> bool" where
  "covered home s t \<longleftrightarrow> listed s t \<or>
     cur s (home t) = t \<and> irq s (home t) = IrqNone \<and> gp_seq_seen (rs s) (home t) \<le> int (cs_start s t)"

text \<open>Values read from \<open>gp_seq\<close> and not yet stored, and the thread a CPU is about to run.\<close>

fun stores_le :: "rpc \<Rightarrow> int \<Rightarrow> bool" where
  "stores_le (UnlStore g) n \<longleftrightarrow> g \<le> n"
| "stores_le _ n \<longleftrightarrow> True"

fun pending_le :: "ipc \<Rightarrow> int \<Rightarrow> bool" where
  "pending_le (TickStore g) n \<longleftrightarrow> g \<le> n"
| "pending_le (SwitchStore g u) n \<longleftrightarrow> g \<le> n"
| "pending_le _ n \<longleftrightarrow> True"

fun quiet :: "ipc \<Rightarrow> bool" where
  "quiet (TickStore g) \<longleftrightarrow> True"
| "quiet (SwitchStore g u) \<longleftrightarrow> True"
| "quiet _ \<longleftrightarrow> False"

fun dest_ok :: "(tid \<Rightarrow> nat) \<Rightarrow> nat \<Rightarrow> ipc \<Rightarrow> bool" where
  "dest_ok home c (SwitchStore g u) \<longleftrightarrow> home u = c"
| "dest_ok home c (SwitchTo u) \<longleftrightarrow> home u = c"
| "dest_ok home c _ \<longleftrightarrow> True"

definition thread_inv :: "(tid \<Rightarrow> nat) \<Rightarrow> rsys \<Rightarrow> tid \<Rightarrow> bool" where
  "thread_inv home s t \<longleftrightarrow> 0 \<le> nest s t \<and> nest s t < 2147483648 \<and> cs_start s t \<le> gps s \<and>
     (unlocking (pc s t) \<longrightarrow> nest s t = 0) \<and>
     (if pc s t = UnlClear then \<not> listed s t else rcu_blocked (rs s) t = listed s t) \<and>
     stores_le (pc s t) (int (gps s)) \<and> (0 < nest s t \<longrightarrow> covered home s t)"

definition cpu_inv :: "(tid \<Rightarrow> nat) \<Rightarrow> rsys \<Rightarrow> nat \<Rightarrow> bool" where
  "cpu_inv home s c \<longleftrightarrow> home (cur s c) = c \<and> gp_seq_seen (rs s) c \<le> int (gps s) \<and>
     (quiet (irq s c) \<longrightarrow> nest s (cur s c) = 0) \<and> pending_le (irq s c) (int (gps s)) \<and> dest_ok home c (irq s c)"

definition sync_inv :: "(tid \<Rightarrow> nat) \<Rightarrow> rsys \<Rightarrow> tid \<Rightarrow> bool" where
  "sync_inv home s t \<longleftrightarrow> (case pc s t of
       Sync1 target n k \<Rightarrow> target = int n \<and> n \<le> gps s \<and>
         (\<forall>u. 0 < nest s u \<and> cs_start s u < n \<and> home u < k \<longrightarrow> listed s u)
     | Sync2 target n \<Rightarrow> n \<le> gps s \<and> (\<forall>u. 0 < nest s u \<and> cs_start s u < n \<longrightarrow> listed s u)
     | SyncDone n \<Rightarrow> n \<le> gps s \<and> (\<forall>u. 0 < nest s u \<longrightarrow> n \<le> cs_start s u)
     | _ \<Rightarrow> True)"

definition rinv :: "(tid \<Rightarrow> nat) \<Rightarrow> nat \<Rightarrow> rsys \<Rightarrow> bool" where
  "rinv home ncpu s \<longleftrightarrow> distinct (blocked_tasks (rs s)) \<and> gp_seq (rs s) = int (gps s) \<and>
     (\<forall>t. thread_inv home s t) \<and> (\<forall>c<ncpu. cpu_inv home s c) \<and> (\<forall>t. sync_inv home s t)"

lemma rinv_start: "\<forall>c<ncpu. home (boot c) = c \<Longrightarrow> rinv home ncpu (rstart boot)"
  by (auto simp: rinv_def thread_inv_def cpu_inv_def sync_inv_def rstart_def rcu_init_def unlocking_def)

lemma gps_mono: "rstep home ncpu has_ctx s s' \<Longrightarrow> gps s \<le> gps s'"
  by (induction rule: rstep.induct) (auto simp: rcu_defs)

text \<open>The part of the invariant that concerns the CPUs.\<close>

lemma pending_le_Suc [simp]: "pending_le p (int n) \<Longrightarrow> pending_le p (1 + int n)"
  by (cases p) auto

lemma rstep_cpu:
  assumes "rstep home ncpu has_ctx s s'" "cpu_inv home s c" "gp_seq (rs s) = int (gps s)"
    and store: "\<And>t. stores_le (pc s t) (int (gps s))" and pos: "0 \<le> nest s (cur s c)"
  shows "cpu_inv home s' c"
  using assms(1-3)
proof cases
  case (unlock_store t g)
  then have "g \<le> int (gps s)" using store [of t] by simp
  then show ?thesis using unlock_store assms(2) by (auto simp: rcu_defs cpu_inv_def)
next
  case (switch_read c u)
  then show ?thesis using assms(2,3) pos by (auto simp: rcu_defs cpu_inv_def)
qed (auto simp: rcu_defs cpu_inv_def split: if_splits)

text \<open>The part that concerns the threads.\<close>

lemma stores_le_Suc [simp]: "stores_le p (int n) \<Longrightarrow> stores_le p (1 + int n)"
  by (cases p) auto

lemma unlocking_simps [simp]:
  "unlocking UnlTest" "unlocking UnlDel" "unlocking UnlClear" "unlocking UnlRead" "unlocking (UnlStore g)"
  "\<not> unlocking Run" "\<not> unlocking (Sync1 i n c)" "\<not> unlocking (Sync2 i n)" "\<not> unlocking (SyncDone n)"
  by (simp_all add: unlocking_def)

lemma rstep_thread:
  assumes "rstep home ncpu has_ctx s s'" "thread_inv home s t" "cpu_inv home s (home t)"
    "gp_seq (rs s) = int (gps s)" "distinct (blocked_tasks (rs s))"
  shows "thread_inv home s' t"
  using assms by cases (auto simp: rcu_defs cpu_inv_def thread_inv_def covered_def split: if_splits)

text \<open>
  The part that concerns grace periods in progress.  A step keeps the readers of older
  sections on the list; a section that begins counts as started in the current period.
\<close>

lemma rstep_reader:
  assumes "rstep home ncpu has_ctx s s'" "thread_inv home s u" "0 < nest s' u"
  shows "0 < nest s u \<and> cs_start s' u = cs_start s u \<and> (listed s u \<longrightarrow> listed s' u) \<or> gps s \<le> cs_start s' u"
  using assms(1)
proof cases
  case (unlock_list t)
  then have "u \<noteq> t" using assms(2,3) by (auto simp: rcu_defs thread_inv_def)
  then show ?thesis using unlock_list assms(3) by (auto simp: rcu_defs)
qed (use assms(2,3) in \<open>auto simp: rcu_defs thread_inv_def split: if_splits\<close>)

lemma sync_inv_frame:
  assumes "sync_inv home s t" "pc s' t = pc s t" "gps s \<le> gps s'"
    and "\<And>u. 0 < nest s' u \<Longrightarrow>
      0 < nest s u \<and> cs_start s' u = cs_start s u \<and> (listed s u \<longrightarrow> listed s' u) \<or> gps s \<le> cs_start s' u"
  shows "sync_inv home s' t"
proof (cases "pc s t")
  case (Sync1 i n k)
  then show ?thesis using assms by (fastforce simp: sync_inv_def)
next
  case (Sync2 i n)
  then show ?thesis using assms by (fastforce simp: sync_inv_def)
next
  case (SyncDone n)
  then show ?thesis using assms by (fastforce simp: sync_inv_def)
qed (use assms in \<open>simp_all add: sync_inv_def\<close>)

lemma sync_cpu_passed:
  assumes "sync_inv home s t" "pc s t = Sync1 target n c" "\<And>u. thread_inv home s u"
    and "sync_cpu_done target c (rs s)"
  shows "\<forall>u. 0 < nest s u \<and> cs_start s u < n \<and> home u < Suc c \<longrightarrow> listed s u"
proof (intro allI impI)
  fix u assume u: "0 < nest s u \<and> cs_start s u < n \<and> home u < Suc c"
  show "listed s u"
  proof (cases "home u < c")
    case True
    then show ?thesis using assms(1,2) u by (simp add: sync_inv_def)
  next
    case False
    then have "home u = c" using u by simp
    moreover have "covered home s u" using assms(3) [of u] u by (simp add: thread_inv_def)
    moreover have "int n \<le> gp_seq_seen (rs s) c" using assms(1,2,4) by (simp add: sync_inv_def sync_cpu_done_def)
    ultimately show ?thesis using u by (auto simp: covered_def)
  qed
qed

lemma rstep_sync:
  assumes step: "rstep home ncpu has_ctx s s'" and inv: "rinv home ncpu s" and lim: "gps s' < 2147483648"
    and homes: "\<And>u. home u < ncpu \<and> has_ctx (home u)"
  shows "sync_inv home s' t"
proof -
  have ti: "\<And>u. thread_inv home s u" and si: "\<And>u. sync_inv home s u" and gp: "gp_seq (rs s) = int (gps s)"
    using inv by (simp_all add: rinv_def)
  have frame: "sync_inv home s' u" if "pc s' u = pc s u" for u
    using sync_inv_frame [OF si that gps_mono [OF step]] rstep_reader [OF step ti] by blast
  have "sync_inv home s' u" if "pc s' u \<noteq> pc s u" for u
    using step
  proof cases
    case (sync_begin t)
    then have u: "u = t" using that by (auto simp: rcu_defs split: if_splits)
    show ?thesis using u sync_begin lim gp by (auto simp: rcu_defs sync_inv_def)
  next
    case (sync_cpu t target n c)
    then have u: "u = t" using that by (auto simp: rcu_defs split: if_splits)
    have "has_ctx c \<longrightarrow> sync_cpu_done target c (rs s)" using sync_cpu by simp
    moreover have "\<not> has_ctx c \<Longrightarrow> home v \<noteq> c" for v using homes [of v] by auto
    ultimately have "\<forall>v. 0 < nest s v \<and> cs_start s v < n \<and> home v < Suc c \<longrightarrow> listed s v"
      using sync_cpu_passed [OF si sync_cpu(3) ti] si [of t] sync_cpu(3)
      by (cases "has_ctx c") (auto simp: sync_inv_def less_Suc_eq)
    then show ?thesis using u si [of t] sync_cpu by (auto simp: rcu_defs sync_inv_def)
  next
    case (sync_cpus t target n c)
    then have u: "u = t" using that by (auto simp: rcu_defs split: if_splits)
    have "home v < c" for v using homes [of v] sync_cpus(4) by simp
    then show ?thesis using u si [of t] sync_cpus by (auto simp: rcu_defs sync_inv_def)
  next
    case (sync_blocked t target n)
    then have u: "u = t" using that by (auto simp: rcu_defs split: if_splits)
    show ?thesis using u si [of t] sync_blocked by (auto simp: rcu_defs sync_inv_def simp flip: not_less)
  qed (use that in \<open>auto simp: rcu_defs sync_inv_def split: if_splits\<close>)
  then show ?thesis using frame by blast
qed

lemma rstep_rinv:
  assumes step: "rstep home ncpu has_ctx s s'" and inv: "rinv home ncpu s" and lim: "gps s' < 2147483648"
    and homes: "\<And>u. home u < ncpu \<and> has_ctx (home u)"
  shows "rinv home ncpu s'"
proof -
  have ti: "\<And>u. thread_inv home s u" and ci: "\<And>c. c < ncpu \<Longrightarrow> cpu_inv home s c" and gp: "gp_seq (rs s) = int (gps s)"
    and di: "distinct (blocked_tasks (rs s))"
    using inv by (simp_all add: rinv_def)
  have "thread_inv home s' u" for u 
    by (rule rstep_thread [OF step ti ci gp di]) (use homes in simp)
  moreover have "cpu_inv home s' c" if "c < ncpu" for c
    by (rule rstep_cpu [OF step ci [OF that] gp]) (use ti in \<open>simp_all add: thread_inv_def\<close>)
  moreover have "sync_inv home s' u" for u by (rule rstep_sync [OF step inv lim homes])
  moreover have "gp_seq (rs s') = int (gps s')"
    using step gp lim by cases (auto simp: rcu_defs)
  moreover have "distinct (blocked_tasks (rs s'))"
    using step
  proof cases
    case (switch_reader c u)
    have "unlocking (pc s (cur s c)) \<longrightarrow> nest s (cur s c) = 0" using ti [of "cur s c"] by (simp add: thread_inv_def)
    then have "pc s (cur s c) \<noteq> UnlClear" using switch_reader(5) by auto
    then show ?thesis using switch_reader di ti [of "cur s c"] by (auto simp: rcu_defs thread_inv_def)
  qed (use di in \<open>auto simp: rcu_defs\<close>)
  ultimately show ?thesis by (simp add: rinv_def)
qed

section \<open>Properties\<close>

inductive rreachable :: "(tid \<Rightarrow> nat) \<Rightarrow> nat \<Rightarrow> (nat \<Rightarrow> bool) \<Rightarrow> (nat \<Rightarrow> tid) \<Rightarrow> rsys \<Rightarrow> bool"
  for home ncpu has_ctx boot
where
  start: "rreachable home ncpu has_ctx boot (rstart boot)"
| step: "rreachable home ncpu has_ctx boot s \<Longrightarrow> rstep home ncpu has_ctx s s' \<Longrightarrow> rreachable home ncpu has_ctx boot s'"

lemma rreachable_rinv:
  assumes "rreachable home ncpu has_ctx boot s" "gps s < 2147483648"
    and "\<forall>c<ncpu. home (boot c) = c" "\<And>u. home u < ncpu \<and> has_ctx (home u)"
  shows "rinv home ncpu s"
  using assms(1,2)
proof (induction rule: rreachable.induct)
  case start
  show ?case using assms(3) by (intro rinv_start)
next
  case (step s s')
  have "gps s < 2147483648" using gps_mono [OF step(2)] step(4) by simp
  then show ?case using rstep_rinv [OF step(2) step.IH step(4) assms(4)] by simp
qed

text \<open>
  The uninterrupted steps of \<open>rcu_read_unlock\<close> have the effect of the whole function.
\<close>

lemma unlock_tail:
  assumes "runs home s t" "pc s t = UnlRead"
  shows "(rstep home ncpu has_ctx)\<^sup>*\<^sup>* s (set_pc t Run (on_rcu (\<lambda>r. set_seen (home t) (gp_seq r) r) s))"
proof -
  let ?s1 = "set_pc t (UnlStore (gp_seq (rs s))) s"
  have "rstep home ncpu has_ctx s ?s1" by (rule rstep.unlock_read [OF assms])
  moreover have "rstep home ncpu has_ctx ?s1 (set_pc t Run (on_rcu (set_seen (home t) (gp_seq (rs s))) ?s1))"
    using assms by (intro rstep.unlock_store) (auto simp: rcu_defs)
  moreover have "set_pc t Run (on_rcu (set_seen (home t) (gp_seq (rs s))) ?s1) =
      set_pc t Run (on_rcu (\<lambda>r. set_seen (home t) (gp_seq r) r) s)" by (simp add: rcu_defs)
  ultimately show ?thesis by auto
qed

lemma unlock_blocked:
  assumes "runs home s t" "pc s t = UnlDel"
  shows "(rstep home ncpu has_ctx)\<^sup>*\<^sup>* s (set_pc t UnlRead (on_rcu (\<lambda>r. unlock_clear t (unlock_del t r)) s))"
proof -
  let ?s1 = "set_pc t UnlClear (on_rcu (unlock_del t) s)"
  have "rstep home ncpu has_ctx s ?s1" by (rule rstep.unlock_list [OF assms])
  moreover have "rstep home ncpu has_ctx ?s1 (set_pc t UnlRead (on_rcu (unlock_clear t) ?s1))"
    using assms by (intro rstep.unlock_flag) (auto simp: rcu_defs)
  moreover have "set_pc t UnlRead (on_rcu (unlock_clear t) ?s1) =
      set_pc t UnlRead (on_rcu (\<lambda>r. unlock_clear t (unlock_del t r)) s)" by (simp add: rcu_defs)
  ultimately show ?thesis by auto
qed

lemma rcu_read_unlock_steps:
  assumes run: "runs home s t" and p: "pc s t = Run" and n: "0 < nest s t" "nest s t < 2147483648"
  shows "(rstep home ncpu has_ctx)\<^sup>*\<^sup>* s (on_rcu (rcu_read_unlock (home t) t) s)"
proof (cases "nest s t = 1")
  case False
  then have "rstep home ncpu has_ctx s (on_rcu (unlock_dec t) s)" using n by (intro rstep.unlock_nested run p) simp
  moreover have "on_rcu (rcu_read_unlock (home t) t) s = on_rcu (unlock_dec t) s"
    using False n by (simp add: rcu_read_unlock_def rcu_defs)
  ultimately show ?thesis by auto
next
  case True
  let ?s1 = "set_pc t UnlTest (on_rcu (unlock_dec t) s)"
  let ?s2 = "set_pc t (if rcu_blocked (rs s) t then UnlDel else UnlRead) ?s1"
  let ?s3 = "if rcu_blocked (rs s) t then set_pc t UnlRead (on_rcu (\<lambda>r. unlock_clear t (unlock_del t r)) ?s2) else ?s2"
  have a: "rstep home ncpu has_ctx s ?s1" by (rule rstep.unlock_last [OF run p True])
  have b: "rstep home ncpu has_ctx ?s1 ?s2"
    using run rstep.unlock_test [of home ?s1 t] by (simp add: rcu_defs)
  have c: "(rstep home ncpu has_ctx)\<^sup>*\<^sup>* ?s2 ?s3"
    using run unlock_blocked [of home ?s2 t] by (simp add: rcu_defs)
  have d: "(rstep home ncpu has_ctx)\<^sup>*\<^sup>* ?s3 (set_pc t Run (on_rcu (\<lambda>r. set_seen (home t) (gp_seq r) r) ?s3))"
    using run by (intro unlock_tail) (auto simp: rcu_defs)
  have e: "set_pc t Run (on_rcu (\<lambda>r. set_seen (home t) (gp_seq r) r) ?s3) = on_rcu (rcu_read_unlock (home t) t) s"
    using True p by (auto simp: rcu_read_unlock_def rcu_defs fun_upd_idem)
  show ?thesis
    using converse_rtranclp_into_rtranclp [OF a converse_rtranclp_into_rtranclp [OF b rtranclp_trans [OF c d]]]
    unfolding e .
qed

text \<open>
  The single accesses of the tick and of the context switch compose to the operations
  \<open>rcu_check_quiescent_state\<close> and \<open>rcu_note_context_switch\<close>.
\<close>

lemma rcu_check_quiescent_state_steps:
  assumes "c < ncpu" "irq s c = IrqNone"
  shows "(rstep home ncpu has_ctx)\<^sup>*\<^sup>* s (on_rcu (rcu_check_quiescent_state c (Some (cur s c))) s)"
proof (cases "rcu_nesting (rs s) (cur s c) = 0")
  case True
  let ?s1 = "set_irq c (TickStore (gp_seq (rs s))) s"
  have "rstep home ncpu has_ctx s ?s1" by (rule rstep.tick [OF assms True])
  moreover have "rstep home ncpu has_ctx ?s1 (set_irq c IrqNone (on_rcu (set_seen c (gp_seq (rs s))) ?s1))"
    by (rule rstep.tick_store) (simp add: rcu_defs)
  moreover have "set_irq c IrqNone (on_rcu (set_seen c (gp_seq (rs s))) ?s1) = on_rcu (rcu_check_quiescent_state c (Some (cur s c))) s"
    using True assms(2) by (simp add: rcu_check_quiescent_state_def rcu_defs fun_upd_idem)
  ultimately show ?thesis by auto
next
  case False
  then show ?thesis by (simp add: rcu_check_quiescent_state_def rcu_defs)
qed

lemma rcu_note_context_switch_steps:
  assumes "irq s c = IrqNone" "home u = c" "u \<noteq> cur s c"
  shows "(rstep home ncpu has_ctx)\<^sup>*\<^sup>* s (on_rcu (rcu_note_context_switch c (cur s c)) (s\<lparr>cur := (cur s)(c := u)\<rparr>))"
proof -
  let ?s1 = "set_irq c (SwitchTo u) (on_rcu (rcu_note_context_switch c (cur s c)) s)"
  have a: "(rstep home ncpu has_ctx)\<^sup>*\<^sup>* s ?s1"
  proof (cases "0 < rcu_nesting (rs s) (cur s c)")
    case True
    then show ?thesis using rstep.switch_reader [of s c home u, OF assms True] by (auto simp: rcu_note_context_switch_def rcu_defs)
  next
    case False
    let ?t = "set_irq c (SwitchStore (gp_seq (rs s)) u) s"
    have "rstep home ncpu has_ctx s ?t" by (rule rstep.switch_read [of s c home u, OF assms False])
    moreover have "rstep home ncpu has_ctx ?t (set_irq c (SwitchTo u) (on_rcu (set_seen c (gp_seq (rs s))) ?t))"
      by (rule rstep.switch_store) (simp add: rcu_defs)
    moreover have "set_irq c (SwitchTo u) (on_rcu (set_seen c (gp_seq (rs s))) ?t) = ?s1"
      using False by (simp add: rcu_note_context_switch_def rcu_defs)
    ultimately show ?thesis by auto
  qed
  have "rstep home ncpu has_ctx ?s1 (set_irq c IrqNone (?s1\<lparr>cur := (cur ?s1)(c := u)\<rparr>))"
    by (rule rstep.switch_to) (simp add: rcu_defs)
  moreover have "set_irq c IrqNone (?s1\<lparr>cur := (cur ?s1)(c := u)\<rparr>) = on_rcu (rcu_note_context_switch c (cur s c)) (s\<lparr>cur := (cur s)(c := u)\<rparr>)"
    using assms(1) by (simp add: rcu_defs fun_upd_idem)
  ultimately show ?thesis using a by auto
qed

text \<open>
  (C18) The grace-period guarantee.  In every interleaving of readers (nested sections,
  preempted anywhere, also inside \<open>rcu_read_unlock\<close>), timer ticks, context switches and
  concurrent updaters, when a call of \<open>synchronize_rcu\<close> that started grace period \<open>n\<close> is
  about to return, no thread is inside a reader section that it entered before that
  period started.  This holds as long as fewer than \<open>2\<^sup>3\<^sup>1\<close> grace periods were started
  (\<open>gp_seq\<close> is a signed 32-bit counter) and every thread is bound to a CPU whose
  context is registered.
\<close>
theorem rcu_grace_period:
  assumes "rreachable home ncpu has_ctx boot s" "gps s < 2147483648"
    and "\<forall>c<ncpu. home (boot c) = c" "\<And>u. home u < ncpu \<and> has_ctx (home u)"
    and "pc s t = SyncDone n"
  shows "\<forall>u. 0 < rcu_nesting (rs s) u \<longrightarrow> n \<le> cs_start s u"
proof -
  have "rinv home ncpu s" using assms by (intro rreachable_rinv)
  then have "sync_inv home s t" by (simp add: rinv_def)
  with assms(5) show ?thesis by (simp add: sync_inv_def)
qed

text \<open>
  A run on two CPUs with one thread each: thread 1 is in a reader section when thread 0
  starts a grace period, leaves it, CPU 0 takes a tick, \<open>synchronize_rcu\<close> completes, and
  thread 1 enters a new section.
\<close>

lemma rcu_example_run:
  "\<exists>s. rreachable (\<lambda>t. t mod 2) 2 (\<lambda>_. True) (\<lambda>c. c) s \<and> pc s 0 = SyncDone 1 \<and> gps s = 1 \<and> rcu_nesting (rs s) 1 = 1"
proof -
  let ?H = "\<lambda>t :: nat. t mod 2"
  note start = rreachable.start [where home = ?H and ncpu = 2 and has_ctx = "\<lambda>_. True" and boot = "\<lambda>c. c", unfolded rstart_def rcu_init_def]
  note r1 = rreachable.step [OF start rstep.lock [where t = 1], simplified rcu_defs, simplified]
  note r2 = rreachable.step [OF r1 rstep.sync_begin [where t = 0], simplified rcu_defs, simplified]
  note r3 = rreachable.step [OF r2 rstep.unlock_last [where t = 1], simplified rcu_defs, simplified]
  note r4 = rreachable.step [OF r3 rstep.unlock_test [where t = 1], simplified rcu_defs, simplified]
  note r5 = rreachable.step [OF r4 rstep.unlock_read [where t = 1], simplified rcu_defs, simplified]
  note r6 = rreachable.step [OF r5 rstep.unlock_store [where t = 1 and g = 1], simplified rcu_defs, simplified]
  note r7 = rreachable.step [OF r6 rstep.tick [where c = 0], simplified rcu_defs, simplified]
  note r8 = rreachable.step [OF r7 rstep.tick_store [where c = 0 and g = 1], simplified rcu_defs, simplified]
  note r9 = rreachable.step [OF r8 rstep.sync_cpu [where t = 0 and target = 1 and n = 1 and c = 0], simplified rcu_defs, simplified]
  note r10 = rreachable.step [OF r9 rstep.sync_cpu [where t = 0 and target = 1 and n = 1 and c = 1], simplified rcu_defs, simplified]
  note r11 = rreachable.step [OF r10 rstep.sync_cpus [where t = 0 and target = 1 and n = 1 and c = 2], simplified rcu_defs, simplified]
  note r12 = rreachable.step [OF r11 rstep.sync_blocked [where t = 0 and target = 1 and n = 1], simplified rcu_defs, simplified]
  note r13 = rreachable.step [OF r12 rstep.lock [where t = 1], simplified rcu_defs, simplified]
  show ?thesis by (rule exI) (rule conjI, rule r13, simp)
qed

theorem rcu_grace_period_witness:
  "\<exists>s. rreachable (\<lambda>t. t mod 2) 2 (\<lambda>_. True) (\<lambda>c. c) s \<and> pc s 0 = SyncDone 1 \<and> rcu_nesting (rs s) 1 = 1 \<and>
     1 \<le> cs_start s 1"
proof -
  obtain s where s: "rreachable (\<lambda>t. t mod 2) 2 (\<lambda>_. True) (\<lambda>c. c) s" "pc s 0 = SyncDone 1" "gps s = 1"
    "rcu_nesting (rs s) 1 = 1" using rcu_example_run by blast
  have "\<forall>u. 0 < rcu_nesting (rs s) u \<longrightarrow> 1 \<le> cs_start s u"
    by (rule rcu_grace_period [OF s(1) _ _ _ s(2)]) (simp_all add: s(3))
  with s show ?thesis by auto
qed

text \<open>
  The counter wraps.  When \<open>gp_seq\<close> is at the largest \<open>int\<close>, the next
  \<open>synchronize_rcu\<close> computes a negative target: no CPU that has ever reported a
  non-negative sequence number is waited for in phase one, whatever its threads do.
\<close>
lemma rcu_gp_seq_wraps:
  assumes "gp_seq r = 2147483647" "0 \<le> gp_seq_seen r c"
  shows "fst (sync_start r) = - 2147483648 \<and> sync_cpu_done (fst (sync_start r)) c (snd (sync_start r))"
  using assms by (simp add: sync_start_def sync_cpu_done_def sint32_def Let_def)

end
