(* ===== verification/Runqueue.thy ===== *)
theory Runqueue
  imports Rcu "HOL-Library.Multiset"
begin

text \<open>
  Threads, per-CPU contexts and run queues (\<open>kernel/thread.h\<close>, \<open>arch/x86_64/cpu.h\<close>, the
  queue functions of \<open>arch/x86_64/cpu.c\<close>).  A thread is named by its address, 0 is the
  null pointer.  A run queue has one list per priority, a bitmap of the non-empty
  lists and a counter.  The lists are HOL lists of threads; that the pointer operations
  of \<open>list.h\<close> implement them is shown in \<open>Klist\<close>.  Every operation runs under the queue's
  lock and is one transition.  The main result is that a run queue implements a list of
  threads sorted by priority.
\<close>

section \<open>State\<close>

datatype thread_status = THREAD_READY | THREAD_RUNNING | THREAD_BLOCKED | THREAD_SLEEPING
  | THREAD_ZOMBIE | THREAD_EXITED

record thread =
  th_status :: thread_status
  th_priority :: nat
  th_base_priority :: nat
  th_donations :: "nat \<Rightarrow> u16"
  th_target_cpu :: int
  th_wakeup_ticks :: u64
  th_ticks :: u64
  th_pml4 :: u64
  th_kernel_stack :: u64
  th_run_tsc :: u64
  th_last_tsc :: u64
  th_preempts :: u32
  th_sleep_times :: u64
  th_exit_code :: int

abbreviation (input) SCHED_PRIO_COUNT :: nat where "SCHED_PRIO_COUNT \<equiv> 64"
abbreviation (input) SCHED_DEFAULT_PRIO :: nat where "SCHED_DEFAULT_PRIO \<equiv> 32"
abbreviation (input) SCHED_PRIO_NONE :: nat where "SCHED_PRIO_NONE \<equiv> 64"
abbreviation (input) MAX_CPUS :: nat where "MAX_CPUS \<equiv> 16"

record runqueue =
  rq_heads :: "nat \<Rightarrow> tid list"
  rq_bitmap :: u64
  rq_count :: int

record cpu_context =
  cc_current :: tid
  cc_idle :: tid
  cc_runqueue :: runqueue
  cc_zombiequeue :: runqueue
  cc_preempt_count :: int
  cc_need_resched :: bool
  cc_preempts :: u32
  cc_active_pml4 :: u64
  cc_rsp0 :: u64

text \<open>
  The kernel state the scheduler works on: all threads, \<open>g_cpu_contexts\<close> and
  \<open>g_cpu_count\<close>, the clock, the page-table root of the kernel, the RCU state, and the
  number of reschedule interrupts broadcast to the other CPUs.
\<close>

record kernel =
  k_thr :: "tid \<Rightarrow> thread"
  k_cpu :: "nat \<Rightarrow> cpu_context option"
  k_ncpu :: nat
  k_timer_ticks :: u64
  k_ticks :: u64
  k_root :: u64
  k_rcu :: rcu
  k_broadcasts :: nat

definition upd_thr :: "tid \<Rightarrow> (thread \<Rightarrow> thread) \<Rightarrow> kernel \<Rightarrow> kernel" where
  "upd_thr t f k = k\<lparr>k_thr := (k_thr k)(t := f (k_thr k t))\<rparr>"

definition upd_cpu :: "nat \<Rightarrow> (cpu_context \<Rightarrow> cpu_context) \<Rightarrow> kernel \<Rightarrow> kernel" where
  "upd_cpu c f k = k\<lparr>k_cpu := (k_cpu k)(c := map_option f (k_cpu k c))\<rparr>"

definition set_status :: "tid \<Rightarrow> thread_status \<Rightarrow> kernel \<Rightarrow> kernel" where
  "set_status t st = upd_thr t (\<lambda>d. d\<lparr>th_status := st\<rparr>)"

section \<open>Queue operations\<close>

text \<open>\<open>__builtin_ctzll\<close>: the number of trailing zero bits (64 for the argument 0).\<close>

definition ctzll :: "u64 \<Rightarrow> nat" where
  "ctzll bm = length (takeWhile (\<lambda>i. \<not> bit bm i) [0..<64])"

definition runqueue_init :: runqueue where
  "runqueue_init = \<lparr>rq_heads = (\<lambda>_. []), rq_bitmap = 0, rq_count = 0\<rparr>"

definition rq_mark :: "nat \<Rightarrow> runqueue \<Rightarrow> runqueue" where
  "rq_mark p rq = rq\<lparr>rq_bitmap := rq_bitmap rq OR push_bit p 1\<rparr>"

definition rq_unmark :: "nat \<Rightarrow> runqueue \<Rightarrow> runqueue" where
  "rq_unmark p rq =
     (if rq_heads rq p = [] then rq\<lparr>rq_bitmap := rq_bitmap rq AND NOT (push_bit p 1)\<rparr> else rq)"

text \<open>\<open>list_del\<close> of the thread's node: it leaves the list it is on.\<close>

definition rq_unlink :: "tid \<Rightarrow> runqueue \<Rightarrow> runqueue" where
  "rq_unlink t rq = rq\<lparr>rq_heads := (\<lambda>p. remove1 t (rq_heads rq p))\<rparr>"

definition rq_link :: "nat \<Rightarrow> tid \<Rightarrow> runqueue \<Rightarrow> runqueue" where
  "rq_link p t rq = rq\<lparr>rq_heads := (rq_heads rq)(p := t # rq_heads rq p)\<rparr>"

definition rq_link_tail :: "nat \<Rightarrow> tid \<Rightarrow> runqueue \<Rightarrow> runqueue" where
  "rq_link_tail p t rq = rq\<lparr>rq_heads := (rq_heads rq)(p := rq_heads rq p @ [t])\<rparr>"

definition rq_add_count :: "int \<Rightarrow> runqueue \<Rightarrow> runqueue" where
  "rq_add_count n rq = rq\<lparr>rq_count := rq_count rq + n\<rparr>"

definition runqueue_enqueue_raw :: "(tid \<Rightarrow> thread) \<Rightarrow> tid \<Rightarrow> runqueue \<Rightarrow> runqueue" where
  "runqueue_enqueue_raw thr t rq =
     (let prio = th_priority (thr t) in rq_add_count 1 (rq_mark prio (rq_link prio t rq)))"

definition runqueue_enqueue_tail_raw :: "(tid \<Rightarrow> thread) \<Rightarrow> tid \<Rightarrow> runqueue \<Rightarrow> runqueue" where
  "runqueue_enqueue_tail_raw thr t rq =
     (let prio = th_priority (thr t) in rq_add_count 1 (rq_mark prio (rq_link_tail prio t rq)))"

text \<open>
  Taking the first or the last thread of the highest priority.  On an empty list C
  computes a thread address from the list head; the model has no value for that.
\<close>

definition runqueue_dequeue_raw :: "runqueue \<Rightarrow> (tid \<times> runqueue) res" where
  "runqueue_dequeue_raw rq =
     (let prio = ctzll (rq_bitmap rq) in
      if rq_heads rq prio = [] then Inl Undefined
      else let t = hd (rq_heads rq prio)
           in Inr (t, rq_add_count (- 1) (rq_unmark prio (rq_unlink t rq))))"

definition runqueue_dequeue_tail_raw :: "runqueue \<Rightarrow> (tid \<times> runqueue) res" where
  "runqueue_dequeue_tail_raw rq =
     (let prio = ctzll (rq_bitmap rq) in
      if rq_heads rq prio = [] then Inl Undefined
      else let t = last (rq_heads rq prio)
           in Inr (t, rq_add_count (- 1) (rq_unmark prio (rq_unlink t rq))))"

definition runqueue_dequeue :: "runqueue \<Rightarrow> (tid \<times> runqueue) res" where
  "runqueue_dequeue rq = (if rq_count rq = 0 then Inr (0, rq) else runqueue_dequeue_raw rq)"

definition runqueue_dequeue_tail :: "runqueue \<Rightarrow> (tid \<times> runqueue) res" where
  "runqueue_dequeue_tail rq = (if rq_count rq = 0 then Inr (0, rq) else runqueue_dequeue_tail_raw rq)"

text \<open>The first thread with a given status; 0 when there is none.\<close>

fun dequeue_cond_from :: "(tid \<Rightarrow> thread) \<Rightarrow> thread_status \<Rightarrow> nat list \<Rightarrow> runqueue \<Rightarrow> tid \<times> runqueue" where
  "dequeue_cond_from thr cond [] rq = (0, rq)"
| "dequeue_cond_from thr cond (prio # ps) rq =
     (case List.find (\<lambda>t. th_status (thr t) = cond) (rq_heads rq prio) of
        Some t \<Rightarrow> (t, rq_add_count (- 1) (rq_unmark prio (rq_unlink t rq)))
      | None \<Rightarrow> dequeue_cond_from thr cond ps rq)"

definition runqueue_dequeue_cond_raw :: "(tid \<Rightarrow> thread) \<Rightarrow> thread_status \<Rightarrow> runqueue \<Rightarrow> tid \<times> runqueue" where
  "runqueue_dequeue_cond_raw thr cond rq = dequeue_cond_from thr cond [0..<SCHED_PRIO_COUNT] rq"

section \<open>Queues of a CPU\<close>

text \<open>Asking CPU \<open>cpu\<close> to reschedule, from CPU \<open>self\<close>.\<close>

definition ipi_reschedule_cpu :: "nat \<Rightarrow> nat \<Rightarrow> kernel \<Rightarrow> kernel" where
  "ipi_reschedule_cpu self cpu k =
     (if cpu \<ge> MAX_CPUS then k
      else case k_cpu k cpu of
        None \<Rightarrow> k
      | Some _ \<Rightarrow>
          let k1 = upd_cpu cpu (\<lambda>c. c\<lparr>cc_need_resched := True\<rparr>) k
          in if cpu = self then k1 else k1\<lparr>k_broadcasts := k_broadcasts k1 + 1\<rparr>)"

definition cpu_queue_check :: "int \<Rightarrow> tid \<Rightarrow> kernel \<Rightarrow> unit res" where
  "cpu_queue_check cpu_id t k =
     (if cpu_id \<noteq> th_target_cpu (k_thr k t) then Inl (Panic ''no cpu specified'') else Inr ())"

text \<open>Dereferencing a context that does not exist is undefined.\<close>

definition with_ctx :: "int \<Rightarrow> kernel \<Rightarrow> (nat \<Rightarrow> cpu_context \<Rightarrow> 'a res) \<Rightarrow> 'a res" where
  "with_ctx cpu_id k f =
     (if cpu_id < 0 then Inl Undefined
      else case k_cpu k (nat cpu_id) of None \<Rightarrow> Inl Undefined | Some c \<Rightarrow> f (nat cpu_id) c)"

definition cpu_enqueue :: "nat \<Rightarrow> int \<Rightarrow> tid \<Rightarrow> kernel \<Rightarrow> kernel res" where
  "cpu_enqueue self cpu t k =
     (let cpu_id = (if cpu = - 1 then th_target_cpu (k_thr k t) else cpu) in
      bind_res (cpu_queue_check cpu_id t k) (\<lambda>_.
      with_ctx cpu_id k (\<lambda>n _.
        let k1 = set_status t THREAD_READY k;
            k2 = upd_cpu n (\<lambda>c. c\<lparr>cc_runqueue := runqueue_enqueue_raw (k_thr k1) t (cc_runqueue c)\<rparr>) k1
        in Inr (ipi_reschedule_cpu self n k2))))"

definition cpu_enqueue_tail :: "nat \<Rightarrow> int \<Rightarrow> tid \<Rightarrow> kernel \<Rightarrow> kernel res" where
  "cpu_enqueue_tail self cpu_id t k =
     bind_res (cpu_queue_check cpu_id t k) (\<lambda>_.
     with_ctx cpu_id k (\<lambda>n _.
       let k0 = upd_thr t (\<lambda>d. d\<lparr>th_target_cpu := cpu_id\<rparr>) k;
           k1 = set_status t THREAD_READY k0;
           k2 = upd_cpu n (\<lambda>c. c\<lparr>cc_runqueue := runqueue_enqueue_tail_raw (k_thr k1) t (cc_runqueue c)\<rparr>) k1
       in Inr (ipi_reschedule_cpu self n k2)))"

definition cpu_dequeue :: "int \<Rightarrow> kernel \<Rightarrow> (tid \<times> kernel) res" where
  "cpu_dequeue cpu_id k =
     with_ctx cpu_id k (\<lambda>n c. bind_res (runqueue_dequeue (cc_runqueue c)) (\<lambda>(t, rq).
       Inr (t, upd_cpu n (\<lambda>c. c\<lparr>cc_runqueue := rq\<rparr>) k)))"

definition cpu_enqueue_zombie :: "int \<Rightarrow> tid \<Rightarrow> kernel \<Rightarrow> kernel res" where
  "cpu_enqueue_zombie cpu_id t k =
     bind_res (cpu_queue_check cpu_id t k) (\<lambda>_.
     with_ctx cpu_id k (\<lambda>n _.
       let k0 = upd_thr t (\<lambda>d. d\<lparr>th_target_cpu := cpu_id\<rparr>) k;
           k1 = set_status t THREAD_READY k0
       in Inr (upd_cpu n (\<lambda>c. c\<lparr>cc_zombiequeue := runqueue_enqueue_raw (k_thr k1) t (cc_zombiequeue c)\<rparr>) k1)))"

definition cpu_dequeue_zombie :: "int \<Rightarrow> kernel \<Rightarrow> (tid \<times> kernel) res" where
  "cpu_dequeue_zombie cpu_id k =
     with_ctx cpu_id k (\<lambda>n c. bind_res (runqueue_dequeue (cc_zombiequeue c)) (\<lambda>(t, rq).
       Inr (t, upd_cpu n (\<lambda>c. c\<lparr>cc_zombiequeue := rq\<rparr>) k)))"

definition cpu_dequeue_zombie_tail :: "int \<Rightarrow> kernel \<Rightarrow> (tid \<times> kernel) res" where
  "cpu_dequeue_zombie_tail cpu_id k =
     with_ctx cpu_id k (\<lambda>n c. bind_res (runqueue_dequeue_tail (cc_zombiequeue c)) (\<lambda>(t, rq).
       Inr (t, upd_cpu n (\<lambda>c. c\<lparr>cc_zombiequeue := rq\<rparr>) k)))"

section \<open>Invariant\<close>

named_theorems rq_defs \<open>the elementary updates of a run queue\<close>

lemmas [rq_defs] = rq_mark_def rq_unmark_def rq_unlink_def rq_link_def rq_link_tail_def rq_add_count_def

text \<open>The threads of a queue in the order in which they are dequeued.\<close>

definition rq_list :: "runqueue \<Rightarrow> tid list" where
  "rq_list rq = concat (map (rq_heads rq) [0..<SCHED_PRIO_COUNT])"

definition rq_inv :: "(tid \<Rightarrow> thread) \<Rightarrow> runqueue \<Rightarrow> bool" where
  "rq_inv thr rq \<longleftrightarrow> (\<forall>p. bit (rq_bitmap rq) p = (rq_heads rq p \<noteq> [])) \<and> (\<forall>p. distinct (rq_heads rq p)) \<and>
     (\<forall>p. set (rq_heads rq p) \<subseteq> {t. th_priority (thr t) = p}) \<and> rq_count rq = int (length (rq_list rq))"

lemma bit_mark [simp]: "p < 64 \<Longrightarrow> bit (bm OR 2 ^ p :: u64) i = (bit bm i \<or> i = p)"
  by (auto simp: bit_or_iff bit_exp_iff)

lemma bit_unmark [simp]: "bit (bm AND NOT (2 ^ p) :: u64) i = (bit bm i \<and> i \<noteq> p)"
  by (cases "i < 64") (auto simp: bit_and_iff bit_not_iff bit_exp_iff dest: bit_imp_le_length)

lemma bit_u64_less: "bit (w :: u64) p \<Longrightarrow> p < 64"
  using bit_imp_le_length by fastforce

lemma upt_split: "p < n \<Longrightarrow> [0..<n] = [0..<p] @ p # [Suc p..<n]"
  using upt_add_eq_append [of 0 p "n - p"] upt_conv_Cons [of p n] by simp

lemma ctzll_eq:
  assumes "bit bm p" "\<And>i. i < p \<Longrightarrow> \<not> bit bm i"
  shows "ctzll bm = p"
proof -
  have "p < 64" using assms(1) by (rule bit_u64_less)
  from upt_split [OF this] have "takeWhile (\<lambda>i. \<not> bit bm i) [0..<64] = [0..<p]"
    using assms by (simp add: takeWhile_append)
  then show ?thesis by (simp add: ctzll_def)
qed

lemma ctzll_bit:
  assumes "bm \<noteq> 0"
  shows "bit bm (ctzll bm) \<and> (\<forall>i<ctzll bm. \<not> bit bm i)"
proof -
  have "\<exists>n. bit bm n" using assms by (auto simp: bit_eq_iff)
  then obtain n where n: "bit bm n" ..
  define p where "p = (LEAST i. bit bm i)"
  have b: "bit bm p" unfolding p_def using n by (rule LeastI [of "bit bm"])
  have l: "\<not> bit bm i" if "i < p" for i using that unfolding p_def by (rule not_less_Least)
  have e: "ctzll bm = p" by (rule ctzll_eq, rule b, erule l)
  show ?thesis unfolding e using b l by simp
qed

lemma rq_inv_prio: "rq_inv thr rq \<Longrightarrow> t \<in> set (rq_heads rq p) \<Longrightarrow> th_priority (thr t) = p"
  unfolding rq_inv_def by blast

lemma rq_inv_head: "rq_inv thr rq \<Longrightarrow> rq_heads rq p \<noteq> [] \<Longrightarrow> p < 64"
  by (metis bit_u64_less rq_inv_def)

lemma rq_inv_high: "rq_inv thr rq \<Longrightarrow> \<not> p < 64 \<Longrightarrow> rq_heads rq p = []"
  using rq_inv_head by blast

lemma set_rq_list:
  assumes "rq_inv thr rq"
  shows "t \<in> set (rq_list rq) \<longleftrightarrow> t \<in> set (rq_heads rq (th_priority (thr t)))"
proof
  assume "t \<in> set (rq_list rq)"
  then obtain p where "t \<in> set (rq_heads rq p)" by (auto simp: rq_list_def)
  with rq_inv_prio [OF assms this] show "t \<in> set (rq_heads rq (th_priority (thr t)))" by simp
next
  assume t: "t \<in> set (rq_heads rq (th_priority (thr t)))"
  then have "th_priority (thr t) < 64" using rq_inv_head [OF assms, of "th_priority (thr t)"] by fastforce
  with t show "t \<in> set (rq_list rq)" unfolding rq_list_def by auto
qed

lemma rq_list_split:
  assumes "p < 64"
  shows "rq_list rq = concat (map (rq_heads rq) [0..<p]) @ rq_heads rq p @ concat (map (rq_heads rq) [Suc p..<64])"
  unfolding rq_list_def upt_split [OF assms] by simp

text \<open>Replacing the list of one priority.\<close>

lemma rq_list_upd:
  assumes "p < 64"
  shows "rq_list (rq\<lparr>rq_heads := (rq_heads rq)(p := xs)\<rparr>) =
    concat (map (rq_heads rq) [0..<p]) @ xs @ concat (map (rq_heads rq) [Suc p..<64])"
  unfolding rq_list_split [OF assms] by simp

lemma rq_list_cong: "rq_heads rq' = rq_heads rq \<Longrightarrow> rq_list rq' = rq_list rq"
  by (simp add: rq_list_def)

lemma rq_inv_distinct:
  assumes "rq_inv thr rq"
  shows "distinct (rq_list rq)"
proof -
  have "distinct (concat (map (rq_heads rq) ps))" if "distinct ps" for ps
    using that
  proof (induction ps)
    case (Cons p ps)
    have "set (rq_heads rq p) \<inter> set (rq_heads rq q) = {}" if "q \<in> set ps" for q
    proof (rule ccontr)
      assume "set (rq_heads rq p) \<inter> set (rq_heads rq q) \<noteq> {}"
      then obtain x where "x \<in> set (rq_heads rq p)" "x \<in> set (rq_heads rq q)" by blast
      then have "th_priority (thr x) = p" "th_priority (thr x) = q" using rq_inv_prio [OF assms] by blast+
      then show False using Cons.prems that by simp
    qed
    moreover have "distinct (rq_heads rq p)" using assms by (simp add: rq_inv_def)
    ultimately show ?case using Cons by auto
  qed simp
  then show ?thesis by (simp add: rq_list_def)
qed

lemma rq_inv_sorted:
  assumes "rq_inv thr rq"
  shows "sorted (map (\<lambda>t. th_priority (thr t)) (rq_list rq))"
proof -
  have "sorted (map (\<lambda>t. th_priority (thr t)) (concat (map (rq_heads rq) ps)))" if "sorted ps" for ps
    using that assms
  proof (induction ps)
    case (Cons p ps)
    have "map (\<lambda>t. th_priority (thr t)) (rq_heads rq p) = replicate (length (rq_heads rq p)) p"
      using rq_inv_prio [OF Cons.prems(2)] by (intro replicate_eqI) auto
    moreover have "p \<le> th_priority (thr t)" if "t \<in> set (concat (map (rq_heads rq) ps))" for t
      using that rq_inv_prio [OF Cons.prems(2)] Cons.prems(1) by auto
    ultimately show ?case using Cons by (simp add: sorted_append)
  qed simp
  then show ?thesis by (simp add: rq_list_def)
qed

lemma rq_inv_init: "rq_inv thr runqueue_init" "rq_list runqueue_init = []"
  by (auto simp: rq_inv_def runqueue_init_def rq_list_def)

text \<open>The invariant depends on the priorities only.\<close>

lemma rq_inv_cong:
  assumes "\<And>t. t \<in> set (rq_list rq) \<Longrightarrow> th_priority (thr' t) = th_priority (thr t)" "rq_inv thr rq"
  shows "rq_inv thr' rq"
proof -
  have "th_priority (thr' t) = p" if "t \<in> set (rq_heads rq p)" for t p
  proof -
    have "th_priority (thr t) = p" using rq_inv_prio [OF assms(2) that] .
    moreover then have "t \<in> set (rq_list rq)" using that set_rq_list [OF assms(2), of t] by simp
    ultimately show ?thesis using assms(1) by simp
  qed
  then show ?thesis using assms(2) by (auto simp: rq_inv_def)
qed

section \<open>Insertion and removal\<close>

text \<open>Replacing the list of priority \<open>p\<close> by \<open>xs\<close> and keeping bitmap and counter in step.\<close>

lemma rq_inv_replace:
  assumes inv: "rq_inv thr rq" and p: "p < 64" and xs: "distinct xs" "\<forall>t\<in>set xs. th_priority (thr t) = p"
    and rq': "rq_heads rq' = (rq_heads rq)(p := xs)" "\<And>i. bit (rq_bitmap rq') i = (if i = p then xs \<noteq> [] else bit (rq_bitmap rq) i)"
      "rq_count rq' = rq_count rq + int (length xs) - int (length (rq_heads rq p))"
  shows "rq_inv thr rq'"
proof -
  have l: "rq_list rq' = concat (map (rq_heads rq) [0..<p]) @ xs @ concat (map (rq_heads rq) [Suc p..<64])"
    using rq_list_upd [OF p, of rq xs] rq_list_cong [of rq' "rq\<lparr>rq_heads := (rq_heads rq)(p := xs)\<rparr>"] rq'(1) by simp
  have "rq_count rq' = int (length (rq_list rq'))"
    using inv rq'(3) unfolding l by (simp add: rq_inv_def rq_list_split [OF p])
  then show ?thesis using inv xs rq'(1,2) by (auto simp: rq_inv_def)
qed

definition insort_tail :: "('a \<Rightarrow> 'b :: linorder) \<Rightarrow> 'a \<Rightarrow> 'a list \<Rightarrow> 'a list" where
  "insort_tail f x xs = takeWhile (\<lambda>y. f y \<le> f x) xs @ x # dropWhile (\<lambda>y. f y \<le> f x) xs"

lemma insort_key_takeWhile:
  "insort_key f x xs = takeWhile (\<lambda>y. f y < f x) xs @ x # dropWhile (\<lambda>y. f y < f x) xs"
  by (induction xs) auto

lemma takeWhile_three:
  assumes "\<forall>x\<in>set as. P x" "\<forall>x\<in>set cs. \<not> P x"
  shows "takeWhile P (as @ cs) = as" "dropWhile P (as @ cs) = cs"
  using assms by (cases cs; simp add: takeWhile_append dropWhile_append)+

lemma rq_parts:
  assumes "rq_inv thr rq"
  shows "t \<in> set (concat (map (rq_heads rq) [0..<p])) \<Longrightarrow> th_priority (thr t) < p"
    "t \<in> set (concat (map (rq_heads rq) [Suc p..<64])) \<Longrightarrow> p < th_priority (thr t)"
  using rq_inv_prio [OF assms] by auto

lemma rq_notin_head: "rq_inv thr rq \<Longrightarrow> t \<notin> set (rq_list rq) \<Longrightarrow> t \<notin> set (rq_heads rq (th_priority (thr t)))"
  using set_rq_list by blast

lemma rq_inv_distinct_head: "rq_inv thr rq \<Longrightarrow> distinct (rq_heads rq p)"
  by (simp add: rq_inv_def)

lemma enqueue_raw_refines:
  assumes inv: "rq_inv thr rq" and t: "t \<notin> set (rq_list rq)" "th_priority (thr t) < 64"
  shows "rq_inv thr (runqueue_enqueue_raw thr t rq)"
    "rq_list (runqueue_enqueue_raw thr t rq) = insort_key (\<lambda>t. th_priority (thr t)) t (rq_list rq)"
proof -
  let ?p = "th_priority (thr t)"
  let ?rq = "runqueue_enqueue_raw thr t rq"
  let ?as = "concat (map (rq_heads rq) [0..<?p])" and ?cs = "concat (map (rq_heads rq) [Suc ?p..<64])"
  have hd: "rq_heads ?rq = (rq_heads rq)(?p := t # rq_heads rq ?p)"
    by (simp add: runqueue_enqueue_raw_def Let_def rq_defs)
  have mem: "distinct (t # rq_heads rq ?p)" "\<forall>u\<in>set (t # rq_heads rq ?p). th_priority (thr u) = ?p"
    using rq_notin_head [OF inv t(1)] rq_inv_distinct_head [OF inv] rq_inv_prio [OF inv] by auto
  show "rq_inv thr ?rq"
    by (rule rq_inv_replace [OF inv t(2) mem hd]) (use t(2) in \<open>auto simp: runqueue_enqueue_raw_def Let_def rq_defs\<close>)
  have "rq_list ?rq = ?as @ (t # rq_heads rq ?p) @ ?cs"
    using rq_list_upd [OF t(2), of rq] rq_list_cong [of ?rq "rq\<lparr>rq_heads := (rq_heads rq)(?p := t # rq_heads rq ?p)\<rparr>"] hd by simp
  moreover have "\<forall>x\<in>set ?as. th_priority (thr x) < ?p" using rq_parts(1) [OF inv] by blast
  moreover have "\<forall>x\<in>set (rq_heads rq ?p @ ?cs). \<not> th_priority (thr x) < ?p"
  proof
    fix x assume "x \<in> set (rq_heads rq ?p @ ?cs)"
    then show "\<not> th_priority (thr x) < ?p"
      using rq_parts(2) [OF inv, of x ?p] rq_inv_prio [OF inv, of x ?p] unfolding set_append by fastforce
  qed
  ultimately show "rq_list ?rq = insort_key (\<lambda>t. th_priority (thr t)) t (rq_list rq)"
    unfolding insort_key_takeWhile rq_list_split [OF t(2), of rq] by (simp add: takeWhile_three)
qed

lemma enqueue_tail_raw_refines:
  assumes inv: "rq_inv thr rq" and t: "t \<notin> set (rq_list rq)" "th_priority (thr t) < 64"
  shows "rq_inv thr (runqueue_enqueue_tail_raw thr t rq)"
    "rq_list (runqueue_enqueue_tail_raw thr t rq) = insort_tail (\<lambda>t. th_priority (thr t)) t (rq_list rq)"
proof -
  let ?p = "th_priority (thr t)"
  let ?rq = "runqueue_enqueue_tail_raw thr t rq"
  let ?as = "concat (map (rq_heads rq) [0..<?p])" and ?cs = "concat (map (rq_heads rq) [Suc ?p..<64])"
  have hd: "rq_heads ?rq = (rq_heads rq)(?p := rq_heads rq ?p @ [t])"
    by (simp add: runqueue_enqueue_tail_raw_def Let_def rq_defs)
  have mem: "distinct (rq_heads rq ?p @ [t])" "\<forall>u\<in>set (rq_heads rq ?p @ [t]). th_priority (thr u) = ?p"
    using rq_notin_head [OF inv t(1)] rq_inv_distinct_head [OF inv] rq_inv_prio [OF inv] by auto
  show "rq_inv thr ?rq"
    by (rule rq_inv_replace [OF inv t(2) mem hd]) (use t(2) in \<open>auto simp: runqueue_enqueue_tail_raw_def Let_def rq_defs\<close>)
  have "rq_list ?rq = (?as @ rq_heads rq ?p) @ (t # ?cs)"
    using rq_list_upd [OF t(2), of rq] rq_list_cong [of ?rq "rq\<lparr>rq_heads := (rq_heads rq)(?p := rq_heads rq ?p @ [t])\<rparr>"] hd by simp
  moreover have "\<forall>x\<in>set (?as @ rq_heads rq ?p). th_priority (thr x) \<le> ?p"
  proof
    fix x assume "x \<in> set (?as @ rq_heads rq ?p)"
    then show "th_priority (thr x) \<le> ?p"
      using rq_parts(1) [OF inv, of x ?p] rq_inv_prio [OF inv, of x ?p] unfolding set_append by fastforce
  qed
  moreover have "\<forall>x\<in>set ?cs. \<not> th_priority (thr x) \<le> ?p"
    using rq_parts(2) [OF inv, of _ ?p] by (simp only: not_le) blast
  ultimately show "rq_list ?rq = insort_tail (\<lambda>t. th_priority (thr t)) t (rq_list rq)"
    unfolding insort_tail_def rq_list_split [OF t(2), of rq] append_assoc [symmetric] by (simp only: takeWhile_three)
qed

text \<open>Unlinking a thread of the queue, with the bitmap and the counter adjusted.\<close>

definition rq_take :: "nat \<Rightarrow> tid \<Rightarrow> runqueue \<Rightarrow> runqueue" where
  "rq_take p t rq = rq_add_count (- 1) (rq_unmark p (rq_unlink t rq))"

lemma rq_unlink_heads:
  assumes "rq_inv thr rq" "t \<in> set (rq_heads rq p)"
  shows "(\<lambda>q. remove1 t (rq_heads rq q)) = (rq_heads rq)(p := remove1 t (rq_heads rq p))"
proof
  fix q
  have "q \<noteq> p \<Longrightarrow> t \<notin> set (rq_heads rq q)"
    using rq_inv_prio [OF assms(1), of t q] rq_inv_prio [OF assms] by auto
  then show "remove1 t (rq_heads rq q) = ((rq_heads rq)(p := remove1 t (rq_heads rq p))) q"
    by (simp add: remove1_idem)
qed

lemma rq_take_inv:
  assumes inv: "rq_inv thr rq" and t: "t \<in> set (rq_heads rq p)"
  shows "rq_inv thr (rq_take p t rq)" "rq_list (rq_take p t rq) = remove1 t (rq_list rq)"
proof -
  let ?rq = "rq_take p t rq" and ?xs = "remove1 t (rq_heads rq p)"
  have p: "p < 64" using rq_inv_head [OF inv, of p] t by fastforce
  have hd: "rq_heads ?rq = (rq_heads rq)(p := ?xs)"
    using rq_unlink_heads [OF inv t] by (simp add: rq_take_def rq_defs)
  have dx: "distinct (rq_heads rq p)" using rq_inv_distinct_head [OF inv] .
  then have xs: "distinct ?xs" "\<forall>u\<in>set ?xs. th_priority (thr u) = p"
    using rq_inv_prio [OF inv] by (auto simp: distinct_remove1 dest: notin_set_remove1)
  have bit: "bit (rq_bitmap ?rq) i = (if i = p then ?xs \<noteq> [] else bit (rq_bitmap rq) i)" for i
    using inv t by (auto simp: rq_take_def rq_defs rq_inv_def)
  have "rq_count ?rq = rq_count rq + int (length ?xs) - int (length (rq_heads rq p))"
    using t length_pos_if_in_set [OF t] by (cases "length (rq_heads rq p)") (auto simp: rq_take_def rq_defs length_remove1)
  with hd xs bit show "rq_inv thr ?rq" by (intro rq_inv_replace [OF inv p]) auto
  have "t \<notin> set (concat (map (rq_heads rq) [0..<p]))"
    using rq_parts(1) [OF inv, of t p] rq_inv_prio [OF inv t] by auto
  then show "rq_list ?rq = remove1 t (rq_list rq)"
    using rq_list_upd [OF p, of rq ?xs] rq_list_cong [of ?rq "rq\<lparr>rq_heads := (rq_heads rq)(p := ?xs)\<rparr>"] hd t
    unfolding rq_list_split [OF p, of rq] by (simp add: remove1_append)
qed

text \<open>In a non-empty queue the lowest bit names the list of the first thread.\<close>

lemma rq_first_list:
  assumes inv: "rq_inv thr rq" and ne: "rq_list rq \<noteq> []"
  shows "rq_heads rq (ctzll (rq_bitmap rq)) \<noteq> []"
    "concat (map (rq_heads rq) [0..<ctzll (rq_bitmap rq)]) = []" "ctzll (rq_bitmap rq) < 64"
proof -
  obtain p where p: "rq_heads rq p \<noteq> []" using ne by (auto simp: rq_list_def)
  then have "bit (rq_bitmap rq) p" using inv by (simp add: rq_inv_def)
  then have "rq_bitmap rq \<noteq> 0" by auto
  from ctzll_bit [OF this] show "rq_heads rq (ctzll (rq_bitmap rq)) \<noteq> []"
    "concat (map (rq_heads rq) [0..<ctzll (rq_bitmap rq)]) = []" "ctzll (rq_bitmap rq) < 64"
    using inv bit_u64_less by (auto simp: rq_inv_def)
qed

lemma dequeue_refines:
  assumes inv: "rq_inv thr rq" and ne: "rq_list rq \<noteq> []"
  shows "\<exists>rq'. runqueue_dequeue rq = Inr (hd (rq_list rq), rq') \<and> rq_inv thr rq' \<and> rq_list rq' = tl (rq_list rq)"
proof -
  let ?p = "ctzll (rq_bitmap rq)"
  note f = rq_first_list [OF inv ne]
  have l: "rq_list rq = rq_heads rq ?p @ concat (map (rq_heads rq) [Suc ?p..<64])"
    using rq_list_split [OF f(3), of rq] f(2) by simp
  then have hd: "hd (rq_list rq) = hd (rq_heads rq ?p)" using f(1) by simp
  have t: "hd (rq_list rq) \<in> set (rq_heads rq ?p)" using f(1) hd by simp
  have "rq_count rq \<noteq> 0" using inv ne by (simp add: rq_inv_def)
  then have "runqueue_dequeue rq = Inr (hd (rq_list rq), rq_take ?p (hd (rq_list rq)) rq)"
    using f(1) by (simp add: runqueue_dequeue_def runqueue_dequeue_raw_def Let_def hd rq_take_def)
  moreover have "remove1 (hd (rq_list rq)) (rq_list rq) = tl (rq_list rq)" using ne by (cases "rq_list rq") auto
  ultimately show ?thesis using rq_take_inv [OF inv t] by auto
qed

lemma dequeue_tail_refines:
  assumes inv: "rq_inv thr rq" and ne: "rq_list rq \<noteq> []"
  shows "\<exists>t rq'. runqueue_dequeue_tail rq = Inr (t, rq') \<and> t \<in> set (rq_list rq) \<and> rq_inv thr rq' \<and>
    rq_list rq' = remove1 t (rq_list rq)"
proof -
  let ?p = "ctzll (rq_bitmap rq)"
  note f = rq_first_list [OF inv ne]
  let ?t = "last (rq_heads rq ?p)"
  have t: "?t \<in> set (rq_heads rq ?p)" using f(1) by simp
  have "rq_count rq \<noteq> 0" using inv ne by (simp add: rq_inv_def)
  then have "runqueue_dequeue_tail rq = Inr (?t, rq_take ?p ?t rq)"
    using f(1) by (simp add: runqueue_dequeue_tail_def runqueue_dequeue_tail_raw_def Let_def rq_take_def)
  moreover have "?t \<in> set (rq_list rq)" using t rq_list_split [OF f(3), of rq] by simp
  ultimately show ?thesis using rq_take_inv [OF inv t] by auto
qed

lemma find_append:
  "List.find P (xs @ ys) = (case List.find P xs of Some x \<Rightarrow> Some x | None \<Rightarrow> List.find P ys)"
  by (induction xs) auto

lemma dequeue_cond_from_spec:
  assumes "rq_inv thr rq" "dequeue_cond_from thr cond ps rq = (t, rq')" "\<exists>p\<in>set ps. \<exists>u\<in>set (rq_heads rq p). th_status (thr u) = cond"
  shows "List.find (\<lambda>u. th_status (thr u) = cond) (concat (map (rq_heads rq) ps)) = Some t \<and> rq_inv thr rq' \<and>
    rq_list rq' = remove1 t (rq_list rq)"
  using assms
proof (induction ps)
  case (Cons p ps)
  show ?case
  proof (cases "List.find (\<lambda>u. th_status (thr u) = cond) (rq_heads rq p)")
    case None
    then have "\<exists>q\<in>set ps. \<exists>u\<in>set (rq_heads rq q). th_status (thr u) = cond"
      using Cons.prems(3) by (auto simp: find_None_iff)
    then show ?thesis using Cons None by (simp add: find_append)
  next
    case (Some u)
    then have u: "u \<in> set (rq_heads rq p)" by (auto simp: find_Some_iff)
    have "t = u" "rq' = rq_take p u rq" using Cons.prems(2) Some by (auto simp: rq_take_def)
    then show ?thesis using Some rq_take_inv [OF Cons.prems(1) u] by (simp add: find_append)
  qed
qed simp

section \<open>The contract of a ready queue\<close>

primrec drain :: "nat \<Rightarrow> ('q \<Rightarrow> ('t \<times> 'q) res) \<Rightarrow> 'q \<Rightarrow> ('t list \<times> 'q) res" where
  "drain 0 deq q = Inr ([], q)"
| "drain (Suc n) deq q = bind_res (deq q) (\<lambda>(t, q1). bind_res (drain n deq q1) (\<lambda>(ts, q2). Inr (t # ts, q2)))"

lemma insort_tail_props:
  shows set_insort_tail: "set (insort_tail f x xs) = insert x (set xs)"
    and mset_insort_tail: "mset (insort_tail f x xs) = add_mset x (mset xs)"
  unfolding insort_tail_def
  by (metis Un_insert_right list.simps(15) set_append takeWhile_dropWhile_id)
    (metis mset.simps(2) mset_append takeWhile_dropWhile_id union_mset_add_mset_right)

lemma sorted_insort_tail:
  assumes "sorted (map f xs)"
  shows "sorted (map f (insort_tail f x xs))"
  using assms
proof (induction xs)
  case (Cons y ys)
  then show ?case
    by (auto simp: insort_tail_def dest: set_takeWhileD set_dropWhileD)
qed (simp add: insort_tail_def)

lemma filter_insort_tail:
  assumes "sorted (map f xs)"
  shows "filter (\<lambda>y. f y = k) (insort_tail f x xs) = filter (\<lambda>y. f y = k) xs @ (if f x = k then [x] else [])"
  using assms
proof (induction xs)
  case (Cons y ys)
  show ?case
  proof (cases "f y \<le> f x")
    case True
    then have "insort_tail f x (y # ys) = y # insort_tail f x ys" by (simp add: insort_tail_def)
    then show ?thesis using Cons by simp
  next
    case False
    then have "insort_tail f x (y # ys) = x # y # ys" by (simp add: insort_tail_def)
    moreover have "f x = k \<Longrightarrow> filter (\<lambda>y. f y = k) (y # ys) = []" using False Cons.prems by (auto simp: filter_empty_conv)
    ultimately show ?thesis by auto
  qed
qed (simp add: insort_tail_def)

lemma fold_insort_tail: "fold (insort_tail f) xs [] = sort_key f xs"
proof -
  have "sorted (map f (fold (insort_tail f) xs ys)) \<and> mset (fold (insort_tail f) xs ys) = mset xs + mset ys \<and>
      filter (\<lambda>y. f y = k) (fold (insort_tail f) xs ys) = filter (\<lambda>y. f y = k) ys @ filter (\<lambda>y. f y = k) xs"
    if "sorted (map f ys)" for ys k
    using that
  proof (induction xs arbitrary: ys)
    case (Cons x xs)
    from Cons.IH [OF sorted_insort_tail [OF Cons.prems, of x]] show ?case
      by (simp add: mset_insort_tail filter_insort_tail [OF Cons.prems])
  qed simp
  from this [of "[]"] have p: "sorted (map f (fold (insort_tail f) xs []))" "mset (fold (insort_tail f) xs []) = mset xs"
    and s: "\<And>k. filter (\<lambda>y. f y = k) (fold (insort_tail f) xs []) = filter (\<lambda>y. f y = k) xs" by auto
  have s': "filter (\<lambda>y. f k = f y) (fold (insort_tail f) xs []) = filter (\<lambda>y. f k = f y) xs" for k
    using s [of "f k"] by (simp only: eq_commute [of "f k"])
  show ?thesis using p s' by (intro properties_for_sort_key [symmetric])
qed

locale ready_queue =
  fixes enq :: "'t \<Rightarrow> 'q \<Rightarrow> 'q"
    and deq :: "'q \<Rightarrow> ('t \<times> 'q) res"
    and contents :: "'q \<Rightarrow> 't list"
    and inv :: "'q \<Rightarrow> bool"
    and prio :: "'t \<Rightarrow> nat"
  assumes enq_spec: "inv q \<Longrightarrow> t \<notin> set (contents q) \<Longrightarrow> prio t < SCHED_PRIO_COUNT \<Longrightarrow>
      inv (enq t q) \<and> contents (enq t q) = insort_tail prio t (contents q)"
    and deq_spec: "inv q \<Longrightarrow> contents q \<noteq> [] \<Longrightarrow>
      \<exists>q'. deq q = Inr (hd (contents q), q') \<and> inv q' \<and> contents q' = tl (contents q)"
begin

lemma enq_all:
  "inv q \<Longrightarrow> distinct ts \<Longrightarrow> set ts \<inter> set (contents q) = {} \<Longrightarrow> \<forall>t\<in>set ts. prio t < SCHED_PRIO_COUNT \<Longrightarrow>
   inv (fold enq ts q) \<and> contents (fold enq ts q) = fold (insort_tail prio) ts (contents q)"
proof (induction ts arbitrary: q)
  case (Cons t ts)
  have q1: "inv (enq t q)" "contents (enq t q) = insort_tail prio t (contents q)"
    using enq_spec [of q t] Cons.prems by auto
  show ?case using Cons.IH [OF q1(1)] Cons.prems q1(2) by (auto simp: set_insort_tail)
qed simp

lemma drain_all: "inv q \<Longrightarrow> \<exists>q'. drain (length (contents q)) deq q = Inr (contents q, q') \<and> inv q' \<and> contents q' = []"
proof (induction "contents q" arbitrary: q)
  case (Cons t ts)
  then obtain q1 where q1: "deq q = Inr (t, q1)" "inv q1" "contents q1 = ts"
    using deq_spec [of q] by (metis list.sel(1,3) list.simps(3))
  then obtain q' where "drain (length ts) deq q1 = Inr (ts, q')" "inv q'" "contents q' = []"
    using Cons.hyps(1) [of q1] by auto
  then show ?case using q1(1) Cons.hyps(2) [symmetric] by simp
qed simp

lemma enq_drain:
  assumes "inv q" "contents q = []" "distinct ts" "\<forall>t\<in>set ts. prio t < SCHED_PRIO_COUNT"
  shows "\<exists>q'. drain (length ts) deq (fold enq ts q) = Inr (sort_key prio ts, q') \<and> inv q' \<and> contents q' = []"
proof -
  have e: "inv (fold enq ts q)" "contents (fold enq ts q) = sort_key prio ts"
    using enq_all [of q ts] assms by (simp_all add: fold_insort_tail)
  have "length (sort_key prio ts) = length ts" by simp
  with drain_all [OF e(1)] e(2) show ?thesis by simp
qed

end

interpretation rqq: ready_queue "runqueue_enqueue_tail_raw thr" runqueue_dequeue rq_list "rq_inv thr"
    "\<lambda>t. th_priority (thr t)" for thr
  by unfold_locales (auto simp: enqueue_tail_raw_refines dequeue_refines)

section \<open>Properties\<close>

text \<open>
  (C23) The run queue is an implementation of a list of threads sorted by priority.  On
  a well-formed queue (bitmap, counter and lists agree) the head insertion places the
  thread before, the tail insertion after the threads of its priority; the dequeue
  operation returns null exactly on the empty queue and otherwise removes the first
  thread.  All of them keep the queue well formed.
\<close>
theorem runqueue_refines_sorted_list:
  assumes "rq_inv thr rq" "t \<notin> set (rq_list rq)" "th_priority (thr t) < SCHED_PRIO_COUNT"
  shows "rq_inv thr (runqueue_enqueue_raw thr t rq) \<and>
    rq_list (runqueue_enqueue_raw thr t rq) = insort_key (\<lambda>t. th_priority (thr t)) t (rq_list rq) \<and>
    rq_inv thr (runqueue_enqueue_tail_raw thr t rq) \<and>
    rq_list (runqueue_enqueue_tail_raw thr t rq) = insort_tail (\<lambda>t. th_priority (thr t)) t (rq_list rq) \<and>
    sorted (map (\<lambda>t. th_priority (thr t)) (rq_list rq)) \<and>
    (if rq_list rq = [] then runqueue_dequeue rq = Inr (0, rq)
     else \<exists>rq'. runqueue_dequeue rq = Inr (hd (rq_list rq), rq') \<and> rq_inv thr rq' \<and> rq_list rq' = tl (rq_list rq))"
proof -
  have "rq_list rq = [] \<Longrightarrow> runqueue_dequeue rq = Inr (0, rq)"
    using assms(1) by (simp add: runqueue_dequeue_def rq_inv_def)
  then show ?thesis
    using enqueue_raw_refines [OF assms] enqueue_tail_raw_refines [OF assms] dequeue_refines [OF assms(1)]
      rq_inv_sorted [OF assms(1)] by simp
qed

definition thread_example :: thread where
  "thread_example = \<lparr>th_status = THREAD_READY, th_priority = 32, th_base_priority = 32, th_donations = (\<lambda>_. 0),
     th_target_cpu = 0, th_wakeup_ticks = 0, th_ticks = 0, th_pml4 = 0, th_kernel_stack = 0, th_run_tsc = 0,
     th_last_tsc = 0, th_preempts = 0, th_sleep_times = 0, th_exit_code = 0\<rparr>"

theorem runqueue_refines_sorted_list_witness:
  "rq_list (runqueue_enqueue_raw (\<lambda>_. thread_example) 7 runqueue_init) = [7]"
  using runqueue_refines_sorted_list [of "\<lambda>_. thread_example" runqueue_init 7]
  by (simp add: rq_inv_init thread_example_def)

text \<open>
  Threads appended to an empty queue in any order come out sorted by priority,
  first come first served among equal priorities (a stable sort), and leave it empty.
\<close>
theorem runqueue_stable_order:
  assumes "distinct ts" "\<forall>t\<in>set ts. th_priority (thr t) < SCHED_PRIO_COUNT"
  shows "\<exists>rq'. drain (length ts) runqueue_dequeue (fold (runqueue_enqueue_tail_raw thr) ts runqueue_init) =
      Inr (sort_key (\<lambda>t. th_priority (thr t)) ts, rq') \<and> rq_list rq' = []"
  using rqq.enq_drain [OF rq_inv_init assms] by blast

theorem runqueue_stable_order_witness:
  "\<exists>rq'. drain 3 runqueue_dequeue (fold (runqueue_enqueue_tail_raw (\<lambda>t. thread_example\<lparr>th_priority := t mod 2\<rparr>))
      [5, 4, 3] runqueue_init) = Inr ([4, 5, 3], rq') \<and> rq_list rq' = []"
proof -
  let ?thr = "\<lambda>t :: tid. thread_example\<lparr>th_priority := t mod 2\<rparr>"
  have "\<forall>t\<in>set [5, 4, 3]. th_priority (?thr t) < 64" by simp
  moreover have "sort_key (\<lambda>t. th_priority (?thr t)) [5, 4, 3] = [4, 5, 3]" by (simp add: sort_key_def)
  moreover have "length [5, 4, 3 :: tid] = 3" "distinct [5, 4, 3 :: tid]" by simp_all
  ultimately show ?thesis using runqueue_stable_order [of "[5, 4, 3]" ?thr] by metis
qed

end
