(* ===== verification/Sched.thy ===== *)
theory Sched
  imports Runqueue
begin

text \<open>
  The scheduler (\<open>kernel/sched.c\<close>), the preemption counter (\<open>arch/x86_64/cpu.c\<close>), the
  timer tick (\<open>kernel/timer.c\<close>), thread exit (\<open>kernel/thread.c\<close>) and the zombie reaping of
  the idle thread (\<open>kernel/thread_idle.c\<close>), for one CPU \<open>c\<close> of the kernel state of
  \<open>Runqueue\<close>.  The scheduler runs with interrupts disabled; a call of \<open>__schedule\<close> is one
  transition that ends with the switch to the chosen thread.  The register switch itself
  is assembly code; here it is the assignment of \<open>current\<close>.  A thread stays on its run
  queue while it is running, blocked or sleeping, and the scheduler selects by status.
\<close>

section \<open>Choosing the next thread\<close>

abbreviation this_cpu :: "nat \<Rightarrow> kernel \<Rightarrow> cpu_context" where
  "this_cpu c k \<equiv> the (k_cpu k c)"

abbreviation status :: "kernel \<Rightarrow> tid \<Rightarrow> thread_status" where
  "status k t \<equiv> th_status (k_thr k t)"

definition check_need_schedule :: "nat \<Rightarrow> kernel \<Rightarrow> bool" where
  "check_need_schedule c k =
     (case k_cpu k c of None \<Rightarrow> False
      | Some ctx \<Rightarrow>
          if cc_current ctx = 0 \<or> cc_idle ctx = 0 then False
          else if cc_preempt_count ctx \<noteq> 0 then False
          else cc_need_resched ctx)"

text \<open>The test of \<open>pick_next\<close>: ready, or asleep with an expired deadline.\<close>

definition runnable :: "kernel \<Rightarrow> tid \<Rightarrow> bool" where
  "runnable k t \<longleftrightarrow> status k t = THREAD_READY \<or>
     status k t = THREAD_SLEEPING \<and> th_wakeup_ticks (k_thr k t) \<le> k_ticks k"

lemma length_filter_upt: "length (filter P [0..<n]) = card (set (filter P [0..<n]))"
  by (rule distinct_card [symmetric]) simp

lemma clear_bit_measure:
  assumes "bm \<noteq> (0 :: u64)"
  shows "length (filter (bit (bm AND NOT (push_bit (ctzll bm) 1))) [0..<64]) < length (filter (bit bm) [0..<64])"
proof -
  have b: "bit bm (ctzll bm)" using ctzll_bit [OF assms] by simp
  have "set (filter (bit (bm AND NOT (push_bit (ctzll bm) 1))) [0..<64]) \<subset> set (filter (bit bm) [0..<64])"
    using b bit_u64_less [OF b] by auto
  then show ?thesis unfolding length_filter_upt by (intro psubset_card_mono) simp_all
qed

text \<open>The search loop of \<open>pick_next\<close>: per priority in the bitmap, the first thread that can run.\<close>

function pick_loop :: "(tid \<Rightarrow> bool) \<Rightarrow> (nat \<Rightarrow> tid list) \<Rightarrow> u64 \<Rightarrow> (tid \<times> nat) option" where
  "pick_loop R heads bm =
     (if bm = 0 then None
      else let prio = ctzll bm in
        case List.find R (heads prio) of
          Some t \<Rightarrow> Some (t, prio)
        | None \<Rightarrow> pick_loop R heads (bm AND NOT (push_bit prio 1)))"
  by pat_completeness auto

termination
  by (relation "measure (\<lambda>(R, heads, bm). length (filter (bit bm) [0..<64]))")
    (use clear_bit_measure in \<open>auto simp del: push_bit_of_1\<close>)

text \<open>Moving the chosen thread to the end of its priority list.\<close>

definition rq_rotate :: "nat \<Rightarrow> tid \<Rightarrow> runqueue \<Rightarrow> runqueue" where
  "rq_rotate p t rq = rq_mark p (rq_link_tail p t (rq_unmark p (rq_unlink t rq)))"

definition on_rq :: "(runqueue \<Rightarrow> runqueue) \<Rightarrow> cpu_context \<Rightarrow> cpu_context" where
  "on_rq f ctx = ctx\<lparr>cc_runqueue := f (cc_runqueue ctx)\<rparr>"

text \<open>
  The counter is read into an \<open>int\<close>; the model compares the counter itself, which is the
  same below \<open>2 ^ 31\<close> threads.
\<close>

definition pick_next :: "nat \<Rightarrow> kernel \<Rightarrow> tid \<times> kernel" where
  "pick_next c k =
     (let ctx = this_cpu c k; prev = cc_current ctx; rq = cc_runqueue ctx in
      if rq_count rq = 0 then (cc_idle ctx, k)
      else let found = pick_loop (runnable k) (rq_heads rq) (rq_bitmap rq);
               keep = (prev \<noteq> cc_idle ctx \<and> status k prev = THREAD_RUNNING \<and>
                       (case found of None \<Rightarrow> True | Some (t, p) \<Rightarrow> th_priority (k_thr k prev) < p));
               (next, k1) =
                 (if keep then (prev, k)
                  else case found of
                    Some (t, p) \<Rightarrow> (t, if t \<noteq> prev then upd_cpu c (on_rq (rq_rotate p t)) k else k)
                  | None \<Rightarrow> (cc_idle ctx, k));
               k2 = set_status next THREAD_RUNNING k1;
               k3 = (if prev \<noteq> next \<and> status k2 prev = THREAD_RUNNING then set_status prev THREAD_READY k2 else k2)
           in (next, upd_thr prev (\<lambda>d. d\<lparr>th_ticks := th_ticks d + 1\<rparr>) k3))"

text \<open>
  Moving a thread that has exited to the zombie queue; the result is the idle thread
  when there is something to reap (\<open>ZOMBIE_MAX\<close> is 0), else null.
\<close>

definition sched_idle_zombie :: "nat \<Rightarrow> kernel \<Rightarrow> tid \<times> kernel" where
  "sched_idle_zombie c k =
     (let ctx = this_cpu c k; prev = cc_current ctx; prio = th_priority (k_thr k prev);
          k1 = (if status k prev = THREAD_ZOMBIE
                then upd_cpu c (\<lambda>x. x\<lparr>
                       cc_runqueue := rq_add_count (- 1) (rq_unmark prio (rq_unlink prev (cc_runqueue x))),
                       cc_zombiequeue := rq_add_count 1 (rq_mark prio (rq_link prio prev (cc_zombiequeue x)))\<rparr>) k
                else k)
      in (if rq_count (cc_zombiequeue (this_cpu c k1)) \<le> 0 then 0 else cc_idle ctx, k1))"

section \<open>Switching\<close>

text \<open>
  \<open>__switch_mm\<close> (\<open>SWITCH_MM\<close> is 1).  Every write of CR3 is paired with one of
  \<open>active_pml4_phys\<close> with the same value, so the model keeps the latter only.
\<close>

definition switch_mm :: "nat \<Rightarrow> tid \<Rightarrow> tid \<Rightarrow> kernel \<Rightarrow> kernel" where
  "switch_mm c prev next k =
     (if th_pml4 (k_thr k next) \<noteq> 0
      then if cc_active_pml4 (this_cpu c k) \<noteq> th_pml4 (k_thr k next)
           then upd_cpu c (\<lambda>x. x\<lparr>cc_active_pml4 := th_pml4 (k_thr k next)\<rparr>) k else k
      else if status k prev = THREAD_ZOMBIE
           then if cc_active_pml4 (this_cpu c k) \<noteq> k_root k
                then upd_cpu c (\<lambda>x. x\<lparr>cc_active_pml4 := k_root k\<rparr>) k else k
           else k)"

text \<open>The part of \<open>__schedule\<close> after \<open>next\<close> is known; \<open>now\<close> is the time-stamp counter.\<close>

definition commit_switch :: "nat \<Rightarrow> u64 \<Rightarrow> tid \<Rightarrow> tid \<Rightarrow> kernel \<Rightarrow> kernel" where
  "commit_switch c now prev next k =
     (let k1 = k\<lparr>k_rcu := rcu_note_context_switch c prev (k_rcu k)\<rparr>;
          k2 = upd_cpu c (\<lambda>x. x\<lparr>cc_rsp0 := th_kernel_stack (k_thr k1 next)\<rparr>) k1;
          k3 = switch_mm c prev next k2;
          k4 = upd_thr prev (\<lambda>d. d\<lparr>th_run_tsc := th_run_tsc d + (now - th_last_tsc d)\<rparr>) k3;
          k5 = upd_cpu c (\<lambda>x. x\<lparr>cc_current := next\<rparr>) k4
      in upd_thr next (\<lambda>d. d\<lparr>th_last_tsc := now\<rparr>) k5)"

definition schedule_common :: "bool \<Rightarrow> nat \<Rightarrow> u64 \<Rightarrow> kernel \<Rightarrow> kernel res" where
  "schedule_common preemptive c now k =
     (if cc_preempt_count (this_cpu c k) \<noteq> 0
      then if preemptive then Inr k else Inl (Panic ''Scheduling while atomic!'')
      else let k1 = upd_cpu c (\<lambda>x. x\<lparr>cc_need_resched := False\<rparr>) k;
               prev = cc_current (this_cpu c k1);
               (z, k2) = sched_idle_zombie c k1;
               (next, k3) = (if z = 0 then pick_next c k2 else (z, k2))
           in if next = prev then Inr k3 else Inr (commit_switch c now prev next k3))"

definition schedule :: "nat \<Rightarrow> u64 \<Rightarrow> kernel \<Rightarrow> kernel res" where
  "schedule c now k = schedule_common False c now k"

definition schedule_irq :: "nat \<Rightarrow> u64 \<Rightarrow> kernel \<Rightarrow> kernel res" where
  "schedule_irq c now k = schedule_common True c now k"

definition schedule_preempt :: "nat \<Rightarrow> u64 \<Rightarrow> kernel \<Rightarrow> kernel res" where
  "schedule_preempt c now k =
     (let k1 = upd_cpu c (\<lambda>x. x\<lparr>cc_preempts := cc_preempts x + 1\<rparr>) k;
          k2 = upd_thr (cc_current (this_cpu c k1)) (\<lambda>d. d\<lparr>th_preempts := th_preempts d + 1\<rparr>) k1
      in schedule_common True c now k2)"

text \<open>
  Going to sleep for \<open>t\<close> ticks.  The result is the state after the switch; \<open>-1\<close> is the
  error return, which does not switch.
\<close>

definition schedule_timeout :: "nat \<Rightarrow> u64 \<Rightarrow> u64 \<Rightarrow> kernel \<Rightarrow> (int option \<times> kernel) res" where
  "schedule_timeout c now t k =
     (let cur = cc_current (this_cpu c k) in
      if t = 0 \<or> status k cur \<noteq> THREAD_RUNNING then Inr (Some (- 1), k)
      else let k1 = set_status cur THREAD_SLEEPING k;
               k2 = upd_thr cur (\<lambda>d. d\<lparr>th_wakeup_ticks := k_ticks k1 + t\<rparr>) k1
           in bind_res (schedule_common False c now k2) (\<lambda>k3. Inr (None, k3)))"

section \<open>Preemption control, timer, exit, reaping\<close>

text \<open>
  \<open>thread_exit\<close> opens interrupts again just before it calls \<open>schedule\<close>; an interrupt taken
  there schedules away from the zombie by the same transition.  The self-test and
  probe calls of the timer handler only report.
\<close>

definition preempt_disable :: "nat \<Rightarrow> kernel \<Rightarrow> kernel res" where
  "preempt_disable c k =
     (case k_cpu k c of None \<Rightarrow> Inl (Panic ''preempt_disable requires a local CPU context'')
      | Some _ \<Rightarrow> Inr (upd_cpu c (\<lambda>x. x\<lparr>cc_preempt_count := cc_preempt_count x + 1\<rparr>) k))"

definition preempt_enable :: "nat \<Rightarrow> u64 \<Rightarrow> kernel \<Rightarrow> kernel res" where
  "preempt_enable c now k =
     (case k_cpu k c of None \<Rightarrow> Inl (Panic ''preempt_enable requires a local CPU context'')
      | Some ctx \<Rightarrow>
          if cc_preempt_count ctx = 0 then Inl (Panic ''preempt_count underflow! Potential double unlock.'')
          else let k1 = upd_cpu c (\<lambda>x. x\<lparr>cc_preempt_count := cc_preempt_count x - 1\<rparr>) k
               in if cc_preempt_count (this_cpu c k1) = 0 \<and> cc_need_resched (this_cpu c k1)
                  then schedule_preempt c now k1 else Inr k1)"

definition timer_handler :: "nat \<Rightarrow> kernel \<Rightarrow> kernel" where
  "timer_handler c k =
     (let k1 = (if c = 0 then k\<lparr>k_timer_ticks := k_timer_ticks k + 1, k_ticks := k_ticks k + 1\<rparr> else k);
          k2 = (if k_timer_ticks k1 mod 10 = 0 then upd_cpu c (\<lambda>x. x\<lparr>cc_need_resched := True\<rparr>) k1 else k1);
          cur = cc_current (this_cpu c k2)
      in k2\<lparr>k_rcu := rcu_check_quiescent_state c (if cur = 0 then None else Some cur) (k_rcu k2)\<rparr>)"

definition thread_exit :: "nat \<Rightarrow> u64 \<Rightarrow> int \<Rightarrow> kernel \<Rightarrow> kernel res" where
  "thread_exit c now code k =
     (let t = cc_current (this_cpu c k) in
      if cc_preempt_count (this_cpu c k) \<noteq> 0 then Inl (Panic ''exit with preempt_count'')
      else let k1 = set_status t THREAD_ZOMBIE k;
               k2 = upd_thr t (\<lambda>d. d\<lparr>th_exit_code := code\<rparr>) k1
           in schedule c now k2)"

text \<open>
  The reaping loop of \<open>idle_task_function\<close>: the threads passed to \<open>thread_destroy\<close>, in
  order.
\<close>

primrec reap_loop :: "nat \<Rightarrow> nat \<Rightarrow> kernel \<Rightarrow> (tid list \<times> kernel) res" where
  "reap_loop c 0 k = Inr ([], k)"
| "reap_loop c (Suc n) k =
     bind_res (cpu_dequeue_zombie_tail (int c) k) (\<lambda>(t, k1).
       if t = 0 then Inr ([], k1)
       else bind_res (reap_loop c n k1) (\<lambda>(ts, k2). Inr (t # ts, k2)))"

definition reap_zombies :: "nat \<Rightarrow> kernel \<Rightarrow> (tid list \<times> kernel) res" where
  "reap_zombies c k = reap_loop c (nat (rq_count (cc_zombiequeue (this_cpu c k)))) k"

text \<open>One round of the idle loop; \<open>None\<close> when the CPU halts until the next interrupt.\<close>

definition idle_round :: "nat \<Rightarrow> u64 \<Rightarrow> kernel \<Rightarrow> (tid list \<times> kernel option) res" where
  "idle_round c now k =
     bind_res (reap_zombies c k) (\<lambda>(ts, k1).
       if rq_count (cc_runqueue (this_cpu c k1)) > 0 \<or> check_need_schedule c k1
       then bind_res (schedule c now k1) (\<lambda>k2. Inr (ts, Some k2))
       else Inr (ts, None))"

section \<open>The search loop\<close>

declare pick_loop.simps [simp del]

lemma filter_bit_step:
  assumes "bm \<noteq> (0 :: u64)"
  shows "filter (bit bm) [0..<64] = ctzll bm # filter (bit (bm AND NOT (2 ^ ctzll bm))) [0..<64]"
proof -
  let ?p = "ctzll bm"
  have b: "bit bm ?p" "\<forall>i<?p. \<not> bit bm i" using ctzll_bit [OF assms] by auto
  have p: "?p < 64" using b(1) by (rule bit_u64_less)
  have "filter (bit (bm AND NOT (2 ^ ?p))) [Suc ?p..<64] = filter (bit bm) [Suc ?p..<64]"
    by (rule filter_cong) auto
  moreover have "filter (bit bm) [0..<?p] = []" "filter (bit (bm AND NOT (2 ^ ?p))) [0..<?p] = []"
    using b(2) by (auto simp: filter_empty_conv)
  ultimately show ?thesis unfolding upt_split [OF p] using b(1) by simp
qed

text \<open>The loop finds the first thread in the order of the lists that the bitmap names.\<close>

lemma pick_loop_find:
  "pick_loop R heads bm =
   List.find (\<lambda>(t, p). R t) (concat (map (\<lambda>p. map (\<lambda>t. (t, p)) (heads p)) (filter (bit bm) [0..<64])))"
proof (induction R heads bm rule: pick_loop.induct)
  case (1 R heads bm)
  have f: "List.find (\<lambda>(t, p). R t) (map (\<lambda>t. (t, p)) xs) = map_option (\<lambda>t. (t, p)) (List.find R xs)" for p xs
    by (induction xs) auto
  show ?case
  proof (cases "bm = 0")
    case False
    let ?p = "ctzll bm"
    show ?thesis
    proof (cases "List.find R (heads ?p)")
      case None
      then show ?thesis using 1 [OF False refl None] False
        unfolding pick_loop.simps [of R heads bm] filter_bit_step [OF False] by (simp add: find_append f del: bit_unmark)
    next
      case (Some t)
      then show ?thesis using False
        unfolding pick_loop.simps [of R heads bm] filter_bit_step [OF False] by (simp add: find_append f)
    qed
  qed (simp add: pick_loop.simps)
qed

lemma concat_filter_nonempty: "concat (map f (filter (\<lambda>x. f x \<noteq> []) xs)) = concat (map f xs)"
  by (induction xs) auto

lemma pick_loop_rq:
  assumes "rq_inv thr rq"
  shows "pick_loop R (rq_heads rq) (rq_bitmap rq) =
    map_option (\<lambda>t. (t, th_priority (thr t))) (List.find R (rq_list rq))"
proof -
  have m: "map (\<lambda>t. (t, p)) (rq_heads rq p) = map (\<lambda>t. (t, th_priority (thr t))) (rq_heads rq p)" for p
    using rq_inv_prio [OF assms] by simp
  have b: "bit (rq_bitmap rq) = (\<lambda>p. map (\<lambda>t. (t, th_priority (thr t))) (rq_heads rq p) \<noteq> [])"
    using assms by (auto simp: rq_inv_def)
  have f: "List.find (\<lambda>(t, p). R t) (map (\<lambda>t. (t, g t)) xs) = map_option (\<lambda>t. (t, g t)) (List.find R xs)" for g :: "tid \<Rightarrow> nat" and xs
    by (induction xs) auto
  have "concat (map (\<lambda>p. map h (rq_heads rq p)) ps) = map h (concat (map (rq_heads rq) ps))" for h :: "tid \<Rightarrow> tid \<times> nat" and ps
    by (induction ps) auto
  then show ?thesis
    unfolding pick_loop_find m b concat_filter_nonempty rq_list_def by (simp only: f)
qed

lemma rq_rotate_inv:
  assumes inv: "rq_inv thr rq" and t: "t \<in> set (rq_list rq)"
  defines "rq' \<equiv> rq_rotate (th_priority (thr t)) t rq"
  shows "rq_inv thr rq'" "rq_list rq' = insort_tail (\<lambda>t. th_priority (thr t)) t (remove1 t (rq_list rq))"
proof -
  let ?p = "th_priority (thr t)"
  have h: "t \<in> set (rq_heads rq ?p)" using t set_rq_list [OF inv] by simp
  note tk = rq_take_inv [OF inv h]
  have p: "?p < 64" using rq_inv_head [OF inv, of ?p] h by fastforce
  have n: "t \<notin> set (rq_list (rq_take ?p t rq))" using tk(2) rq_inv_distinct [OF inv] by simp
  have "rq' = runqueue_enqueue_tail_raw thr t (rq_take ?p t rq)"
    by (simp add: rq'_def rq_rotate_def runqueue_enqueue_tail_raw_def rq_take_def Let_def rq_defs)
  then show "rq_inv thr rq'" "rq_list rq' = insort_tail (\<lambda>t. th_priority (thr t)) t (remove1 t (rq_list rq))"
    using enqueue_tail_raw_refines [OF tk(1) n p] tk(2) by simp_all
qed

section \<open>Invariant of a CPU\<close>

text \<open>
  The two queues are well formed and disjoint; a thread on the run queue that is running
  or has exited is the current one; zombies exist only while the idle thread runs; the
  idle thread is on no queue and never blocks.
\<close>

definition cpu_ok :: "(tid \<Rightarrow> thread) \<Rightarrow> cpu_context \<Rightarrow> bool" where
  "cpu_ok thr x \<longleftrightarrow>
     rq_inv thr (cc_runqueue x) \<and> rq_inv thr (cc_zombiequeue x) \<and>
     set (rq_list (cc_runqueue x)) \<inter> set (rq_list (cc_zombiequeue x)) = {} \<and>
     0 \<notin> set (rq_list (cc_runqueue x)) \<union> set (rq_list (cc_zombiequeue x)) \<and>
     cc_idle x \<notin> set (rq_list (cc_runqueue x)) \<union> set (rq_list (cc_zombiequeue x)) \<and>
     cc_idle x \<noteq> 0 \<and>
     {t \<in> set (rq_list (cc_runqueue x)). th_status (thr t) \<in> {THREAD_RUNNING, THREAD_ZOMBIE}} \<subseteq> {cc_current x} \<and>
     (th_status (thr (cc_current x)) = THREAD_ZOMBIE \<longrightarrow> cc_current x \<in> set (rq_list (cc_runqueue x))) \<and>
     (rq_list (cc_zombiequeue x) = [] \<or> cc_current x = cc_idle x) \<and>
     set (rq_list (cc_zombiequeue x)) \<subseteq> {t. th_status (thr t) = THREAD_ZOMBIE} \<and>
     th_status (thr (cc_idle x)) \<in> {THREAD_READY, THREAD_RUNNING}"

lemma cpu_okD:
  assumes "cpu_ok thr x"
  shows "rq_inv thr (cc_runqueue x)" "rq_inv thr (cc_zombiequeue x)"
    "cc_idle x \<notin> set (rq_list (cc_runqueue x))" "cc_idle x \<notin> set (rq_list (cc_zombiequeue x))" "cc_idle x \<noteq> 0"
    "0 \<notin> set (rq_list (cc_runqueue x))" "0 \<notin> set (rq_list (cc_zombiequeue x))"
    "th_status (thr (cc_current x)) = THREAD_ZOMBIE \<Longrightarrow> cc_current x \<in> set (rq_list (cc_runqueue x))"
    "th_status (thr (cc_current x)) = THREAD_ZOMBIE \<Longrightarrow> cc_current x \<noteq> cc_idle x"
    "rq_list (cc_zombiequeue x) \<noteq> [] \<Longrightarrow> cc_current x = cc_idle x"
    "th_status (thr (cc_idle x)) \<in> {THREAD_READY, THREAD_RUNNING}"
proof -
  show "cc_idle x \<notin> set (rq_list (cc_runqueue x))" using assms by (simp add: cpu_ok_def)
  moreover show "cc_current x \<in> set (rq_list (cc_runqueue x))" if "th_status (thr (cc_current x)) = THREAD_ZOMBIE"
    using assms that by (simp add: cpu_ok_def)
  ultimately show "cc_current x \<noteq> cc_idle x" if "th_status (thr (cc_current x)) = THREAD_ZOMBIE"
    using that by metis
qed (use assms in \<open>simp_all add: cpu_ok_def\<close>)

definition sched_inv :: "nat \<Rightarrow> kernel \<Rightarrow> bool" where
  "sched_inv c k = (case k_cpu k c of None \<Rightarrow> False | Some x \<Rightarrow> cpu_ok (k_thr k) x)"

text \<open>The specification of the choice: priority order over the whole queue.\<close>

definition sched_choice :: "kernel \<Rightarrow> cpu_context \<Rightarrow> tid" where
  "sched_choice k x =
     (let prev = cc_current x in
      if rq_list (cc_runqueue x) = [] then cc_idle x
      else case List.find (runnable k) (rq_list (cc_runqueue x)) of
        None \<Rightarrow> if prev \<noteq> cc_idle x \<and> status k prev = THREAD_RUNNING then prev else cc_idle x
      | Some t \<Rightarrow> if prev \<noteq> cc_idle x \<and> status k prev = THREAD_RUNNING \<and>
                     th_priority (k_thr k prev) < th_priority (k_thr k t) then prev else t)"

text \<open>The status of every thread after the choice of \<open>next\<close>.\<close>

definition picked_status :: "kernel \<Rightarrow> cpu_context \<Rightarrow> tid \<Rightarrow> tid \<Rightarrow> thread_status" where
  "picked_status k x next t =
     (if rq_list (cc_runqueue x) = [] then status k t
      else if t = next then THREAD_RUNNING
      else if t = cc_current x \<and> status k t = THREAD_RUNNING then THREAD_READY
      else status k t)"

lemma upd_sel [simp]:
  "k_cpu (upd_thr t f k) = k_cpu k" "k_rcu (upd_thr t f k) = k_rcu k" "k_ticks (upd_thr t f k) = k_ticks k"
  "k_root (upd_thr t f k) = k_root k" "k_thr (upd_cpu c g k) = k_thr k" "k_rcu (upd_cpu c g k) = k_rcu k"
  "k_ticks (upd_cpu c g k) = k_ticks k" "k_root (upd_cpu c g k) = k_root k"
  "k_thr (upd_thr t f k) = (k_thr k)(t := f (k_thr k t))"
  "k_cpu (upd_cpu c g k) = (k_cpu k)(c := map_option g (k_cpu k c))"
  by (simp_all add: upd_thr_def upd_cpu_def)

lemma runnable_not_running: "runnable k t \<Longrightarrow> status k t \<noteq> THREAD_RUNNING \<and> status k t \<noteq> THREAD_ZOMBIE"
  by (auto simp: runnable_def)

lemma find_sorted_least:
  assumes "sorted (map f xs)" "List.find P xs = Some t" "u \<in> set xs" "P u"
  shows "f t \<le> f u"
  using assms by (induction xs) (auto split: if_splits)

section \<open>Correctness of the choice\<close>

text \<open>What \<open>pick_next\<close> computes on a CPU in a good state with nothing to reap.\<close>

lemma pick_next_empty:
  assumes "k_cpu k c = Some x" "cpu_ok (k_thr k) x" "rq_list (cc_runqueue x) = []"
  shows "pick_next c k = (cc_idle x, k)"
  using assms by (simp add: pick_next_def Let_def cpu_ok_def rq_inv_def)

lemma sched_choice_cases:
  assumes "cpu_ok (k_thr k) x" "rq_list (cc_runqueue x) \<noteq> []"
  obtains (Keep) "sched_choice k x = cc_current x" "cc_current x \<noteq> cc_idle x" "status k (cc_current x) = THREAD_RUNNING"
      "\<forall>t\<in>set (rq_list (cc_runqueue x)). runnable k t \<longrightarrow> th_priority (k_thr k (cc_current x)) < th_priority (k_thr k t)"
    | (First) t where "sched_choice k x = t" "List.find (runnable k) (rq_list (cc_runqueue x)) = Some t"
      "t \<in> set (rq_list (cc_runqueue x))" "runnable k t"
      "\<forall>u\<in>set (rq_list (cc_runqueue x)). runnable k u \<longrightarrow> th_priority (k_thr k t) \<le> th_priority (k_thr k u)"
    | (Idle) "sched_choice k x = cc_idle x" "List.find (runnable k) (rq_list (cc_runqueue x)) = None"
      "cc_current x = cc_idle x \<or> status k (cc_current x) \<noteq> THREAD_RUNNING"
proof (cases "List.find (runnable k) (rq_list (cc_runqueue x))")
  case None
  then have nr: "\<forall>t\<in>set (rq_list (cc_runqueue x)). \<not> runnable k t" by (auto simp: find_None_iff)
  show ?thesis
  proof (cases "cc_current x \<noteq> cc_idle x \<and> status k (cc_current x) = THREAD_RUNNING")
    case True
    then show ?thesis using None nr by (intro Keep) (auto simp: sched_choice_def assms(2))
  next
    case False
    then show ?thesis using None by (intro Idle) (auto simp: sched_choice_def assms(2))
  qed
next
  case (Some t)
  have srt: "sorted (map (\<lambda>t. th_priority (k_thr k t)) (rq_list (cc_runqueue x)))"
    using assms(1) rq_inv_sorted by (auto simp: cpu_ok_def)
  have min: "\<forall>u\<in>set (rq_list (cc_runqueue x)). runnable k u \<longrightarrow> th_priority (k_thr k t) \<le> th_priority (k_thr k u)"
    using find_sorted_least [OF srt Some] by blast
  have t: "t \<in> set (rq_list (cc_runqueue x))" "runnable k t" using Some by (auto simp: find_Some_iff)
  show ?thesis
  proof (cases "cc_current x \<noteq> cc_idle x \<and> status k (cc_current x) = THREAD_RUNNING \<and>
      th_priority (k_thr k (cc_current x)) < th_priority (k_thr k t)")
    case True
    then show ?thesis using Some min by (intro Keep) (auto simp: sched_choice_def assms(2) intro: less_le_trans)
  next
    case False
    then show ?thesis using Some min t by (intro First [of t]) (auto simp: sched_choice_def assms(2) Let_def)
  qed
qed

text \<open>
  The effect of \<open>pick_next\<close>: the thread of the specification; the queue keeps its threads
  and stays well formed; statuses change as \<open>picked_status\<close> says; nothing else that the
  scheduler depends on changes.
\<close>

definition pick_post :: "nat \<Rightarrow> kernel \<Rightarrow> cpu_context \<Rightarrow> tid \<Rightarrow> kernel \<Rightarrow> runqueue \<Rightarrow> bool" where
  "pick_post c k x next k' rq' \<longleftrightarrow>
     k_cpu k' = (k_cpu k)(c := Some (x\<lparr>cc_runqueue := rq'\<rparr>)) \<and> rq_inv (k_thr k') rq' \<and>
     rq_list rq' = (if next \<in> set (rq_list (cc_runqueue x)) \<and> next \<noteq> cc_current x
       then insort_tail (\<lambda>t. th_priority (k_thr k t)) next (remove1 next (rq_list (cc_runqueue x)))
       else rq_list (cc_runqueue x)) \<and>
     (\<forall>t. status k' t = picked_status k x next t) \<and>
     (\<forall>t. th_priority (k_thr k' t) = th_priority (k_thr k t)) \<and>
     (\<forall>t. th_pml4 (k_thr k' t) = th_pml4 (k_thr k t)) \<and>
     (\<forall>t. th_wakeup_ticks (k_thr k' t) = th_wakeup_ticks (k_thr k t)) \<and>
     k_rcu k' = k_rcu k \<and> k_ticks k' = k_ticks k \<and> k_root k' = k_root k"

lemma rq_inv_prio_cong: "rq_inv thr rq \<Longrightarrow> (\<And>t. th_priority (thr' t) = th_priority (thr t)) \<Longrightarrow> rq_inv thr' rq"
  by (rule rq_inv_cong) auto

lemma pick_next_found:
  assumes "k_cpu k c = Some x" "cpu_ok (k_thr k) x" "rq_list (cc_runqueue x) \<noteq> []"
  shows "pick_next c k =
    (let prev = cc_current x; next = sched_choice k x;
         k1 = (if next \<in> set (rq_list (cc_runqueue x)) \<and> next \<noteq> prev
               then upd_cpu c (on_rq (rq_rotate (th_priority (k_thr k next)) next)) k else k);
         k2 = set_status next THREAD_RUNNING k1;
         k3 = (if prev \<noteq> next \<and> status k prev = THREAD_RUNNING then set_status prev THREAD_READY k2 else k2)
     in (next, upd_thr prev (\<lambda>d. d\<lparr>th_ticks := th_ticks d + 1\<rparr>) k3))"
proof -
  have inv: "rq_inv (k_thr k) (cc_runqueue x)" and idle: "cc_idle x \<notin> set (rq_list (cc_runqueue x))"
    using assms(2) by (auto simp: cpu_ok_def)
  have n: "rq_count (cc_runqueue x) \<noteq> 0" using inv assms(3) by (simp add: rq_inv_def)
  note pl = pick_loop_rq [OF inv, of "runnable k"]
  show ?thesis
  proof (cases "List.find (runnable k) (rq_list (cc_runqueue x))")
    case None
    then show ?thesis using assms(1,3) n idle
      by (simp add: pick_next_def pl sched_choice_def Let_def set_status_def)
  next
    case (Some t)
    then have "t \<in> set (rq_list (cc_runqueue x))" by (auto simp: find_Some_iff)
    then show ?thesis using Some assms(1,3) n
      by (simp add: pick_next_def pl sched_choice_def Let_def set_status_def)
  qed
qed

lemma pick_next_spec:
  assumes "k_cpu k c = Some x" "cpu_ok (k_thr k) x"
  shows "\<exists>k' rq'. pick_next c k = (sched_choice k x, k') \<and> pick_post c k x (sched_choice k x) k' rq'"
proof (cases "rq_list (cc_runqueue x) = []")
  case True
  have "pick_post c k x (sched_choice k x) k (cc_runqueue x)"
    using assms True by (auto simp: pick_post_def picked_status_def cpu_ok_def fun_upd_idem)
  moreover have "pick_next c k = (sched_choice k x, k)"
    using pick_next_empty [OF assms True] True by (simp add: sched_choice_def)
  ultimately show ?thesis by blast
next
  case False
  let ?n = "sched_choice k x" and ?rq = "cc_runqueue x"
  let ?rot = "?n \<in> set (rq_list ?rq) \<and> ?n \<noteq> cc_current x"
  let ?rq' = "if ?rot then rq_rotate (th_priority (k_thr k ?n)) ?n ?rq else ?rq"
  have inv: "rq_inv (k_thr k) ?rq" using assms(2) by (simp add: cpu_ok_def)
  have r: "rq_inv (k_thr k) ?rq'" using rq_rotate_inv(1) [OF inv, of ?n] inv by simp
  have l: "rq_list ?rq' = (if ?rot then insort_tail (\<lambda>t. th_priority (k_thr k t)) ?n (remove1 ?n (rq_list ?rq)) else rq_list ?rq)"
    using rq_rotate_inv(2) [OF inv, of ?n] by simp
  obtain k' where k': "pick_next c k = (?n, k')" by (auto simp: pick_next_found [OF assms False] Let_def)
  have thr: "th_priority (k_thr k' t) = th_priority (k_thr k t)" "th_pml4 (k_thr k' t) = th_pml4 (k_thr k t)"
    "th_wakeup_ticks (k_thr k' t) = th_wakeup_ticks (k_thr k t)" "status k' t = picked_status k x ?n t" for t
    using k' by (auto simp: pick_next_found [OF assms False] Let_def set_status_def picked_status_def False)
  have misc: "k_rcu k' = k_rcu k" "k_ticks k' = k_ticks k" "k_root k' = k_root k"
    "k_cpu k' = (k_cpu k)(c := Some (x\<lparr>cc_runqueue := ?rq'\<rparr>))"
    using k' assms(1) by (auto simp: pick_next_found [OF assms False] Let_def set_status_def on_rq_def fun_upd_idem)
  have "pick_post c k x ?n k' ?rq'"
    unfolding pick_post_def using thr misc l rq_inv_prio_cong [OF r thr(1)] by simp
  with k' show ?thesis by blast
qed

section \<open>Correctness of \<open>__schedule\<close>\<close>

lemma cpu_ok_cong:
  assumes "cpu_ok thr x" "\<And>t. th_status (thr' t) = th_status (thr t)" "\<And>t. th_priority (thr' t) = th_priority (thr t)"
    "cc_current y = cc_current x" "cc_idle y = cc_idle x" "cc_runqueue y = cc_runqueue x" "cc_zombiequeue y = cc_zombiequeue x"
  shows "cpu_ok thr' y"
  using assms rq_inv_prio_cong [of thr _ thr'] by (simp add: cpu_ok_def)

text \<open>The address space after a switch.\<close>

definition mm_after :: "kernel \<Rightarrow> cpu_context \<Rightarrow> tid \<Rightarrow> tid \<Rightarrow> u64" where
  "mm_after k x prev next =
     (if th_pml4 (k_thr k next) \<noteq> 0 then th_pml4 (k_thr k next)
      else if status k prev = THREAD_ZOMBIE then k_root k else cc_active_pml4 x)"

lemma commit_switch_cpu:
  assumes "k_cpu k c = Some x"
  shows "k_cpu (commit_switch c now prev next k) = (k_cpu k)(c := Some (x\<lparr>cc_current := next,
    cc_rsp0 := th_kernel_stack (k_thr k next), cc_active_pml4 := mm_after k x prev next\<rparr>))"
  using assms by (auto simp: commit_switch_def switch_mm_def mm_after_def Let_def fun_eq_iff)

lemma commit_switch_thr [simp]:
  "status (commit_switch c now prev next k) t = status k t"
  "th_priority (k_thr (commit_switch c now prev next k) t) = th_priority (k_thr k t)"
  "th_wakeup_ticks (k_thr (commit_switch c now prev next k) t) = th_wakeup_ticks (k_thr k t)"
  "k_ticks (commit_switch c now prev next k) = k_ticks k"
  by (auto simp: commit_switch_def switch_mm_def Let_def)

lemma pick_cpu_ok:
  assumes ok: "cpu_ok (k_thr k) x" and z: "rq_list (cc_zombiequeue x) = []" "status k (cc_current x) \<noteq> THREAD_ZOMBIE"
    and post: "pick_post c k x (sched_choice k x) k' rq'"
  shows "cpu_ok (k_thr k') (x\<lparr>cc_runqueue := rq', cc_current := sched_choice k x\<rparr>)"
proof -
  let ?n = "sched_choice k x" and ?rq = "cc_runqueue x"
  have set: "set (rq_list rq') = set (rq_list ?rq)"
    using post ok rq_inv_distinct [of "k_thr k" ?rq]
    by (auto simp: pick_post_def set_insort_tail cpu_ok_def split: if_splits)
  have zi: "rq_inv (k_thr k') (cc_zombiequeue x)"
    using ok post by (auto simp: cpu_ok_def pick_post_def intro: rq_inv_prio_cong)
  have n: "?n \<in> set (rq_list ?rq) \<or> ?n = cc_idle x \<or> ?n = cc_current x" "status k' ?n \<noteq> THREAD_ZOMBIE"
  proof -
    show "?n \<in> set (rq_list ?rq) \<or> ?n = cc_idle x \<or> ?n = cc_current x"
      by (auto simp: sched_choice_def Let_def find_Some_iff split: option.splits)
    show "status k' ?n \<noteq> THREAD_ZOMBIE"
      using post ok by (cases "rq_list ?rq = []") (auto simp: pick_post_def picked_status_def sched_choice_def cpu_ok_def)
  qed
  have run: "{t \<in> set (rq_list ?rq). status k' t \<in> {THREAD_RUNNING, THREAD_ZOMBIE}} \<subseteq> {?n}"
  proof -
    have "status k' t \<notin> {THREAD_RUNNING, THREAD_ZOMBIE}" if t: "t \<in> set (rq_list ?rq)" "t \<noteq> ?n" for t
      using t z(2) ok post by (cases "t = cc_current x") (auto simp: pick_post_def picked_status_def cpu_ok_def)
    then show ?thesis by blast
  qed
  have "status k' (cc_idle x) \<in> {THREAD_READY, THREAD_RUNNING}"
    using post ok by (auto simp: pick_post_def picked_status_def cpu_ok_def)
  then show ?thesis using ok post set zi n run z unfolding cpu_ok_def by (simp add: pick_post_def)
qed

text \<open>The thread that runs after a call: the idle thread if there is a zombie, else the choice.\<close>

definition sched_next :: "kernel \<Rightarrow> cpu_context \<Rightarrow> tid" where
  "sched_next k x =
     (if status k (cc_current x) = THREAD_ZOMBIE \<or> rq_list (cc_zombiequeue x) \<noteq> [] then cc_idle x
      else sched_choice k x)"

text \<open>A thread that has exited goes to the zombie queue, which keeps the CPU well formed.\<close>

definition bury :: "kernel \<Rightarrow> cpu_context \<Rightarrow> cpu_context" where
  "bury k x =
     (let prev = cc_current x; prio = th_priority (k_thr k prev)
      in x\<lparr>cc_runqueue := rq_take prio prev (cc_runqueue x),
           cc_zombiequeue := runqueue_enqueue_raw (k_thr k) prev (cc_zombiequeue x)\<rparr>)"

lemma bury_ok:
  assumes ok: "cpu_ok (k_thr k) x" and z: "status k (cc_current x) = THREAD_ZOMBIE"
  defines "t \<equiv> cc_current x"
  shows "cpu_ok (k_thr k) ((bury k x)\<lparr>cc_current := cc_idle x\<rparr>)" "rq_list (cc_runqueue (bury k x)) = remove1 t (rq_list (cc_runqueue x))"
    "rq_list (cc_zombiequeue (bury k x)) = [t]" "rq_count (cc_zombiequeue (bury k x)) = 1"
proof -
  have inv: "rq_inv (k_thr k) (cc_runqueue x)" "rq_inv (k_thr k) (cc_zombiequeue x)" and m: "t \<in> set (rq_list (cc_runqueue x))"
    and i: "t \<noteq> cc_idle x" and dj: "t \<notin> set (rq_list (cc_zombiequeue x))"
    using ok z by (auto simp: cpu_ok_def t_def)
  have zq: "rq_list (cc_zombiequeue x) = []" using ok i by (auto simp: cpu_ok_def t_def)
  have h: "t \<in> set (rq_heads (cc_runqueue x) (th_priority (k_thr k t)))" using m set_rq_list [OF inv(1)] by simp
  have p: "th_priority (k_thr k t) < 64" using rq_inv_head [OF inv(1), of "th_priority (k_thr k t)"] h by fastforce
  note tk = rq_take_inv [OF inv(1) h] and en = enqueue_raw_refines [OF inv(2) dj p]
  show rq: "rq_list (cc_runqueue (bury k x)) = remove1 t (rq_list (cc_runqueue x))"
    using tk(2) by (simp add: bury_def Let_def t_def)
  show zl: "rq_list (cc_zombiequeue (bury k x)) = [t]" using en(2) zq by (simp add: bury_def Let_def t_def)
  show "rq_count (cc_zombiequeue (bury k x)) = 1"
    using en(1) en(2) zq by (simp add: bury_def Let_def t_def rq_inv_def)
  have d: "set (remove1 t (rq_list (cc_runqueue x))) = set (rq_list (cc_runqueue x)) - {t}"
    using rq_inv_distinct [OF inv(1)] by (rule set_remove1_eq)
  have inv': "rq_inv (k_thr k) (cc_runqueue (bury k x))" "rq_inv (k_thr k) (cc_zombiequeue (bury k x))"
    using tk(1) en(1) by (simp_all add: bury_def Let_def t_def)
  have sel: "cc_idle (bury k x) = cc_idle x" by (simp add: bury_def Let_def)
  have run: "{u \<in> set (rq_list (cc_runqueue x)). status k u \<in> {THREAD_RUNNING, THREAD_ZOMBIE}} \<subseteq> {t}"
    using ok by (simp only: cpu_ok_def t_def)
  then have run': "{u \<in> set (rq_list (cc_runqueue x)) - {t}. status k u \<in> {THREAD_RUNNING, THREAD_ZOMBIE}} \<subseteq> {cc_idle x}"
    by blast
  have idle: "cc_idle x \<notin> set (rq_list (cc_runqueue x))" "cc_idle x \<noteq> 0" "0 \<notin> set (rq_list (cc_runqueue x))"
    "status k (cc_idle x) \<in> {THREAD_READY, THREAD_RUNNING}" using ok by (simp_all add: cpu_ok_def)
  have "status k (cc_idle x) \<noteq> THREAD_ZOMBIE" using idle(4) by auto
  moreover have "t \<noteq> 0" using m idle(3) by metis
  ultimately show "cpu_ok (k_thr k) ((bury k x)\<lparr>cc_current := cc_idle x\<rparr>)"
    using inv' run' i z idle by (simp add: cpu_ok_def rq zl d [unfolded t_def] sel t_def)
qed

lemma sched_idle_zombie_eq:
  assumes "k_cpu k c = Some x" "cpu_ok (k_thr k) x"
  shows "sched_idle_zombie c k =
    (if status k (cc_current x) = THREAD_ZOMBIE then (cc_idle x, upd_cpu c (\<lambda>_. bury k x) k)
     else if rq_list (cc_zombiequeue x) = [] then (0, k) else (cc_idle x, k))"
proof -
  have n: "rq_count (cc_zombiequeue x) = int (length (rq_list (cc_zombiequeue x)))"
    using assms(2) by (simp add: cpu_ok_def rq_inv_def)
  have b: "rq_count (cc_zombiequeue (bury k x)) = 1" if "status k (cc_current x) = THREAD_ZOMBIE"
    using bury_ok(4) [OF assms(2) that] .
  show ?thesis
    using assms(1) n b
    by (auto simp: sched_idle_zombie_def Let_def bury_def rq_take_def runqueue_enqueue_raw_def upd_cpu_def)
qed

lemma runnable_upd_cpu [simp]: "runnable (upd_cpu c f k) = runnable k"
  by (rule ext) (simp add: runnable_def)

lemma sched_choice_need_resched: "sched_choice (upd_cpu c f k) (x\<lparr>cc_need_resched := b\<rparr>) = sched_choice k x"
  by (simp add: sched_choice_def Let_def cong: option.case_cong)

text \<open>A call with nothing to reap: the chosen thread runs, queue and statuses are those of \<open>pick_next\<close>.\<close>

definition sched_post :: "nat \<Rightarrow> kernel \<Rightarrow> cpu_context \<Rightarrow> kernel \<Rightarrow> cpu_context \<Rightarrow> bool" where
  "sched_post c k x k' y \<longleftrightarrow>
     k_cpu k' c = Some y \<and> cpu_ok (k_thr k') y \<and> cc_current y = sched_choice k x \<and> cc_idle y = cc_idle x \<and>
     cc_preempt_count y = cc_preempt_count x \<and> cc_zombiequeue y = cc_zombiequeue x \<and>
     rq_list (cc_runqueue y) = (if sched_choice k x \<in> set (rq_list (cc_runqueue x)) \<and> sched_choice k x \<noteq> cc_current x
       then insort_tail (\<lambda>t. th_priority (k_thr k t)) (sched_choice k x) (remove1 (sched_choice k x) (rq_list (cc_runqueue x)))
       else rq_list (cc_runqueue x)) \<and>
     (\<forall>t. status k' t = picked_status k x (sched_choice k x) t) \<and>
     (\<forall>t. th_priority (k_thr k' t) = th_priority (k_thr k t)) \<and>
     (\<forall>t. th_wakeup_ticks (k_thr k' t) = th_wakeup_ticks (k_thr k t)) \<and> k_ticks k' = k_ticks k"

lemma schedule_common_pick:
  assumes "k_cpu k c = Some x" "cpu_ok (k_thr k) x" "cc_preempt_count x = 0"
    "status k (cc_current x) \<noteq> THREAD_ZOMBIE" "rq_list (cc_zombiequeue x) = []"
  shows "\<exists>k' y. schedule_common pre c now k = Inr k' \<and> sched_post c k x k' y"
proof -
  let ?k = "upd_cpu c (\<lambda>x. x\<lparr>cc_need_resched := False\<rparr>) k" and ?x = "x\<lparr>cc_need_resched := False\<rparr>"
  have x: "k_cpu ?k c = Some ?x" and ok: "cpu_ok (k_thr ?k) ?x"
    using assms(1) cpu_ok_cong [OF assms(2)] by simp_all
  note ch = sched_choice_need_resched [of c "\<lambda>x. x\<lparr>cc_need_resched := False\<rparr>" k False x]
  from pick_next_spec [OF x ok] obtain k' rq' where pn: "pick_next c ?k = (sched_choice k x, k')"
    and post: "pick_post c ?k ?x (sched_choice k x) k' rq'" unfolding ch by blast
  let ?y = "?x\<lparr>cc_runqueue := rq', cc_current := sched_choice k x\<rparr>"
  let ?k' = "if sched_choice k x = cc_current x then k' else commit_switch c now (cc_current x) (sched_choice k x) k'"
  have y: "cpu_ok (k_thr k') ?y" using pick_cpu_ok [OF ok, of c k' rq'] post assms(4,5) unfolding ch by simp
  have kc: "k_cpu k' c = Some (?x\<lparr>cc_runqueue := rq'\<rparr>)" using post by (simp add: pick_post_def)
  have e: "schedule_common pre c now k = Inr ?k'"
    using assms(1,3,4,5) sched_idle_zombie_eq [OF x ok] pn by (simp add: schedule_common_def Let_def)
  have "cpu_ok (k_thr ?k') (this_cpu c ?k')"
    by (rule cpu_ok_cong [OF y]) (simp_all add: kc commit_switch_cpu [OF kc])
  moreover have ps: "picked_status ?k ?x n t = picked_status k x n t" for n t by (auto simp: picked_status_def)
  ultimately have "sched_post c k x ?k' (this_cpu c ?k')"
    using post unfolding sched_post_def pick_post_def ps by (simp add: kc commit_switch_cpu [OF kc])
  with e show ?thesis by blast
qed

text \<open>A call for a thread that has exited: it is buried and the idle thread runs.\<close>

lemma schedule_common_zombie:
  assumes "k_cpu k c = Some x" "cpu_ok (k_thr k) x" "cc_preempt_count x = 0" "status k (cc_current x) = THREAD_ZOMBIE"
  shows "\<exists>k' y. schedule_common pre c now k = Inr k' \<and> k_cpu k' c = Some y \<and> cpu_ok (k_thr k') y \<and>
    cc_current y = cc_idle x \<and> cc_idle y = cc_idle x \<and> cc_preempt_count y = 0 \<and>
    rq_list (cc_runqueue y) = remove1 (cc_current x) (rq_list (cc_runqueue x)) \<and>
    rq_list (cc_zombiequeue y) = [cc_current x] \<and>
    cc_active_pml4 y = (if th_pml4 (k_thr k (cc_idle x)) \<noteq> 0 then th_pml4 (k_thr k (cc_idle x)) else k_root k)"
proof -
  let ?k = "upd_cpu c (\<lambda>x. x\<lparr>cc_need_resched := False\<rparr>) k" and ?x = "x\<lparr>cc_need_resched := False\<rparr>"
  let ?b = "upd_cpu c (\<lambda>_. bury ?k ?x) ?k" and ?k' = "\<lambda>b. commit_switch c now (cc_current x) (cc_idle x) b"
  have x: "k_cpu ?k c = Some ?x" and ok: "cpu_ok (k_thr ?k) ?x"
    using assms(1) cpu_ok_cong [OF assms(2)] by simp_all
  have z: "status ?k (cc_current ?x) = THREAD_ZOMBIE" using assms(4) by simp
  note b = bury_ok [OF ok z]
  have bc: "k_cpu ?b c = Some (bury ?k ?x)" using assms(1) by simp
  have e: "schedule_common pre c now k = Inr (?k' ?b)"
    using assms sched_idle_zombie_eq [OF x ok] cpu_okD(5,9) [OF assms(2)] by (simp add: schedule_common_def Let_def)
  have sel: "cc_idle (bury ?k ?x) = cc_idle x" "cc_preempt_count (bury ?k ?x) = 0"
    using assms(3) by (simp_all add: bury_def Let_def)
  have "cpu_ok (k_thr (?k' ?b)) (this_cpu c (?k' ?b))"
    by (rule cpu_ok_cong [OF b(1)]) (simp_all add: commit_switch_cpu [OF bc] sel)
  then show ?thesis using e b(2,3) sel assms(4)
    by (intro exI [of _ "?k' ?b"] exI [of _ "this_cpu c (?k' ?b)"]) (simp add: commit_switch_cpu [OF bc] mm_after_def)
qed

lemma schedule_common_spec:
  assumes "k_cpu k c = Some x" "cpu_ok (k_thr k) x" "cc_preempt_count x = 0"
  shows "\<exists>k' y. schedule_common pre c now k = Inr k' \<and> k_cpu k' c = Some y \<and> cpu_ok (k_thr k') y \<and>
    cc_current y = sched_next k x \<and> cc_idle y = cc_idle x \<and> cc_preempt_count y = 0"
proof -
  let ?k = "upd_cpu c (\<lambda>x. x\<lparr>cc_need_resched := False\<rparr>) k" and ?x = "x\<lparr>cc_need_resched := False\<rparr>"
  consider (z) "status k (cc_current x) = THREAD_ZOMBIE"
    | (r) "status k (cc_current x) \<noteq> THREAD_ZOMBIE" "rq_list (cc_zombiequeue x) \<noteq> []"
    | (p) "status k (cc_current x) \<noteq> THREAD_ZOMBIE" "rq_list (cc_zombiequeue x) = []" by blast
  then show ?thesis
  proof cases
    case z
    from schedule_common_zombie [OF assms z, of pre now] show ?thesis
      by (elim exE conjE) (intro exI conjI, assumption+, simp_all add: sched_next_def z)
  next
    case r
    have x: "k_cpu ?k c = Some ?x" and ok: "cpu_ok (k_thr ?k) ?x"
      using assms(1) cpu_ok_cong [OF assms(2)] by simp_all
    have i: "cc_current x = cc_idle x" using cpu_okD(10) [OF assms(2) r(2)] .
    then have "schedule_common pre c now k = Inr ?k"
      using assms(1,3) sched_idle_zombie_eq [OF x ok] r cpu_okD(5) [OF assms(2)] by (simp add: schedule_common_def Let_def)
    then show ?thesis using x ok assms(3) i r
      by (intro exI [of _ ?k] exI [of _ ?x]) (simp add: sched_next_def)
  next
    case p
    from schedule_common_pick [OF assms p, of pre now] obtain k' y
      where "schedule_common pre c now k = Inr k'" "sched_post c k x k' y" by blast
    then show ?thesis by (intro exI [of _ k'] exI [of _ y]) (simp add: sched_next_def sched_post_def p assms(3))
  qed
qed

section \<open>Round robin\<close>

text \<open>
  The threads \<open>us\<close> of priority \<open>p\<close> take turns: the queue is \<open>as\<close>, \<open>us\<close>, \<open>cs\<close> in the order of
  their priorities and nothing in \<open>as\<close> can run; the threads \<open>us\<close> are ready, or the last
  of them is the running thread and the others are ready.
\<close>

definition turn_queue :: "nat \<Rightarrow> tid list \<Rightarrow> tid list \<Rightarrow> tid list \<Rightarrow> kernel \<Rightarrow> cpu_context \<Rightarrow> bool" where
  "turn_queue p as us cs k x \<longleftrightarrow> rq_list (cc_runqueue x) = as @ us @ cs \<and>
     (\<forall>t\<in>set as. th_priority (k_thr k t) < p \<and> \<not> runnable k t) \<and> set us \<subseteq> {t. th_priority (k_thr k t) = p} \<and>
     (\<forall>t\<in>set cs. p < th_priority (k_thr k t))"

definition turn_ready :: "nat \<Rightarrow> tid list \<Rightarrow> kernel \<Rightarrow> cpu_context \<Rightarrow> bool" where
  "turn_ready p us k x \<longleftrightarrow> cc_current x \<notin> set us \<and> (\<forall>t\<in>set us. status k t = THREAD_READY) \<and>
     (cc_current x = cc_idle x \<or> status k (cc_current x) \<noteq> THREAD_RUNNING \<or> p \<le> th_priority (k_thr k (cc_current x)))"

definition turn_running :: "tid list \<Rightarrow> kernel \<Rightarrow> cpu_context \<Rightarrow> bool" where
  "turn_running us k x \<longleftrightarrow> cc_current x = last us \<and> status k (cc_current x) = THREAD_RUNNING \<and>
     (\<forall>t\<in>set (butlast us). status k t = THREAD_READY)"

definition turn :: "nat \<Rightarrow> nat \<Rightarrow> tid list \<Rightarrow> tid list \<Rightarrow> tid list \<Rightarrow> kernel \<Rightarrow> bool" where
  "turn c p as us cs k \<longleftrightarrow> (\<exists>x. k_cpu k c = Some x \<and> cpu_ok (k_thr k) x \<and> cc_preempt_count x = 0 \<and>
     status k (cc_current x) \<noteq> THREAD_ZOMBIE \<and> rq_list (cc_zombiequeue x) = [] \<and>
     us \<noteq> [] \<and> turn_queue p as us cs k x \<and> (turn_ready p us k x \<or> turn_running us k x))"

text \<open>The choice in such a state is the first of them.\<close>

lemma turn_choice:
  assumes "cpu_ok (k_thr k) x" "rq_list (cc_runqueue x) = as @ u # us @ cs" "\<forall>t\<in>set as. \<not> runnable k t"
    "status k u = THREAD_READY"
    "cc_current x = cc_idle x \<or> status k (cc_current x) \<noteq> THREAD_RUNNING \<or> th_priority (k_thr k u) \<le> th_priority (k_thr k (cc_current x))"
  shows "sched_choice k x = u"
proof -
  have "List.find (runnable k) as = None" using assms(3) by (simp add: find_None_iff)
  moreover have "runnable k u" using assms(4) by (simp add: runnable_def)
  ultimately have "List.find (runnable k) (as @ u # us @ cs) = Some u" by (simp add: find_append)
  then show ?thesis using assms(2,5) by (auto simp: sched_choice_def Let_def)
qed

lemma turn_choice_single:
  assumes "cpu_ok (k_thr k) x" "rq_list (cc_runqueue x) = as @ u # cs" "\<forall>t\<in>set as. \<not> runnable k t"
    "status k u = THREAD_RUNNING" "cc_current x = u" "\<forall>t\<in>set cs. th_priority (k_thr k u) < th_priority (k_thr k t)"
  shows "sched_choice k x = u"
proof -
  have "List.find (runnable k) as = None" using assms(3) by (simp add: find_None_iff)
  moreover have "\<not> runnable k u" using assms(4) by (simp add: runnable_def)
  ultimately have f: "List.find (runnable k) (as @ u # cs) = List.find (runnable k) cs" by (simp add: find_append)
  have "u \<noteq> cc_idle x" using cpu_okD(3) [OF assms(1)] assms(2) by auto
  moreover have "th_priority (k_thr k u) < th_priority (k_thr k t)" if "List.find (runnable k) cs = Some t" for t
    using that assms(6) by (auto simp: find_Some_iff)
  ultimately show ?thesis using assms(2,4,5) f by (auto simp: sched_choice_def Let_def split: option.splits)
qed

lemma insort_tail_block:
  assumes "\<forall>t\<in>set as. f t \<le> f u" "\<forall>t\<in>set us. f t \<le> f u" "\<forall>t\<in>set cs. f u < f t"
  shows "insort_tail f u (as @ us @ cs) = as @ us @ u # cs"
  using takeWhile_three [of "as @ us" "\<lambda>y. f y \<le> f u" cs] assms by (auto simp: insort_tail_def not_le)

lemma turn_next:
  assumes ok: "cpu_ok (k_thr k) x" and q: "turn_queue p as (u # us) cs k x"
    and t: "turn_ready p (u # us) k x \<or> turn_running (u # us) k x"
  shows "sched_choice k x = u" "cc_current x = u \<Longrightarrow> us = []"
proof -
  have rq: "rq_list (cc_runqueue x) = as @ u # us @ cs" using q by (simp add: turn_queue_def)
  have as: "\<forall>t\<in>set as. \<not> runnable k t" using q by (simp add: turn_queue_def)
  have pu: "th_priority (k_thr k u) = p" using q by (simp add: turn_queue_def)
  have d: "distinct (as @ u # us @ cs)" using rq_inv_distinct [OF cpu_okD(1) [OF ok]] rq by simp
  show e: "us = []" if "cc_current x = u"
    using that t d by (cases us rule: rev_cases) (auto simp: turn_ready_def turn_running_def)
  show "sched_choice k x = u"
  proof (cases "cc_current x = u")
    case True
    have "rq_list (cc_runqueue x) = as @ u # cs" using rq e [OF True] by simp
    moreover have "status k u = THREAD_RUNNING" using t True by (auto simp: turn_ready_def turn_running_def)
    moreover have "\<forall>t\<in>set cs. th_priority (k_thr k u) < th_priority (k_thr k t)" using q pu by (simp add: turn_queue_def)
    ultimately show ?thesis using turn_choice_single [OF ok _ as] True by blast
  next
    case False
    then have st: "status k u = THREAD_READY"
      using t by (cases us rule: rev_cases) (auto simp: turn_ready_def turn_running_def)
    have "th_priority (k_thr k (last us)) = p" if "us \<noteq> []"
      using q last_in_set [OF that] by (auto simp: turn_queue_def)
    then have pr: "cc_current x = cc_idle x \<or> status k (cc_current x) \<noteq> THREAD_RUNNING \<or> th_priority (k_thr k u) \<le> th_priority (k_thr k (cc_current x))"
      using t pu by (cases "us = []") (auto simp: turn_ready_def turn_running_def)
    show ?thesis by (rule turn_choice [OF ok rq as st pr])
  qed
qed

lemma turn_front:
  assumes ok: "cpu_ok (k_thr k) x" and q: "turn_queue p as (u # us) cs k x"
    and t: "turn_ready p (u # us) k x \<or> turn_running (u # us) k x" and a: "v \<in> set as"
  shows "\<not> (v = cc_current x \<and> status k v = THREAD_RUNNING)"
proof
  assume c: "v = cc_current x \<and> status k v = THREAD_RUNNING"
  have rq: "rq_list (cc_runqueue x) = as @ u # us @ cs" using q by (simp add: turn_queue_def)
  have "v \<noteq> cc_idle x" using cpu_okD(3) [OF ok] rq a by auto
  moreover have "th_priority (k_thr k v) < p" using q a by (simp add: turn_queue_def)
  moreover have "v \<noteq> last (u # us)"
    using rq_inv_distinct [OF cpu_okD(1) [OF ok]] a last_in_set [of "u # us"] unfolding rq by auto
  ultimately show False using t c by (auto simp: turn_ready_def turn_running_def)
qed

lemma turn_post:
  assumes ok: "cpu_ok (k_thr k) x" and q: "turn_queue p as (u # us) cs k x"
    and t: "turn_ready p (u # us) k x \<or> turn_running (u # us) k x" and post: "sched_post c k x k' y"
  shows "turn_running (us @ [u]) k' y" "turn_queue p as (us @ [u]) cs k' y"
proof -
  note n = turn_next [OF ok q t]
  have rq: "rq_list (cc_runqueue x) = as @ u # us @ cs" using q by (simp add: turn_queue_def)
  have d: "distinct (as @ u # us @ cs)" using rq_inv_distinct [OF cpu_okD(1) [OF ok]] rq by simp
  have st: "status k' t = (if t = u then THREAD_RUNNING else if t = cc_current x \<and> status k t = THREAD_RUNNING
      then THREAD_READY else status k t)" for t
    using post rq n(1) by (simp add: sched_post_def picked_status_def)
  have "status k' t = THREAD_READY" if "t \<in> set us" for t
    using that t d st [of t] by (cases us rule: rev_cases) (auto simp: turn_ready_def turn_running_def)
  moreover have "cc_current y = u" using post n(1) by (simp add: sched_post_def)
  ultimately show "turn_running (us @ [u]) k' y" using st [of u] by (simp add: turn_running_def)
  have as: "status k' t = status k t" if "t \<in> set as" for t
  proof -
    have "\<not> (t = cc_current x \<and> status k t = THREAD_RUNNING)" by (rule turn_front [OF ok q t that])
    moreover have "t \<noteq> u" using d that by auto
    ultimately show ?thesis using st [of t] by auto
  qed
  have rq': "rq_list (cc_runqueue y) = as @ us @ u # cs"
  proof (cases "cc_current x = u")
    case True
    then show ?thesis using post rq n by (simp add: sched_post_def)
  next
    case False
    have r: "remove1 u (as @ u # us @ cs) = as @ us @ cs" using d by (simp add: remove1_append)
    have "insort_tail (\<lambda>t. th_priority (k_thr k t)) u (as @ us @ cs) = as @ us @ u # cs"
      by (rule insort_tail_block) (use q in \<open>auto simp: turn_queue_def\<close>)
    then show ?thesis using post False by (simp add: sched_post_def n(1) rq r)
  qed
  have "runnable k' t = runnable k t" if "t \<in> set as" for t
    using as [OF that] post by (simp add: runnable_def sched_post_def)
  then show "turn_queue p as (us @ [u]) cs k' y"
    using q rq' post by (simp add: turn_queue_def sched_post_def)
qed

lemma turn_step:
  assumes "turn c p as (u # us) cs k"
  shows "\<exists>k'. schedule c now k = Inr k' \<and> turn c p as (us @ [u]) cs k' \<and> cc_current (this_cpu c k') = u"
proof -
  from assms obtain x where x: "k_cpu k c = Some x" "cpu_ok (k_thr k) x" "cc_preempt_count x = 0"
    and z: "status k (cc_current x) \<noteq> THREAD_ZOMBIE" "rq_list (cc_zombiequeue x) = []"
    and q: "turn_queue p as (u # us) cs k x" "turn_ready p (u # us) k x \<or> turn_running (u # us) k x"
    unfolding turn_def by (elim exE conjE)
  from schedule_common_pick [OF x z, of False now] obtain k' y
    where k': "schedule_common False c now k = Inr k'" and post: "sched_post c k x k' y" by blast
  note n = turn_next(1) [OF x(2) q] and t = turn_post [OF x(2) q post]
  have "status k' (cc_current y) \<noteq> THREAD_ZOMBIE" using t(1) by (auto simp: turn_running_def)
  then have "turn c p as (us @ [u]) cs k'"
    using post t z(2) x(3) unfolding turn_def by (intro exI [of _ y]) (simp add: sched_post_def)
  then show ?thesis using k' post by (intro exI [of _ k']) (simp add: schedule_def sched_post_def n)
qed

text \<open>Repeated calls of \<open>schedule\<close>, with the threads that run in between.\<close>

primrec schedule_n :: "nat \<Rightarrow> u64 list \<Rightarrow> kernel \<Rightarrow> tid list res" where
  "schedule_n c [] k = Inr []"
| "schedule_n c (now # nows) k =
     bind_res (schedule c now k) (\<lambda>k1. bind_res (schedule_n c nows k1) (\<lambda>ts. Inr (cc_current (this_cpu c k1) # ts)))"

lemma turn_n:
  "turn c p as us cs k \<Longrightarrow> schedule_n c nows k = Inr (map (\<lambda>i. us ! (i mod length us)) [0..<length nows])"
proof (induction nows arbitrary: us k)
  case (Cons now nows)
  from Cons.prems obtain u vs where us: "us = u # vs" by (cases us) (auto simp: turn_def)
  from turn_step [OF Cons.prems [unfolded us], of now] obtain k'
    where k': "schedule c now k = Inr k'" "turn c p as (vs @ [u]) cs k'" "cc_current (this_cpu c k') = u" by blast
  have "(vs @ [u]) ! (i mod length (vs @ [u])) = us ! (Suc i mod length us)" for i
    using nth_rotate1 [of "i mod length us" us] by (simp add: us mod_Suc_eq)
  then have "map (\<lambda>i. us ! (i mod length us)) [0..<Suc (length nows)] = u # map (\<lambda>i. (vs @ [u]) ! (i mod length (vs @ [u]))) [0..<length nows]"
    unfolding upt_conv_Cons [OF zero_less_Suc] by (simp add: us map_Suc_upt [symmetric] del: upt_Suc)
  then show ?case using k' Cons.IH [OF k'(2)] by simp
qed simp

section \<open>Exit and reaping\<close>

lemma reap_single:
  assumes x: "k_cpu k c = Some x" and ok: "cpu_ok (k_thr k) x" and z: "rq_list (cc_zombiequeue x) = [t]"
  shows "\<exists>k' y. reap_zombies c k = Inr ([t], k') \<and> k_cpu k' c = Some y \<and> cpu_ok (k_thr k') y \<and>
    rq_list (cc_zombiequeue y) = [] \<and> cc_current y = cc_current x \<and> cc_runqueue y = cc_runqueue x"
proof -
  note inv = cpu_okD(2) [OF ok]
  have n: "rq_count (cc_zombiequeue x) = 1" using inv z by (simp add: rq_inv_def)
  have t: "t \<noteq> 0" using cpu_okD(7) [OF ok] z by (metis list.set_intros(1))
  obtain q where q: "runqueue_dequeue_tail (cc_zombiequeue x) = Inr (t, q)" "rq_inv (k_thr k) q" "rq_list q = []"
    using dequeue_tail_refines [OF inv] z by auto
  let ?y = "x\<lparr>cc_zombiequeue := q\<rparr>" and ?k = "upd_cpu c (\<lambda>c. c\<lparr>cc_zombiequeue := q\<rparr>) k"
  have "reap_zombies c k = Inr ([t], ?k)"
    using x n q(1) t by (simp add: reap_zombies_def cpu_dequeue_zombie_tail_def with_ctx_def)
  moreover have "cpu_ok (k_thr k) ?y" using ok q(2,3) unfolding cpu_ok_def by simp
  ultimately show ?thesis using x q(3) by (intro exI [of _ ?k] exI [of _ ?y]) simp
qed

lemma cpu_ok_set_status:
  assumes "cpu_ok (k_thr k) x" "cc_current x \<in> set (rq_list (cc_runqueue x))"
  shows "cpu_ok ((k_thr k)(cc_current x := (k_thr k (cc_current x))\<lparr>th_status := THREAD_ZOMBIE, th_exit_code := code\<rparr>)) x"
    (is "cpu_ok ?thr x")
proof -
  let ?t = "cc_current x"
  have i: "?t \<noteq> cc_idle x" using cpu_okD(3) [OF assms(1)] assms(2) by metis
  have z: "rq_list (cc_zombiequeue x) = []" using cpu_okD(10) [OF assms(1)] i by blast
  have "rq_inv ?thr (cc_runqueue x)" "rq_inv ?thr (cc_zombiequeue x)"
    using cpu_okD(1,2) [OF assms(1)] by (auto intro: rq_inv_prio_cong)
  moreover have "{t \<in> set (rq_list (cc_runqueue x)). th_status (?thr t) \<in> {THREAD_RUNNING, THREAD_ZOMBIE}} \<subseteq> {?t}"
    using assms(1) unfolding cpu_ok_def by auto
  ultimately show ?thesis using assms(2) i z cpu_okD [OF assms(1)] by (simp add: cpu_ok_def)
qed

section \<open>Properties\<close>

text \<open>
  The bitmap search of \<open>pick_next\<close>, which clears one bit per round and therefore
  ends, computes the same as a plain search of the whole queue in the order of the
  priorities.
\<close>
theorem pick_loop_linear_search:
  assumes "rq_inv thr rq"
  shows "pick_loop R (rq_heads rq) (rq_bitmap rq) =
    map_option (\<lambda>t. (t, th_priority (thr t))) (List.find R (rq_list rq))"
  using assms by (rule pick_loop_rq)

theorem pick_loop_linear_search_witness:
  "pick_loop (\<lambda>t. t = 7) (rq_heads (runqueue_enqueue_raw (\<lambda>_. thread_example) 7 runqueue_init))
     (rq_bitmap (runqueue_enqueue_raw (\<lambda>_. thread_example) 7 runqueue_init)) = Some (7, 32)"
proof -
  have "rq_inv (\<lambda>_. thread_example) (runqueue_enqueue_raw (\<lambda>_. thread_example) 7 runqueue_init) \<and>
      rq_list (runqueue_enqueue_raw (\<lambda>_. thread_example) 7 runqueue_init) = [7]"
    using enqueue_raw_refines [of "\<lambda>_. thread_example" runqueue_init 7] by (simp add: rq_inv_init thread_example_def)
  then show ?thesis
    using pick_loop_linear_search [of "\<lambda>_. thread_example" "runqueue_enqueue_raw (\<lambda>_. thread_example) 7 runqueue_init" "\<lambda>t. t = 7"]
    by (simp add: thread_example_def)
qed

text \<open>
  (C19) A voluntary call of the scheduler outside a non-preemptible section never panics
  and keeps the CPU in a good state: no thread is lost, no thread other than the
  current one is marked running, zombies wait only for the idle thread.  When nothing
  is to be reaped, the thread that runs afterwards has the highest priority: if some
  thread of the queue can run, it is not the idle thread, and no runnable thread has a
  numerically smaller priority.
\<close>
theorem schedule_highest_priority:
  assumes "sched_inv c k" "cc_preempt_count (this_cpu c k) = 0"
  shows "\<exists>k'. schedule c now k = Inr k' \<and> sched_inv c k' \<and>
    cc_current (this_cpu c k') = sched_next k (this_cpu c k) \<and>
    (status k (cc_current (this_cpu c k)) \<noteq> THREAD_ZOMBIE \<and> rq_list (cc_zombiequeue (this_cpu c k)) = [] \<longrightarrow>
      (\<forall>t\<in>set (rq_list (cc_runqueue (this_cpu c k))). runnable k t \<longrightarrow>
        cc_current (this_cpu c k') \<noteq> cc_idle (this_cpu c k) \<and>
        th_priority (k_thr k (cc_current (this_cpu c k'))) \<le> th_priority (k_thr k t)))"
proof -
  obtain x where x: "k_cpu k c = Some x" "cpu_ok (k_thr k) x"
    using assms(1) by (auto simp: sched_inv_def split: option.splits)
  moreover have "cc_preempt_count x = 0" using assms(2) x(1) by simp
  ultimately obtain k' y where k': "schedule_common False c now k = Inr k'" "k_cpu k' c = Some y" "cpu_ok (k_thr k') y"
    "cc_current y = sched_next k x" using schedule_common_spec [OF x, of False now] by blast
  have "sched_choice k x \<noteq> cc_idle x \<and> th_priority (k_thr k (sched_choice k x)) \<le> th_priority (k_thr k t)"
    if t: "t \<in> set (rq_list (cc_runqueue x))" "runnable k t" for t
  proof -
    have ne: "rq_list (cc_runqueue x) \<noteq> []" using t(1) by auto
    from x(2) ne show ?thesis
    proof (cases rule: sched_choice_cases)
      case Keep
      then show ?thesis using t by (auto dest: less_imp_le)
    next
      case (First u)
      then show ?thesis using t cpu_okD(3) [OF x(2)] by metis
    next
      case Idle
      then show ?thesis using t by (auto simp: find_None_iff)
    qed
  qed
  then show ?thesis using k' x(1) by (intro exI [of _ k']) (simp add: schedule_def sched_inv_def sched_next_def)
qed

text \<open>
  (C20) Round robin.  Let \<open>us\<close> be the threads of priority \<open>p\<close>, all ready, and no thread of
  higher priority runnable or running.  Then successive calls of \<open>schedule\<close> run them in
  turn, in queue order, starting again after the last: every one of them runs once in
  every \<open>length us\<close> calls, whatever lower-priority threads are waiting.
\<close>
theorem schedule_round_robin:
  assumes "sched_inv c k" "cc_preempt_count (this_cpu c k) = 0" "rq_list (cc_zombiequeue (this_cpu c k)) = []"
    "status k (cc_current (this_cpu c k)) \<noteq> THREAD_ZOMBIE" "us \<noteq> []"
    "turn_queue p as us cs k (this_cpu c k)" "turn_ready p us k (this_cpu c k)"
  shows "schedule_n c nows k = Inr (map (\<lambda>i. us ! (i mod length us)) [0..<length nows])"
proof (rule turn_n)
  obtain x where x: "k_cpu k c = Some x" "cpu_ok (k_thr k) x"
    using assms(1) by (auto simp: sched_inv_def split: option.splits)
  then show "turn c p as us cs k" using assms unfolding turn_def by (intro exI [of _ x]) simp
qed

text \<open>
  (C21) The end of a thread.  When the current thread calls \<open>thread_exit\<close>, the idle thread
  runs next, the dead thread has left the run queue, and the CPU no longer uses its
  address space (the idle thread has none of its own).  The idle thread then destroys
  exactly this thread, which is not the current one, and leaves no zombie behind.
\<close>
theorem thread_exit_reaped:
  assumes "sched_inv c k" "cc_preempt_count (this_cpu c k) = 0" "t = cc_current (this_cpu c k)"
    "t \<in> set (rq_list (cc_runqueue (this_cpu c k)))" "th_pml4 (k_thr k (cc_idle (this_cpu c k))) = 0"
  shows "\<exists>k1 k2. thread_exit c now code k = Inr k1 \<and> sched_inv c k1 \<and>
    cc_current (this_cpu c k1) = cc_idle (this_cpu c k) \<and> cc_active_pml4 (this_cpu c k1) = k_root k \<and>
    rq_list (cc_runqueue (this_cpu c k1)) = remove1 t (rq_list (cc_runqueue (this_cpu c k))) \<and>
    reap_zombies c k1 = Inr ([t], k2) \<and> t \<noteq> cc_current (this_cpu c k1) \<and>
    sched_inv c k2 \<and> rq_list (cc_zombiequeue (this_cpu c k2)) = []"
proof -
  obtain x where x: "k_cpu k c = Some x" "cpu_ok (k_thr k) x"
    using assms(1) by (auto simp: sched_inv_def split: option.splits)
  have t: "t = cc_current x" "t \<in> set (rq_list (cc_runqueue x))" "cc_preempt_count x = 0" "th_pml4 (k_thr k (cc_idle x)) = 0"
    using assms x(1) by simp_all
  have ti: "t \<noteq> cc_idle x" using cpu_okD(3) [OF x(2)] t(2) by metis
  let ?k = "upd_thr t (\<lambda>d. d\<lparr>th_exit_code := code\<rparr>) (set_status t THREAD_ZOMBIE k)"
  have ok: "cpu_ok (k_thr ?k) x" using cpu_ok_set_status [OF x(2), of code] t(1,2) by (simp add: set_status_def)
  have kx: "k_cpu ?k c = Some x" "status ?k (cc_current x) = THREAD_ZOMBIE" using x(1) t(1) by (simp_all add: set_status_def)
  have e: "thread_exit c now code k = schedule_common False c now ?k"
    using t x(1) by (simp add: thread_exit_def schedule_def Let_def)
  from schedule_common_zombie [OF kx(1) ok t(3) kx(2), of False now] obtain k1 y
    where k1: "schedule_common False c now ?k = Inr k1" "k_cpu k1 c = Some y" "cpu_ok (k_thr k1) y"
      "cc_current y = cc_idle x" "rq_list (cc_runqueue y) = remove1 t (rq_list (cc_runqueue x))"
      "rq_list (cc_zombiequeue y) = [t]" "cc_active_pml4 y = k_root k"
    using t ti by (auto simp: set_status_def)
  from reap_single [OF k1(2,3,6)] obtain k2 z where "reap_zombies c k1 = Inr ([t], k2)" "k_cpu k2 c = Some z"
    "cpu_ok (k_thr k2) z" "rq_list (cc_zombiequeue z) = []" by blast
  then show ?thesis using k1 e x(1) ti by (intro exI [of _ k1] exI [of _ k2]) (simp add: sched_inv_def)
qed

text \<open>A CPU with two ready threads of the same priority; the idle thread is 1.\<close>

definition rq_example :: runqueue where
  "rq_example = fold (runqueue_enqueue_tail_raw (\<lambda>_. thread_example)) [4, 5] runqueue_init"

definition cpu_example :: "tid \<Rightarrow> cpu_context" where
  "cpu_example u = \<lparr>cc_current = u, cc_idle = 1, cc_runqueue = rq_example, cc_zombiequeue = runqueue_init,
     cc_preempt_count = 0, cc_need_resched = False, cc_preempts = 0, cc_active_pml4 = 0, cc_rsp0 = 0\<rparr>"

definition kernel_example :: "tid \<Rightarrow> kernel" where
  "kernel_example u = \<lparr>k_thr = (\<lambda>_. thread_example), k_cpu = [0 \<mapsto> cpu_example u], k_ncpu = 1, k_timer_ticks = 0,
     k_ticks = 0, k_root = 4096, k_rcu = rcu_init, k_broadcasts = 0\<rparr>"

lemma rq_example_inv: "rq_inv (\<lambda>_. thread_example) rq_example" "rq_list rq_example = [4, 5]"
  using rqq.enq_all [of "\<lambda>_. thread_example" runqueue_init "[4, 5]"]
  by (simp_all add: rq_example_def rq_inv_init thread_example_def insort_tail_def)

lemma cpu_example_ok: "cpu_ok (\<lambda>_. thread_example) (cpu_example u)"
  unfolding cpu_ok_def by (simp add: cpu_example_def rq_example_inv rq_inv_init) (simp add: thread_example_def)

lemma kernel_example_simps:
  "k_cpu (kernel_example u) 0 = Some (cpu_example u)" "k_thr (kernel_example u) = (\<lambda>_. thread_example)"
  "sched_inv 0 (kernel_example u)" "rq_list (cc_zombiequeue (cpu_example u)) = []"
  "rq_list (cc_runqueue (cpu_example u)) = [4, 5]" "cc_preempt_count (cpu_example u) = 0"
  "cc_current (cpu_example u) = u" "cc_idle (cpu_example u) = 1" "k_root (kernel_example u) = 4096"
  using cpu_example_ok by (simp_all add: kernel_example_def cpu_example_def sched_inv_def rq_inv_init rq_example_inv)

theorem schedule_highest_priority_witness:
  "\<exists>k'. schedule 0 0 (kernel_example 1) = Inr k' \<and> sched_inv 0 k' \<and> cc_current (this_cpu 0 k') = 4"
proof -
  have "sched_next (kernel_example 1) (cpu_example 1) = 4"
    by (simp add: sched_next_def sched_choice_def kernel_example_simps runnable_def) (simp add: thread_example_def)
  then show ?thesis using schedule_highest_priority [of 0 "kernel_example 1" 0] by (auto simp: kernel_example_simps)
qed

theorem schedule_round_robin_witness:
  "schedule_n 0 [0, 1, 2] (kernel_example 1) = Inr [4, 5, 4]"
proof -
  have "turn_queue 32 [] [4, 5] [] (kernel_example 1) (cpu_example 1)" "turn_ready 32 [4, 5] (kernel_example 1) (cpu_example 1)"
    by (simp_all add: turn_queue_def turn_ready_def kernel_example_simps) (simp_all add: thread_example_def)
  then show ?thesis
    using schedule_round_robin [of 0 "kernel_example 1" "[4, 5]" 32 "[]" "[]" "[0, 1, 2]"]
    by (simp add: kernel_example_simps upt_rec) (simp add: thread_example_def)
qed

theorem thread_exit_reaped_witness:
  "\<exists>k1 k2. thread_exit 0 0 7 (kernel_example 5) = Inr k1 \<and> rq_list (cc_runqueue (this_cpu 0 k1)) = [4] \<and>
     reap_zombies 0 k1 = Inr ([5], k2) \<and> sched_inv 0 k2"
proof -
  have "th_pml4 (k_thr (kernel_example 5) 1) = 0" by (simp add: kernel_example_simps thread_example_def)
  then show ?thesis using thread_exit_reaped [of 0 "kernel_example 5" 5 0 7]
    by (auto simp: kernel_example_simps)
qed

section \<open>Preemption\<close>

lemma sched_next_cong:
  assumes "\<And>t. status k' t = status k t" "\<And>t. th_priority (k_thr k' t) = th_priority (k_thr k t)"
    "\<And>t. th_wakeup_ticks (k_thr k' t) = th_wakeup_ticks (k_thr k t)" "k_ticks k' = k_ticks k"
    "cc_current y = cc_current x" "cc_idle y = cc_idle x" "cc_runqueue y = cc_runqueue x" "cc_zombiequeue y = cc_zombiequeue x"
  shows "sched_next k' y = sched_next k x"
proof -
  have "runnable k' = runnable k" using assms by (intro ext) (simp add: runnable_def)
  then show ?thesis using assms by (simp add: sched_next_def sched_choice_def Let_def cong: option.case_cong)
qed

lemma timer_handler_cpu:
  "k_cpu k c = Some x \<Longrightarrow> \<exists>b. k_cpu (timer_handler c k) c = Some (x\<lparr>cc_need_resched := b\<rparr>)"
  "k_thr (timer_handler c k) = k_thr k"
  by (rule exI [of _ "cc_need_resched x \<or> (k_timer_ticks k + (if c = 0 then 1 else 0)) mod 10 = 0"])
    (auto simp: timer_handler_def Let_def)

lemma preempt_enable_spec:
  assumes x: "k_cpu k c = Some x" "cpu_ok (k_thr k) x" and p: "cc_preempt_count x = 1"
  shows "\<exists>k' y. preempt_enable c now k = Inr k' \<and> k_cpu k' c = Some y \<and> cpu_ok (k_thr k') y \<and> cc_preempt_count y = 0 \<and>
    cc_current y = (if cc_need_resched x then sched_next k x else cc_current x)"
proof -
  let ?x0 = "x\<lparr>cc_preempt_count := 0\<rparr>" and ?xp = "x\<lparr>cc_preempt_count := 0, cc_preempts := cc_preempts x + 1\<rparr>"
  let ?k0 = "upd_cpu c (\<lambda>x. x\<lparr>cc_preempt_count := cc_preempt_count x - 1\<rparr>) k"
  let ?kp = "upd_thr (cc_current x) (\<lambda>d. d\<lparr>th_preempts := th_preempts d + 1\<rparr>)
      (upd_cpu c (\<lambda>x. x\<lparr>cc_preempts := cc_preempts x + 1\<rparr>) ?k0)"
  have k0: "k_cpu ?k0 c = Some ?x0" "cpu_ok (k_thr ?k0) ?x0" using x p cpu_ok_cong [OF x(2)] by simp_all
  have kp: "k_cpu ?kp c = Some ?xp" "cpu_ok (k_thr ?kp) ?xp" using x p cpu_ok_cong [OF x(2)] by auto
  have en: "preempt_enable c now k = (if cc_need_resched x then schedule_common True c now ?kp else Inr ?k0)"
    using x p by (simp add: preempt_enable_def schedule_preempt_def Let_def)
  have "sched_next ?kp ?xp = sched_next k x" by (rule sched_next_cong) simp_all
  moreover obtain k3 y where "schedule_common True c now ?kp = Inr k3" "k_cpu k3 c = Some y" "cpu_ok (k_thr k3) y"
    "cc_current y = sched_next ?kp ?xp" "cc_preempt_count y = 0"
    using schedule_common_spec [OF kp, of True now] by auto
  ultimately show ?thesis using en k0 by (cases "cc_need_resched x") auto
qed

text \<open>
  (C22) A section between \<open>preempt_disable\<close> and \<open>preempt_enable\<close> is not preempted, and the
  request is not lost.  A timer interrupt inside the section may ask for rescheduling,
  but the interrupt-return path leaves the state unchanged and a voluntary call
  panics.  The closing \<open>preempt_enable\<close> then carries out the request, exactly if there is
  one, and leaves the counter at zero.
\<close>
theorem preempt_deferred:
  assumes "sched_inv c k" "cc_preempt_count (this_cpu c k) = 0"
  shows "\<exists>k1 k2 k3. preempt_disable c k = Inr k1 \<and> k2 = timer_handler c k1 \<and>
    cc_current (this_cpu c k2) = cc_current (this_cpu c k) \<and>
    schedule_irq c now k2 = Inr k2 \<and> (\<exists>e. schedule c now k2 = Inl (Panic e)) \<and>
    preempt_enable c now k2 = Inr k3 \<and> sched_inv c k3 \<and> cc_preempt_count (this_cpu c k3) = 0 \<and>
    cc_current (this_cpu c k3) =
      (if cc_need_resched (this_cpu c k2) then sched_next k2 (this_cpu c k2) else cc_current (this_cpu c k))"
proof -
  obtain x where x: "k_cpu k c = Some x" "cpu_ok (k_thr k) x"
    using assms(1) by (auto simp: sched_inv_def split: option.splits)
  let ?k1 = "upd_cpu c (\<lambda>x. x\<lparr>cc_preempt_count := cc_preempt_count x + 1\<rparr>) k" and ?x1 = "x\<lparr>cc_preempt_count := 1\<rparr>"
  have k1: "preempt_disable c k = Inr ?k1" "k_cpu ?k1 c = Some ?x1" using x(1) assms(2) by (simp_all add: preempt_disable_def)
  define k2 where "k2 = timer_handler c ?k1"
  obtain b where b: "k_cpu k2 c = Some (?x1\<lparr>cc_need_resched := b\<rparr>)"
    unfolding k2_def using timer_handler_cpu(1) [OF k1(2)] by blast
  have "k_thr k2 = k_thr k" unfolding k2_def timer_handler_cpu(2) by simp
  then have ok: "cpu_ok (k_thr k2) (?x1\<lparr>cc_need_resched := b\<rparr>)" using cpu_ok_cong [OF x(2)] by simp
  have "schedule_irq c now k2 = Inr k2" "\<exists>e. schedule c now k2 = Inl (Panic e)"
    using b by (simp_all add: schedule_irq_def schedule_def schedule_common_def)
  moreover obtain k3 y where "preempt_enable c now k2 = Inr k3" "k_cpu k3 c = Some y" "cpu_ok (k_thr k3) y"
    "cc_preempt_count y = 0" "cc_current y = (if b then sched_next k2 (this_cpu c k2) else cc_current x)"
    using preempt_enable_spec [OF b ok, of now] b by auto
  ultimately show ?thesis using k1(1) b x(1)
    by - (rule exI [of _ ?k1], rule exI [of _ k2], rule exI [of _ k3], simp add: sched_inv_def k2_def [symmetric])
qed

theorem preempt_deferred_witness:
  "\<exists>k1 k3. preempt_disable 0 (kernel_example 1) = Inr k1 \<and>
     preempt_enable 0 0 (timer_handler 0 k1) = Inr k3 \<and> sched_inv 0 k3"
  using preempt_deferred [of 0 "kernel_example 1" 0] by (auto simp: kernel_example_simps)

end
