(* ===== verification/Thread_Prio.thy ===== *)
theory Thread_Prio
  imports Sched
begin

text \<open>
  Thread priorities (\<open>kernel/thread.c\<close>): the base priority, the donations of mutex waiters,
  the effective priority computed from both, and the move of the thread to another list
  of its run queue when the effective priority changes.  The per-thread lock makes every
  operation one transition.  A thread is linked on queues of its target CPU only, which
  \<open>cpu_queue_check\<close> enforces on every insertion.
\<close>

section \<open>Operations\<close>

definition thread_effective_priority :: "thread \<Rightarrow> nat" where
  "thread_effective_priority d =
     (case List.find (\<lambda>i. th_donations d i \<noteq> 0) [0..<SCHED_PRIO_COUNT] of
        None \<Rightarrow> th_base_priority d
      | Some i \<Rightarrow> if i < th_base_priority d then i else th_base_priority d)"

definition queued :: "tid \<Rightarrow> runqueue \<Rightarrow> bool" where
  "queued t rq \<longleftrightarrow> list_ex (\<lambda>p. t \<in> set (rq_heads rq p)) [0..<SCHED_PRIO_COUNT]"

definition set_prio :: "tid \<Rightarrow> nat \<Rightarrow> kernel \<Rightarrow> kernel" where
  "set_prio t p = upd_thr t (\<lambda>d. d\<lparr>th_priority := p\<rparr>)"

text \<open>
  The node moves from the list it is linked on, whichever queue that list belongs to, to
  the list of the new priority of the run queue.
\<close>

definition requeue :: "tid \<Rightarrow> nat \<Rightarrow> nat \<Rightarrow> cpu_context \<Rightarrow> cpu_context" where
  "requeue t old p x = x\<lparr>
     cc_runqueue := rq_mark p (rq_link_tail p t (rq_unmark old (rq_unlink t (cc_runqueue x)))),
     cc_zombiequeue := rq_unlink t (cc_zombiequeue x)\<rparr>"

definition thread_apply_effective_priority :: "nat \<Rightarrow> tid \<Rightarrow> nat \<Rightarrow> kernel \<Rightarrow> kernel res" where
  "thread_apply_effective_priority self t priority k =
     (let old = th_priority (k_thr k t); cpu = th_target_cpu (k_thr k t) in
      if old = priority then Inr k
      else if \<not> old < SCHED_PRIO_COUNT then Inl (Panic ''invalid old priority'')
      else if cpu < 0 \<or> int (k_ncpu k) \<le> cpu then Inr (set_prio t priority k)
      else case k_cpu k (nat cpu) of
        None \<Rightarrow> Inr (set_prio t priority k)
      | Some x \<Rightarrow>
          if \<not> (queued t (cc_runqueue x) \<or> queued t (cc_zombiequeue x)) then Inr (set_prio t priority k)
          else Inr (ipi_reschedule_cpu self (nat cpu) (upd_cpu (nat cpu) (requeue t old priority) (set_prio t priority k))))"

definition thread_priority_init :: "tid \<Rightarrow> kernel \<Rightarrow> kernel" where
  "thread_priority_init t k =
     (if t = 0 then k
      else upd_thr t (\<lambda>d. d\<lparr>th_priority := SCHED_DEFAULT_PRIO, th_base_priority := SCHED_DEFAULT_PRIO,
                            th_donations := (\<lambda>_. 0)\<rparr>) k)"

definition thread_set_priority :: "nat \<Rightarrow> tid \<Rightarrow> int \<Rightarrow> kernel \<Rightarrow> (int \<times> kernel) res" where
  "thread_set_priority self t priority k =
     (if t = 0 \<or> priority < 0 \<or> priority \<ge> int SCHED_PRIO_COUNT then Inr (- 1, k)
      else if status k t = THREAD_BLOCKED then Inr (- 2, k)
      else let k1 = upd_thr t (\<lambda>d. d\<lparr>th_base_priority := nat priority\<rparr>) k
           in bind_res (thread_apply_effective_priority self t (thread_effective_priority (k_thr k1 t)) k1)
                (\<lambda>k2. Inr (0, k2)))"

definition drop_donation :: "tid \<Rightarrow> nat \<Rightarrow> kernel \<Rightarrow> kernel res" where
  "drop_donation t p k =
     (if \<not> p < SCHED_PRIO_COUNT then Inr k
      else if th_donations (k_thr k t) p = 0 then Inl (Panic ''missing priority donation'')
      else Inr (upd_thr t (\<lambda>d. d\<lparr>th_donations := (th_donations d)(p := th_donations d p - 1)\<rparr>) k))"

definition add_donation :: "tid \<Rightarrow> nat \<Rightarrow> kernel \<Rightarrow> kernel res" where
  "add_donation t p k =
     (if \<not> p < SCHED_PRIO_COUNT then Inr k
      else if th_donations (k_thr k t) p = 0xFFFF then Inl (Panic ''priority donation overflow'')
      else Inr (upd_thr t (\<lambda>d. d\<lparr>th_donations := (th_donations d)(p := th_donations d p + 1)\<rparr>) k))"

definition thread_priority_update_donation :: "nat \<Rightarrow> tid \<Rightarrow> nat \<Rightarrow> nat \<Rightarrow> kernel \<Rightarrow> kernel res" where
  "thread_priority_update_donation self t old_priority new_priority k =
     (if t = 0 \<or> old_priority > SCHED_PRIO_NONE \<or> new_priority > SCHED_PRIO_NONE
      then Inl (Panic ''invalid priority donation'')
      else bind_res (drop_donation t old_priority k) (\<lambda>k1.
           bind_res (add_donation t new_priority k1) (\<lambda>k2.
           thread_apply_effective_priority self t (thread_effective_priority (k_thr k2 t)) k2)))"

section \<open>The effective priority\<close>

lemma effective_le_base: "thread_effective_priority d \<le> th_base_priority d"
  by (auto simp: thread_effective_priority_def split: option.splits)

lemma effective_le_donation:
  assumes "th_donations d p \<noteq> 0" "p < 64"
  shows "thread_effective_priority d \<le> p"
proof -
  have "\<exists>i. List.find (\<lambda>i. th_donations d i \<noteq> 0) [0..<64] = Some i"
    using assms by (metis (mono_tags, lifting) atLeastLessThan_iff find_None_iff le0 not_None_eq set_upt)
  then obtain i where i: "List.find (\<lambda>i. th_donations d i \<noteq> 0) [0..<64] = Some i" ..
  have "sorted (map id [0..<64])" by simp
  from find_sorted_least [OF this i, of p] assms have "i \<le> p" by simp
  then show ?thesis using i by (auto simp: thread_effective_priority_def)
qed

lemma effective_cases:
  "thread_effective_priority d = th_base_priority d \<or>
   thread_effective_priority d < 64 \<and> th_donations d (thread_effective_priority d) \<noteq> 0"
  by (auto simp: thread_effective_priority_def find_Some_iff split: option.splits if_splits)

lemma effective_Min:
  "thread_effective_priority d = Min (insert (th_base_priority d) {p. p < 64 \<and> th_donations d p \<noteq> 0})"
proof (rule Min_eqI [symmetric])
  show "finite (insert (th_base_priority d) {p. p < 64 \<and> th_donations d p \<noteq> 0})" by simp
  show "thread_effective_priority d \<in> insert (th_base_priority d) {p. p < 64 \<and> th_donations d p \<noteq> 0}"
    using effective_cases [of d] by auto
  show "thread_effective_priority d \<le> p" if "p \<in> insert (th_base_priority d) {p. p < 64 \<and> th_donations d p \<noteq> 0}" for p
    using that effective_le_base effective_le_donation by auto
qed

lemma effective_cong:
  "th_base_priority d' = th_base_priority d \<Longrightarrow> th_donations d' = th_donations d \<Longrightarrow>
   thread_effective_priority d' = thread_effective_priority d"
  by (auto simp: thread_effective_priority_def split: option.splits)

section \<open>Changing the priority of a queued thread\<close>

lemma queued_iff: "rq_inv thr rq \<Longrightarrow> queued t rq \<longleftrightarrow> t \<in> set (rq_list rq)"
  by (auto simp: queued_def rq_list_def list_ex_iff)

lemma requeue_inv:
  assumes inv: "rq_inv thr rq" and t: "t \<in> set (rq_list rq)" and p: "p < 64"
  defines "thr' \<equiv> thr(t := (thr t)\<lparr>th_priority := p\<rparr>)"
  defines "rq' \<equiv> rq_mark p (rq_link_tail p t (rq_unmark (th_priority (thr t)) (rq_unlink t rq)))"
  shows "rq_inv thr' rq'" "set (rq_list rq') = set (rq_list rq)"
proof -
  let ?o = "th_priority (thr t)"
  have h: "t \<in> set (rq_heads rq ?o)" using t set_rq_list [OF inv] by simp
  note tk = rq_take_inv [OF inv h]
  have n: "t \<notin> set (rq_list (rq_take ?o t rq))" using tk(2) rq_inv_distinct [OF inv] by simp
  have tk': "rq_inv thr' (rq_take ?o t rq)"
    by (rule rq_inv_cong [OF _ tk(1)]) (use n in \<open>auto simp: thr'_def\<close>)
  have "rq' = runqueue_enqueue_tail_raw thr' t (rq_take ?o t rq)"
    by (simp add: rq'_def thr'_def runqueue_enqueue_tail_raw_def rq_take_def Let_def rq_defs)
  moreover have "th_priority (thr' t) < 64" using p by (simp add: thr'_def)
  ultimately show "rq_inv thr' rq'" "set (rq_list rq') = set (rq_list rq)"
    using enqueue_tail_raw_refines [OF tk' n] tk(2) rq_inv_distinct [OF inv] t by (auto simp: set_insort_tail)
qed

lemma rq_unlink_other: "rq_inv thr rq \<Longrightarrow> t \<notin> set (rq_list rq) \<Longrightarrow> rq_unlink t rq = rq"
proof -
  assume inv: "rq_inv thr rq" and t: "t \<notin> set (rq_list rq)"
  have "t \<notin> set (rq_heads rq q)" for q
    using t rq_inv_high [OF inv, of q] by (cases "q < 64") (auto simp: rq_list_def)
  then show ?thesis by (simp add: rq_unlink_def remove1_idem)
qed

lemma ipi_reschedule_sel [simp]:
  "k_thr (ipi_reschedule_cpu self c k) = k_thr k" "k_ncpu (ipi_reschedule_cpu self c k) = k_ncpu k"
  "k_ticks (ipi_reschedule_cpu self c k) = k_ticks k"
  by (auto simp: ipi_reschedule_cpu_def Let_def upd_cpu_def split: option.splits)

lemma ipi_reschedule_cpu_ctx:
  "k_cpu k c = Some x \<Longrightarrow> \<exists>b. k_cpu (ipi_reschedule_cpu self c' k) c = Some (x\<lparr>cc_need_resched := b\<rparr>)"
  by (rule exI [of _ "cc_need_resched x \<or> c = c' \<and> c < 16"]) (auto simp: ipi_reschedule_cpu_def Let_def split: option.splits)

text \<open>Applying a valid priority never panics and changes the priority of this thread only.\<close>

lemma apply_effective_thr:
  assumes "th_priority (k_thr k t) < 64"
  shows "\<exists>k'. thread_apply_effective_priority self t p k = Inr k' \<and>
    k_thr k' = (k_thr k)(t := (k_thr k t)\<lparr>th_priority := p\<rparr>) \<and> k_ncpu k' = k_ncpu k \<and> k_ticks k' = k_ticks k"
proof (cases "th_priority (k_thr k t) = p")
  case True
  then have "(k_thr k t)\<lparr>th_priority := p\<rparr> = k_thr k t" by simp
  then have "(k_thr k)(t := (k_thr k t)\<lparr>th_priority := p\<rparr>) = k_thr k" by (intro fun_upd_idem) simp
  with True show ?thesis by (simp add: thread_apply_effective_priority_def Let_def)
next
  case False
  with assms show ?thesis
    by (auto simp: thread_apply_effective_priority_def Let_def set_prio_def upd_thr_def upd_cpu_def split: option.splits)
qed

text \<open>Threads of a CPU's run queue have it as their target.\<close>

definition homed :: "nat \<Rightarrow> kernel \<Rightarrow> bool" where
  "homed c k \<longleftrightarrow> c < k_ncpu k \<and>
     set (rq_list (cc_runqueue (this_cpu c k))) \<subseteq> {t. th_target_cpu (k_thr k t) = int c}"

lemma cpu_ok_requeue:
  assumes ok: "cpu_ok thr x" and t: "t \<in> set (rq_list (cc_runqueue x))" and p: "p < 64"
  defines "thr' \<equiv> thr(t := (thr t)\<lparr>th_priority := p\<rparr>)"
  shows "cpu_ok thr' (requeue t (th_priority (thr t)) p x)"
    "set (rq_list (cc_runqueue (requeue t (th_priority (thr t)) p x))) = set (rq_list (cc_runqueue x))"
proof -
  let ?y = "requeue t (th_priority (thr t)) p x"
  note r = requeue_inv [OF cpu_okD(1) [OF ok] t p]
  have nz: "t \<notin> set (rq_list (cc_zombiequeue x))" using ok t unfolding cpu_ok_def by blast
  have z: "cc_zombiequeue ?y = cc_zombiequeue x"
    using rq_unlink_other [OF cpu_okD(2) [OF ok] nz] by (simp add: requeue_def)
  have zi: "rq_inv thr' (cc_zombiequeue x)"
    by (rule rq_inv_cong [OF _ cpu_okD(2) [OF ok]]) (use nz in \<open>auto simp: thr'_def\<close>)
  have ri: "rq_inv thr' (cc_runqueue ?y)" using r(1) by (simp add: requeue_def thr'_def)
  show s: "set (rq_list (cc_runqueue ?y)) = set (rq_list (cc_runqueue x))" using r(2) by (simp add: requeue_def)
  have st: "th_status (thr' u) = th_status (thr u)" for u by (simp add: thr'_def)
  have "cc_current ?y = cc_current x" "cc_idle ?y = cc_idle x" by (simp_all add: requeue_def)
  then show "cpu_ok thr' ?y" using ok zi ri unfolding cpu_ok_def s z st by simp
qed

lemma cpu_ok_set_prio_other:
  assumes ok: "cpu_ok thr x" and t: "t \<notin> set (rq_list (cc_runqueue x))" "t \<notin> set (rq_list (cc_zombiequeue x))"
  shows "cpu_ok (thr(t := (thr t)\<lparr>th_priority := p\<rparr>)) x" (is "cpu_ok ?thr x")
proof -
  have "rq_inv ?thr (cc_runqueue x)" by (rule rq_inv_cong [OF _ cpu_okD(1) [OF ok]]) (use t in auto)
  moreover have "rq_inv ?thr (cc_zombiequeue x)" by (rule rq_inv_cong [OF _ cpu_okD(2) [OF ok]]) (use t in auto)
  moreover have "th_status (?thr u) = th_status (thr u)" for u by simp
  ultimately show ?thesis using ok unfolding cpu_ok_def by simp
qed

lemma apply_effective_other:
  assumes x: "k_cpu k c = Some x" and k': "thread_apply_effective_priority self t p k = Inr k'"
    and q: "\<not> queued t (cc_runqueue x)" "\<not> queued t (cc_zombiequeue x)"
  shows "\<exists>b. k_cpu k' c = Some (x\<lparr>cc_need_resched := b\<rparr>)"
proof -
  have same: "\<exists>b. x = x\<lparr>cc_need_resched := b\<rparr>" by (rule exI [of _ "cc_need_resched x"]) simp
  let ?d = "nat (th_target_cpu (k_thr k t))"
  let ?k1 = "upd_cpu ?d (requeue t (th_priority (k_thr k t)) p) (set_prio t p k)"
  have "k_cpu k' = k_cpu k \<or> ?d \<noteq> c \<and> k' = ipi_reschedule_cpu self ?d ?k1"
    using k' x q by (cases "?d = c") (auto simp: thread_apply_effective_priority_def Let_def set_prio_def split: if_splits option.splits)
  then show ?thesis
  proof
    assume "k_cpu k' = k_cpu k"
    then show ?thesis using x same by simp
  next
    assume d: "?d \<noteq> c \<and> k' = ipi_reschedule_cpu self ?d ?k1"
    then have "k_cpu ?k1 c = Some x" using x by (simp add: set_prio_def)
    from ipi_reschedule_cpu_ctx [OF this] show ?thesis using d by blast
  qed
qed

lemma apply_effective_cpu_ok:
  assumes x: "k_cpu k c = Some x" "cpu_ok (k_thr k) x" and h: "homed c k"
    and t: "status k t \<noteq> THREAD_ZOMBIE" and p: "p < 64" and k': "thread_apply_effective_priority self t p k = Inr k'"
  shows "\<exists>y. k_cpu k' c = Some y \<and> cpu_ok (k_thr k') y \<and> cc_current y = cc_current x \<and>
    set (rq_list (cc_runqueue y)) = set (rq_list (cc_runqueue x))"
proof (cases "th_priority (k_thr k t) = p")
  case True
  then show ?thesis using x k' by (simp add: thread_apply_effective_priority_def Let_def)
next
  case False
  have nz: "t \<notin> set (rq_list (cc_zombiequeue x))" using x(2) t unfolding cpu_ok_def by auto
  have zq: "\<not> queued t (cc_zombiequeue x)" using queued_iff [OF cpu_okD(2) [OF x(2)]] nz by simp
  note q = queued_iff [OF cpu_okD(1) [OF x(2)], of t]
  show ?thesis
  proof (cases "t \<in> set (rq_list (cc_runqueue x))")
    case True
    then have tg: "th_target_cpu (k_thr k t) = int c" "c < k_ncpu k" using h x(1) by (auto simp: homed_def)
    let ?k1 = "upd_cpu c (requeue t (th_priority (k_thr k t)) p) (set_prio t p k)"
    have e: "k' = ipi_reschedule_cpu self c ?k1"
      using k' False tg x(1) True q by (auto simp: thread_apply_effective_priority_def Let_def set_prio_def split: if_splits)
    have "k_cpu ?k1 c = Some (requeue t (th_priority (k_thr k t)) p x)" using x(1) by (simp add: set_prio_def)
    from ipi_reschedule_cpu_ctx [OF this, of self c] obtain b
      where b: "k_cpu k' c = Some ((requeue t (th_priority (k_thr k t)) p x)\<lparr>cc_need_resched := b\<rparr>)" unfolding e by blast
    note r = cpu_ok_requeue [OF x(2) True p]
    have "k_thr k' = (k_thr k)(t := (k_thr k t)\<lparr>th_priority := p\<rparr>)" by (simp add: e set_prio_def)
    then have "cpu_ok (k_thr k') ((requeue t (th_priority (k_thr k t)) p x)\<lparr>cc_need_resched := b\<rparr>)"
      using cpu_ok_cong [OF r(1)] by simp
    then show ?thesis using b r(2) by (simp add: requeue_def)
  next
    case nt: False
    obtain b where b: "k_cpu k' c = Some (x\<lparr>cc_need_resched := b\<rparr>)"
      using apply_effective_other [OF x(1) k'] q zq nt by auto
    have "k_thr k' = (k_thr k)(t := (k_thr k t)\<lparr>th_priority := p\<rparr>)"
      using k' False by (auto simp: thread_apply_effective_priority_def Let_def set_prio_def split: if_splits option.splits)
    then have "cpu_ok (k_thr k') (x\<lparr>cc_need_resched := b\<rparr>)"
      using cpu_ok_cong [OF cpu_ok_set_prio_other [OF x(2) nt nz]] by simp
    then show ?thesis using b by simp
  qed
qed



section \<open>Properties\<close>

text \<open>
  The effective priority is the best of the base priority and the donated ones:
  the minimum, since a smaller number is a higher priority.
\<close>
theorem effective_priority_minimum:
  "thread_effective_priority d = Min (insert (th_base_priority d) {p. p < SCHED_PRIO_COUNT \<and> th_donations d p \<noteq> 0})"
  by (rule effective_Min)

text \<open>
  (C27) Setting a priority.  A null thread or a number outside the range gives -1, a
  blocked thread -2, both without effect.  Otherwise, for a thread that has not exited,
  the call succeeds, the thread gets the effective priority of its new base priority,
  and the CPU stays in a good state with the same threads on its run queue: the thread
  has moved to the list of its new priority, also while it is running or asleep.
\<close>
theorem thread_set_priority_correct:
  assumes "sched_inv c k" "homed c k" "status k t \<noteq> THREAD_ZOMBIE" "th_priority (k_thr k t) < SCHED_PRIO_COUNT"
  shows "(if t = 0 \<or> pr < 0 \<or> pr \<ge> int SCHED_PRIO_COUNT then thread_set_priority self t pr k = Inr (- 1, k)
    else if status k t = THREAD_BLOCKED then thread_set_priority self t pr k = Inr (- 2, k)
    else \<exists>k'. thread_set_priority self t pr k = Inr (0, k') \<and> sched_inv c k' \<and>
      th_base_priority (k_thr k' t) = nat pr \<and>
      th_priority (k_thr k' t) = thread_effective_priority (k_thr k' t) \<and>
      set (rq_list (cc_runqueue (this_cpu c k'))) = set (rq_list (cc_runqueue (this_cpu c k))))"
proof -
  let ?k = "upd_thr t (\<lambda>d. d\<lparr>th_base_priority := nat pr\<rparr>) k" and ?e = "thread_effective_priority (k_thr k t\<lparr>th_base_priority := nat pr\<rparr>)"
  obtain x where x: "k_cpu k c = Some x" "cpu_ok (k_thr k) x"
    using assms(1) by (auto simp: sched_inv_def split: option.splits)
  have ok: "k_cpu ?k c = Some x" "cpu_ok (k_thr ?k) x" using x cpu_ok_cong [OF x(2), of "k_thr ?k" x] by auto
  have h: "homed c ?k" "status ?k t \<noteq> THREAD_ZOMBIE" "th_priority (k_thr ?k t) < 64"
    using assms by (auto simp: homed_def upd_thr_def)
  obtain k' where k': "thread_apply_effective_priority self t ?e ?k = Inr k'"
    "k_thr k' = (k_thr ?k)(t := (k_thr ?k t)\<lparr>th_priority := ?e\<rparr>)"
    using apply_effective_thr [OF h(3), of self ?e] by blast
  have e: "?e < 64" if "pr < 64" "0 \<le> pr"
    using that effective_le_base [of "k_thr k t\<lparr>th_base_priority := nat pr\<rparr>"] by simp
  have eff: "thread_effective_priority (k_thr k' t) = ?e" by (rule effective_cong) (simp_all add: k'(2))
  show ?thesis
    using k' x(1) eff apply_effective_cpu_ok [OF ok h(1,2) e k'(1)]
    by (auto simp: thread_set_priority_def Let_def sched_inv_def)
qed

theorem thread_set_priority_correct_witness:
  "\<exists>k'. thread_set_priority 0 4 10 (kernel_example 1) = Inr (0, k') \<and> sched_inv 0 k' \<and>
     set (rq_list (cc_runqueue (this_cpu 0 k'))) = {4, 5}"
proof -
  have "homed 0 (kernel_example 1)"
    by (simp add: homed_def kernel_example_simps) (simp add: kernel_example_def thread_example_def)
  then show ?thesis
    using thread_set_priority_correct [of 0 "kernel_example 1" 4 10 0]
    by (simp add: kernel_example_simps) (auto simp: thread_example_def kernel_example_simps)
qed

lemma u16_inc_zero: "(w :: u16) + 1 = 0 \<longleftrightarrow> w = 0xFFFF"
proof -
  have "(- 1 :: u16) = 0xFFFF" by simp
  then show ?thesis by (metis add_eq_0_iff2)
qed

lemma update_donation_thr:
  assumes "t \<noteq> 0" "th_priority (k_thr k t) < 64" "old \<le> 64" "new \<le> 64"
    "old < 64 \<Longrightarrow> th_donations (k_thr k t) old \<noteq> 0"
  defines "d1 \<equiv> (if old < 64 then (th_donations (k_thr k t))(old := th_donations (k_thr k t) old - 1) else th_donations (k_thr k t))"
  assumes "new < 64 \<Longrightarrow> d1 new \<noteq> 0xFFFF"
  defines "d2 \<equiv> (if new < 64 then d1(new := d1 new + 1) else d1)"
  shows "\<exists>k'. thread_priority_update_donation self t old new k = Inr k' \<and>
    k_thr k' = (k_thr k)(t := (k_thr k t)\<lparr>th_donations := d2,
      th_priority := thread_effective_priority ((k_thr k t)\<lparr>th_donations := d2\<rparr>)\<rparr>) \<and>
    k_ncpu k' = k_ncpu k \<and> k_ticks k' = k_ticks k"
proof -
  let ?k = "upd_thr t (\<lambda>d. d\<lparr>th_donations := d2\<rparr>) k" and ?e = "thread_effective_priority ((k_thr k t)\<lparr>th_donations := d2\<rparr>)"
  let ?k1 = "upd_thr t (\<lambda>d. d\<lparr>th_donations := d1\<rparr>) k"
  have d: "drop_donation t old k = Inr ?k1"
    using assms(5) by (simp add: drop_donation_def d1_def upd_thr_def)
  have a: "add_donation t new ?k1 = Inr ?k"
    using assms(7) by (simp add: add_donation_def d2_def upd_thr_def)
  have e: "thread_priority_update_donation self t old new k = thread_apply_effective_priority self t ?e ?k"
    using assms(1,3,4) d a by (simp add: thread_priority_update_donation_def)
  have "th_priority (k_thr ?k t) < 64" using assms(2) by simp
  from apply_effective_thr [OF this, of self ?e] show ?thesis unfolding e by (simp add: upd_thr_def)
qed

text \<open>
  Inheritance is undone exactly.  A donation of priority \<open>p\<close> raises a thread to \<open>p\<close>
  or better; withdrawing the same donation restores the thread's donations and its
  effective priority, and neither call panics.
\<close>
theorem donation_roundtrip:
  assumes "t \<noteq> 0" "th_priority (k_thr k t) = thread_effective_priority (k_thr k t)" "th_priority (k_thr k t) < SCHED_PRIO_COUNT"
    "p < SCHED_PRIO_COUNT" "th_donations (k_thr k t) p \<noteq> 0xFFFF"
  shows "\<exists>k1 k2. thread_priority_update_donation self t SCHED_PRIO_NONE p k = Inr k1 \<and> th_priority (k_thr k1 t) \<le> p \<and>
    thread_priority_update_donation self t p SCHED_PRIO_NONE k1 = Inr k2 \<and> k_thr k2 = k_thr k"
proof -
  let ?d = "th_donations (k_thr k t)"
  let ?d1 = "?d(p := ?d p + 1)"
  have ne: "?d p + 1 \<noteq> 0" using assms(5) by (simp add: u16_inc_zero)
  obtain k1 where k1: "thread_priority_update_donation self t 64 p k = Inr k1"
    "k_thr k1 = (k_thr k)(t := (k_thr k t)\<lparr>th_donations := ?d1, th_priority := thread_effective_priority ((k_thr k t)\<lparr>th_donations := ?d1\<rparr>)\<rparr>)"
    using update_donation_thr [OF assms(1,3), of 64 p self] assms(4,5) by auto
  have le: "thread_effective_priority ((k_thr k t)\<lparr>th_donations := ?d1\<rparr>) \<le> p"
    using assms(4) ne by (intro effective_le_donation) simp_all
  have "thread_effective_priority ((k_thr k t)\<lparr>th_donations := ?d1, th_priority := q, th_donations := ?d\<rparr>) = th_priority (k_thr k t)" for q
    unfolding assms(2) by (rule effective_cong) simp_all
  moreover obtain k2 where "thread_priority_update_donation self t p 64 k1 = Inr k2"
    "k_thr k2 = (k_thr k1)(t := (k_thr k1 t)\<lparr>th_donations := ?d, th_priority := thread_effective_priority ((k_thr k1 t)\<lparr>th_donations := ?d\<rparr>)\<rparr>)"
    using update_donation_thr [OF assms(1), of k1 p 64 self] k1(2) le assms(4) ne by auto
  ultimately show ?thesis using k1 le by (intro exI [of _ k1] exI [of _ k2]) (simp add: fun_upd_idem)
qed

theorem donation_roundtrip_witness:
  "\<exists>k1 k2. thread_priority_update_donation 0 4 64 3 (kernel_example 1) = Inr k1 \<and> th_priority (k_thr k1 4) \<le> 3 \<and>
     thread_priority_update_donation 0 4 3 64 k1 = Inr k2 \<and> k_thr k2 = (\<lambda>_. thread_example)"
proof -
  have "thread_effective_priority thread_example = 32" by (simp add: effective_Min thread_example_def)
  then show ?thesis using donation_roundtrip [of 4 "kernel_example 1" 3 0]
    by (simp add: kernel_example_simps) (simp add: thread_example_def)
qed

text \<open>
  On a thread that has exited but is not yet reaped, \<open>thread_set_priority\<close> takes the node
  off the zombie queue and links it on the run queue, without adjusting either counter:
  the reaper finds an empty list under a positive count.
\<close>
lemma set_priority_requeues_zombie:
  assumes "th_target_cpu (k_thr k t) = 0" "0 < k_ncpu k" "k_cpu k 0 = Some x" "t \<noteq> 0"
    "status k t = THREAD_ZOMBIE" "th_priority (k_thr k t) = 32" "th_donations (k_thr k t) = (\<lambda>_. 0)"
    "rq_heads (cc_zombiequeue x) = (\<lambda>_. [])(32 := [t])" "rq_count (cc_zombiequeue x) = 1" "cc_runqueue x = runqueue_init"
  shows "\<exists>k' y. thread_set_priority 0 t 5 k = Inr (0, k') \<and> k_cpu k' 0 = Some y \<and>
    rq_heads (cc_runqueue y) 5 = [t] \<and> rq_count (cc_runqueue y) = 0 \<and>
    rq_heads (cc_zombiequeue y) = (\<lambda>_. []) \<and> rq_count (cc_zombiequeue y) = 1"
proof -
  have e: "thread_effective_priority (k_thr k t\<lparr>th_base_priority := 5\<rparr>) = 5"
    using assms(7) by (simp add: thread_effective_priority_def find_None_iff [THEN iffD2])
  have q: "queued t (cc_zombiequeue x)" using assms(8) by (simp add: queued_def list_ex_iff)
  show ?thesis using assms e q
    by (simp add: thread_set_priority_def thread_apply_effective_priority_def Let_def set_prio_def requeue_def
        ipi_reschedule_cpu_def rq_defs runqueue_init_def upd_thr_def fun_eq_iff)
qed


end
