(* ===== verification/Mutex.thy ===== *)
theory Mutex
  imports Thread_Prio
begin

text \<open>
  Sleeping mutexes with priority inheritance (\<open>kernel/mutex.c\<close>): the wait queue, the
  bookkeeping of the owner and of the donated priority, and the two lock protocols, raw
  (the default: an unlock frees the mutex and wakes a waiter, which competes again) and
  hand-off (an unlock passes ownership to the first waiter).  The code between
  acquiring and releasing \<open>waiters.lock\<close> is one transition; the accesses outside of it are
  single transitions of a step function, in which the threads interleave.  The state has
  \<open>n\<close> mutexes, a program counter per thread and, as ghost state, the mutexes each thread
  holds: those whose lock function has returned and which it has not yet unlocked.
\<close>

section \<open>Wait queues\<close>

record wait_queue =
  wq_head :: "tid list"
  wq_count :: u64

definition wake_up_one :: "wait_queue \<Rightarrow> kernel \<Rightarrow> int \<times> wait_queue \<times> kernel" where
  "wake_up_one wq k =
     (case wq_head wq of
        [] \<Rightarrow> (0, wq, k)
      | t # ts \<Rightarrow> (1, \<lparr>wq_head = ts, wq_count = wq_count wq - 1\<rparr>, set_status t THREAD_READY k))"

text \<open>The loop of \<open>__wake_up_all\<close> over the waiting threads; the counter and the number woken.\<close>

primrec wake_loop :: "nat \<Rightarrow> tid list \<Rightarrow> u64 \<Rightarrow> int \<Rightarrow> kernel \<Rightarrow> (int \<times> wait_queue \<times> kernel) res" where
  "wake_loop self [] cnt n k = Inr (n, \<lparr>wq_head = [], wq_count = cnt\<rparr>, k)"
| "wake_loop self (t # ts) cnt n k =
     bind_res (cpu_enqueue self (th_target_cpu (k_thr k t)) t (set_status t THREAD_READY k)) (\<lambda>k1.
       wake_loop self ts (cnt - 1) (n + 1) k1)"

definition wake_up_all :: "nat \<Rightarrow> wait_queue \<Rightarrow> kernel \<Rightarrow> (int \<times> wait_queue \<times> kernel) res" where
  "wake_up_all self wq k =
     bind_res (wake_loop self (wq_head wq) (wq_count wq) 0 k) (\<lambda>(n, wq1, k1).
       if wq_count wq1 \<noteq> 0 then Inl (Panic ''wait queue count'') else Inr (n, wq1, k1))"

section \<open>Owner and donation\<close>

record mutex =
  m_locked :: bool
  m_owner :: tid
  m_donated :: nat
  m_waiters :: wait_queue

definition mutex_init :: mutex where
  "mutex_init = \<lparr>m_locked = False, m_owner = 0, m_donated = SCHED_PRIO_NONE,
     m_waiters = \<lparr>wq_head = [], wq_count = 0\<rparr>\<rparr>"

definition mutex_waiter_priority :: "mutex \<Rightarrow> kernel \<Rightarrow> nat" where
  "mutex_waiter_priority m k =
     (case wq_head (m_waiters m) of [] \<Rightarrow> SCHED_PRIO_NONE | t # _ \<Rightarrow> th_priority (k_thr k t))"

fun mutex_add_waiter :: "(tid \<Rightarrow> nat) \<Rightarrow> tid \<Rightarrow> tid list \<Rightarrow> tid list" where
  "mutex_add_waiter prio t [] = [t]"
| "mutex_add_waiter prio t (pos # ts) =
     (if prio t < prio pos then t # pos # ts else pos # mutex_add_waiter prio t ts)"

definition mutex_refresh_donation :: "nat \<Rightarrow> mutex \<Rightarrow> kernel \<Rightarrow> (mutex \<times> kernel) res" where
  "mutex_refresh_donation self m k =
     (let new = (if m_owner m \<noteq> 0 then mutex_waiter_priority m k else SCHED_PRIO_NONE); old = m_donated m in
      if old = new then Inr (m, k)
      else bind_res (if m_owner m \<noteq> 0 then thread_priority_update_donation self (m_owner m) old new k else Inr k)
             (\<lambda>k1. Inr (m\<lparr>m_donated := new\<rparr>, k1)))"

definition mutex_attach_owner :: "nat \<Rightarrow> tid \<Rightarrow> mutex \<Rightarrow> kernel \<Rightarrow> (mutex \<times> kernel) res" where
  "mutex_attach_owner self t m k =
     mutex_refresh_donation self (m\<lparr>m_donated := SCHED_PRIO_NONE, m_owner := t\<rparr>) k"

definition mutex_detach_owner :: "nat \<Rightarrow> mutex \<Rightarrow> kernel \<Rightarrow> (mutex \<times> kernel) res" where
  "mutex_detach_owner self m k =
     bind_res (if m_owner m \<noteq> 0 \<and> m_donated m < SCHED_PRIO_COUNT
               then thread_priority_update_donation self (m_owner m) (m_donated m) SCHED_PRIO_NONE k else Inr k)
       (\<lambda>k1. Inr (m\<lparr>m_donated := SCHED_PRIO_NONE, m_owner := 0\<rparr>, k1))"

text \<open>
  Joining the wait queue: a thread that is not yet on a wait list blocks and donates.
\<close>

definition mutex_block :: "nat \<Rightarrow> tid \<Rightarrow> bool \<Rightarrow> mutex \<Rightarrow> kernel \<Rightarrow> (mutex \<times> kernel) res" where
  "mutex_block self t linked m k =
     bind_res
       (if linked then Inr (m, k)
        else let k1 = set_status t THREAD_BLOCKED k; w = m_waiters m
             in mutex_refresh_donation self
                  (m\<lparr>m_waiters := \<lparr>wq_head = mutex_add_waiter (\<lambda>u. th_priority (k_thr k1 u)) t (wq_head w),
                                    wq_count = wq_count w + 1\<rparr>\<rparr>) k1)
       (\<lambda>(m1, k2). Inr (m1, upd_thr t (\<lambda>d. d\<lparr>th_sleep_times := th_sleep_times d + 1\<rparr>) k2))"

text \<open>The locked sections of the two unlock functions.\<close>

definition mutex_unlock_raw :: "nat \<Rightarrow> mutex \<Rightarrow> kernel \<Rightarrow> (mutex \<times> kernel) res" where
  "mutex_unlock_raw self m k =
     bind_res (mutex_detach_owner self m k) (\<lambda>(m1, k1).
       let m2 = m1\<lparr>m_locked := False\<rparr> in
       if wq_head (m_waiters m2) = [] then Inr (m2, k1)
       else let (n, w, k2) = wake_up_one (m_waiters m2) k1 in Inr (m2\<lparr>m_waiters := w\<rparr>, k2))"

definition mutex_unlock_handoff :: "nat \<Rightarrow> mutex \<Rightarrow> kernel \<Rightarrow> (mutex \<times> kernel) res" where
  "mutex_unlock_handoff self m k =
     (case wq_head (m_waiters m) of
        next # _ \<Rightarrow>
          bind_res (mutex_detach_owner self m k) (\<lambda>(m1, k1).
            let (n, w, k2) = wake_up_one (m_waiters m1) k1
            in mutex_attach_owner self next (m1\<lparr>m_waiters := w\<rparr>) k2)
      | [] \<Rightarrow> bind_res (mutex_detach_owner self m k) (\<lambda>(m1, k1). Inr (m1\<lparr>m_locked := False\<rparr>, k1)))"

section \<open>Threads that lock and unlock\<close>

text \<open>
  Where a thread is in \<open>mutex_lock\<close>: before the fast path, with the flag taken and the
  owner not yet recorded, before the locked section, in \<open>schedule\<close>; for hand-off also
  between the owner test and the compare-and-exchange, and at the top of the loop.
\<close>

datatype mpc = Out | AtTry nat | AtAttach nat | AtSlow nat | Parked nat
  | AtFast nat | AtCas nat | AtLoop nat

datatype mact = Lock nat | Go | Unlock nat

record msys =
  ms_k :: kernel
  ms_mx :: "nat \<Rightarrow> mutex"
  ms_pc :: "tid \<Rightarrow> mpc"
  ms_held :: "tid \<Rightarrow> nat set"

definition ms_upd :: "nat \<Rightarrow> mutex \<Rightarrow> kernel \<Rightarrow> msys \<Rightarrow> msys" where
  "ms_upd i m k s = s\<lparr>ms_mx := (ms_mx s)(i := m), ms_k := k\<rparr>"

definition ms_goto :: "tid \<Rightarrow> mpc \<Rightarrow> msys \<Rightarrow> msys" where
  "ms_goto t p s = s\<lparr>ms_pc := (ms_pc s)(t := p)\<rparr>"

definition ms_acquired :: "tid \<Rightarrow> nat \<Rightarrow> msys \<Rightarrow> msys" where
  "ms_acquired t i s = (ms_goto t Out s)\<lparr>ms_held := (ms_held s)(t := insert i (ms_held s t))\<rparr>"

definition ms_released :: "tid \<Rightarrow> nat \<Rightarrow> msys \<Rightarrow> msys" where
  "ms_released t i s = s\<lparr>ms_held := (ms_held s)(t := ms_held s t - {i})\<rparr>"

definition on_wait_list :: "nat \<Rightarrow> tid \<Rightarrow> msys \<Rightarrow> bool" where
  "on_wait_list n t s \<longleftrightarrow> list_ex (\<lambda>i. t \<in> set (wq_head (m_waiters (ms_mx s i)))) [0..<n]"

text \<open>\<open>atomic_try_lock\<close> followed by a jump.\<close>

definition try_lock :: "tid \<Rightarrow> nat \<Rightarrow> mpc \<Rightarrow> mpc \<Rightarrow> msys \<Rightarrow> msys" where
  "try_lock t i yes no s =
     (let m = ms_mx s i in
      if m_locked m then ms_goto t no s
      else ms_goto t yes (ms_upd i (m\<lparr>m_locked := True\<rparr>) (ms_k s) s))"

definition attach_step :: "nat \<Rightarrow> tid \<Rightarrow> nat \<Rightarrow> msys \<Rightarrow> msys res" where
  "attach_step self t i s =
     bind_res (mutex_attach_owner self t (ms_mx s i) (ms_k s)) (\<lambda>(m, k). Inr (ms_acquired t i (ms_upd i m k s)))"

definition block_step :: "nat \<Rightarrow> nat \<Rightarrow> tid \<Rightarrow> nat \<Rightarrow> msys \<Rightarrow> msys res" where
  "block_step n self t i s =
     bind_res (mutex_block self t (on_wait_list n t s) (ms_mx s i) (ms_k s)) (\<lambda>(m, k).
       Inr (ms_goto t (Parked i) (ms_upd i m k s)))"

text \<open>Returning from \<open>schedule\<close>: the scheduler has chosen the thread again.\<close>

definition resume_step :: "tid \<Rightarrow> mpc \<Rightarrow> msys \<Rightarrow> msys" where
  "resume_step t p s = ms_goto t p (s\<lparr>ms_k := set_status t THREAD_RUNNING (ms_k s)\<rparr>)"

definition enabled :: "nat \<Rightarrow> tid \<Rightarrow> mact \<Rightarrow> msys \<Rightarrow> bool" where
  "enabled n t a s \<longleftrightarrow> t \<noteq> 0 \<and>
     (case a of
        Lock i \<Rightarrow> ms_pc s t = Out \<and> i < n \<and> i \<notin> ms_held s t
      | Unlock i \<Rightarrow> ms_pc s t = Out \<and> i \<in> ms_held s t
      | Go \<Rightarrow> (case ms_pc s t of Out \<Rightarrow> False | Parked i \<Rightarrow> status (ms_k s) t \<noteq> THREAD_BLOCKED | _ \<Rightarrow> True))"

text \<open>One step of \<open>mutex_lock_raw\<close> or \<open>mutex_unlock_raw\<close>.\<close>

definition raw_step :: "nat \<Rightarrow> nat \<Rightarrow> tid \<Rightarrow> mact \<Rightarrow> msys \<Rightarrow> msys res" where
  "raw_step n self t a s =
     (case a of
        Lock i \<Rightarrow> Inr (ms_goto t (AtTry i) s)
      | Unlock i \<Rightarrow>
          bind_res (mutex_unlock_raw self (ms_mx s i) (ms_k s)) (\<lambda>(m, k). Inr (ms_released t i (ms_upd i m k s)))
      | Go \<Rightarrow>
          (case ms_pc s t of
             AtTry i \<Rightarrow> Inr (try_lock t i (AtAttach i) (AtSlow i) s)
           | AtAttach i \<Rightarrow> attach_step self t i s
           | AtSlow i \<Rightarrow>
               if m_locked (ms_mx s i) then block_step n self t i s
               else attach_step self t i (ms_upd i ((ms_mx s i)\<lparr>m_locked := True\<rparr>) (ms_k s) s)
           | Parked i \<Rightarrow> Inr (resume_step t (AtTry i) s)
           | _ \<Rightarrow> Inr s))"

text \<open>One step of \<open>mutex_lock_handoff\<close> or \<open>mutex_unlock_handoff\<close>.\<close>

definition handoff_step :: "nat \<Rightarrow> nat \<Rightarrow> tid \<Rightarrow> mact \<Rightarrow> msys \<Rightarrow> msys res" where
  "handoff_step n self t a s =
     (case a of
        Lock i \<Rightarrow> Inr (ms_goto t (AtTry i) s)
      | Unlock i \<Rightarrow>
          bind_res (mutex_unlock_handoff self (ms_mx s i) (ms_k s)) (\<lambda>(m, k). Inr (ms_released t i (ms_upd i m k s)))
      | Go \<Rightarrow>
          (case ms_pc s t of
             AtTry i \<Rightarrow> Inr (if m_owner (ms_mx s i) = t then ms_acquired t i s else ms_goto t (AtFast i) s)
           | AtFast i \<Rightarrow> Inr (ms_goto t (if m_owner (ms_mx s i) = 0 then AtCas i else AtLoop i) s)
           | AtCas i \<Rightarrow> Inr (try_lock t i (AtAttach i) (AtLoop i) s)
           | AtAttach i \<Rightarrow> attach_step self t i s
           | AtLoop i \<Rightarrow> Inr (if m_owner (ms_mx s i) = t then ms_acquired t i s else ms_goto t (AtSlow i) s)
           | AtSlow i \<Rightarrow>
               if m_owner (ms_mx s i) = t then Inr (ms_acquired t i s)
               else if m_owner (ms_mx s i) = 0 \<and> \<not> m_locked (ms_mx s i)
               then attach_step self t i (ms_upd i ((ms_mx s i)\<lparr>m_locked := True\<rparr>) (ms_k s) s)
               else block_step n self t i s
           | Parked i \<Rightarrow> Inr (resume_step t (AtLoop i) s)
           | Out \<Rightarrow> Inr s))"

section \<open>Accounting of donations\<close>

definition donors :: "nat \<Rightarrow> (nat \<Rightarrow> mutex) \<Rightarrow> tid \<Rightarrow> nat \<Rightarrow> nat" where
  "donors n mx t p = (\<Sum>i<n. of_bool (m_owner (mx i) = t \<and> m_donated (mx i) = p))"

text \<open>
  Every thread's table counts, per priority, the mutexes it owns that donate it; the
  effective priority is up to date; a mutex without owner donates nothing.
\<close>

definition don_ok :: "nat \<Rightarrow> (nat \<Rightarrow> mutex) \<Rightarrow> kernel \<Rightarrow> bool" where
  "don_ok n mx k \<longleftrightarrow> n < 0xFFFF \<and>
     (\<forall>t p. t \<noteq> 0 \<and> p < 64 \<longrightarrow> unat (th_donations (k_thr k t) p) = donors n mx t p) \<and>
     (\<forall>t. th_priority (k_thr k t) = thread_effective_priority (k_thr k t) \<and> th_base_priority (k_thr k t) < 64) \<and>
     (\<forall>i<n. m_donated (mx i) \<le> 64 \<and> (m_owner (mx i) = 0 \<longrightarrow> m_donated (mx i) = 64))"

lemma donors_upd:
  assumes "i < n"
  shows "donors n (mx(i := m)) t p + of_bool (m_owner (mx i) = t \<and> m_donated (mx i) = p) =
    donors n mx t p + of_bool (m_owner m = t \<and> m_donated m = p)"
proof -
  have r: "donors n f t p = of_bool (m_owner (f i) = t \<and> m_donated (f i) = p) +
      (\<Sum>j\<in>{..<n} - {i}. of_bool (m_owner (f j) = t \<and> m_donated (f j) = p))" for f
    unfolding donors_def using assms by (intro sum.remove) auto
  have "(\<Sum>j\<in>{..<n} - {i}. of_bool (m_owner ((mx(i := m)) j) = t \<and> m_donated ((mx(i := m)) j) = p)) =
      (\<Sum>j\<in>{..<n} - {i}. of_bool (m_owner (mx j) = t \<and> m_donated (mx j) = p) :: nat)"
    by (intro sum.cong) auto
  then show ?thesis using r [of "mx(i := m)"] r [of mx] by simp
qed

lemma donors_le: "donors n mx t p \<le> n"
  unfolding donors_def using sum_bounded_above [of "{..<n}" "\<lambda>i. of_bool (m_owner (mx i) = t \<and> m_donated (mx i) = p)" "1 :: nat"] by simp

lemma don_okD:
  assumes "don_ok n mx k"
  shows "t \<noteq> 0 \<Longrightarrow> p < 64 \<Longrightarrow> unat (th_donations (k_thr k t) p) = donors n mx t p"
    "th_priority (k_thr k t) = thread_effective_priority (k_thr k t)" "th_base_priority (k_thr k t) < 64"
    "th_priority (k_thr k t) < 64" "i < n \<Longrightarrow> m_donated (mx i) \<le> 64"
    "i < n \<Longrightarrow> m_owner (mx i) = 0 \<Longrightarrow> m_donated (mx i) = 64" "n < 0xFFFF"
  using assms unfolding don_ok_def by (auto intro: le_less_trans [OF effective_le_base])

lemma unat_inc16: "(w :: u16) \<noteq> 0xFFFF \<Longrightarrow> unat (w + 1) = unat w + 1"
  by (metis Suc_eq_plus1 add.commute u16_inc_zero unatSuc)

lemma unat_dec16: "(w :: u16) \<noteq> 0 \<Longrightarrow> unat (w - 1) = unat w - 1"
  by (rule unat_minus_one)

lemma don_ok_mutex:
  assumes "don_ok n mx k" "m_owner m = m_owner (mx i)" "m_donated m = m_donated (mx i)"
  shows "don_ok n (mx(i := m)) k"
proof -
  have "m_owner ((mx(i := m)) j) = m_owner (mx j)" "m_donated ((mx(i := m)) j) = m_donated (mx j)" for j
    using assms(2,3) by auto
  then show ?thesis using assms(1) unfolding don_ok_def donors_def by simp
qed

lemma don_ok_thr:
  assumes "don_ok n mx k" "\<And>t. th_donations (k_thr k' t) = th_donations (k_thr k t)"
    "\<And>t. th_priority (k_thr k' t) = th_priority (k_thr k t)" "\<And>t. th_base_priority (k_thr k' t) = th_base_priority (k_thr k t)"
  shows "don_ok n mx k'"
proof -
  have "thread_effective_priority (k_thr k' t) = thread_effective_priority (k_thr k t)" for t
    by (rule effective_cong) (simp_all add: assms)
  then show ?thesis using assms unfolding don_ok_def by simp
qed

text \<open>The donation of a mutex of thread \<open>t\<close> changes: the tables follow, without a panic.\<close>

definition table_drop :: "(nat \<Rightarrow> u16) \<Rightarrow> nat \<Rightarrow> nat \<Rightarrow> u16" where
  "table_drop d p = (if p < 64 then d(p := d p - 1) else d)"

definition table_add :: "(nat \<Rightarrow> u16) \<Rightarrow> nat \<Rightarrow> nat \<Rightarrow> u16" where
  "table_add d p = (if p < 64 then d(p := d p + 1) else d)"

lemma donation_table:
  assumes ok: "don_ok n mx k" and i: "i < n" and t: "m_owner (mx i) = t" "t \<noteq> 0"
    and m: "m_owner m = t" "m_donated m = new"
  defines "old \<equiv> m_donated (mx i)" and "d \<equiv> th_donations (k_thr k t)"
  shows "old < 64 \<Longrightarrow> d old \<noteq> 0" "new < 64 \<Longrightarrow> table_drop d old new \<noteq> 0xFFFF"
    "p < 64 \<Longrightarrow> unat (table_add (table_drop d old) new p) = donors n (mx(i := m)) t p"
proof -
  have c: "unat (d p) = donors n mx t p" if "p < 64" for p using don_okD(1) [OF ok t(2) that] by (simp add: d_def)
  have dn: "donors n (mx(i := m)) t p + of_bool (old = p) = donors n mx t p + of_bool (new = p)" for p
    using donors_upd [OF i, of mx m t p] t(1) m by (simp add: old_def)
  have pos: "0 < donors n mx t old" if "old < 64"
    using donors_upd [OF i, of mx "m\<lparr>m_owner := 0, m_donated := 64\<rparr>" t old] that t by (simp add: old_def)
  show old: "d old \<noteq> 0" if "old < 64" using c [OF that] pos [OF that] by auto
  have c1: "unat (table_drop d old p) = donors n mx t p - of_bool (old = p)" if "p < 64" for p
    using c [OF that] old that by (auto simp: unat_dec16 table_drop_def)
  show n1: "table_drop d old new \<noteq> 0xFFFF" if "new < 64"
  proof
    assume e: "table_drop d old new = 0xFFFF"
    have "unat (table_drop d old new) < 0xFFFF"
      unfolding c1 [OF that] using donors_le [of n mx t new] don_okD(7) [OF ok] by linarith
    then show False unfolding e by simp
  qed
  show "unat (table_add (table_drop d old) new p) = donors n (mx(i := m)) t p" if "p < 64"
  proof (cases "new = p")
    case True
    then have "unat (table_add (table_drop d old) new p) = unat (table_drop d old p) + 1"
      using that n1 by (simp add: table_add_def unat_inc16)
    then show ?thesis using c1 [OF that] dn [of p] pos True that by (cases "old = p") simp_all
  next
    case False
    then show ?thesis using c1 [OF that] dn [of p] by (simp add: table_add_def)
  qed
qed

lemma don_update:
  assumes ok: "don_ok n mx k" and i: "i < n" and t: "m_owner (mx i) = t" "t \<noteq> 0"
    and m: "m_owner m = t" "m_donated m = new" and new: "new \<le> 64"
  shows "\<exists>k'. thread_priority_update_donation self t (m_donated (mx i)) new k = Inr k' \<and>
    don_ok n (mx(i := m)) k' \<and> (\<forall>u. status k' u = status k u)"
proof -
  note D = don_okD [OF ok] and T = donation_table [OF ok i t m]
  let ?dn = "table_add (table_drop (th_donations (k_thr k t)) (m_donated (mx i))) new"
  obtain k' where k': "thread_priority_update_donation self t (m_donated (mx i)) new k = Inr k'"
    "k_thr k' = (k_thr k)(t := (k_thr k t)\<lparr>th_donations := ?dn, th_priority := thread_effective_priority ((k_thr k t)\<lparr>th_donations := ?dn\<rparr>)\<rparr>)"
    using update_donation_thr [OF t(2) D(4) D(5) [OF i] new T(1) T(2) [unfolded table_drop_def], of self]
    unfolding table_drop_def table_add_def by blast
  have pr: "th_priority (k_thr k' u) = thread_effective_priority (k_thr k' u) \<and> th_base_priority (k_thr k' u) < 64" for u
  proof (cases "u = t")
    case True
    have "thread_effective_priority (k_thr k' t) = thread_effective_priority ((k_thr k t)\<lparr>th_donations := ?dn\<rparr>)"
      by (rule effective_cong) (simp_all add: k'(2))
    then show ?thesis using True D(3) by (simp add: k'(2))
  qed (simp add: k'(2) D(2,3))
  have dc: "unat (th_donations (k_thr k' u) p) = donors n (mx(i := m)) u p" if "u \<noteq> 0" "p < 64" for u p
    using T(3) [OF that(2)] D(1) [OF that] donors_upd [OF i, of mx m u p] t(1) m(1)
    by (cases "t = u") (simp_all add: k'(2))
  have "don_ok n (mx(i := m)) k'"
    unfolding don_ok_def using pr dc D(5,6,7) m new t(2) by auto
  then show ?thesis using k' by auto
qed

section \<open>The locked sections\<close>

text \<open>
  Each section runs without a panic, keeps the accounts and changes statuses only as
  stated.  \<open>m'\<close> differs from \<open>m\<close> in the fields named.
\<close>

lemma waiter_priority_le: "don_ok n mx k \<Longrightarrow> mutex_waiter_priority m k \<le> 64"
  using don_okD(4) [of n mx k] by (auto simp: mutex_waiter_priority_def less_imp_le split: list.split)

definition donation_of :: "mutex \<Rightarrow> kernel \<Rightarrow> nat" where
  "donation_of m k = (if m_owner m = 0 then 64 else mutex_waiter_priority m k)"

lemma refresh_ok:
  assumes ok: "don_ok n mx k" and i: "i < n" and m: "m_owner m = m_owner (mx i)" "m_donated m = m_donated (mx i)"
  shows "\<exists>k'. mutex_refresh_donation self m k = Inr (m\<lparr>m_donated := donation_of m k\<rparr>, k') \<and>
    don_ok n (mx(i := m\<lparr>m_donated := donation_of m k\<rparr>)) k' \<and> (\<forall>u. status k' u = status k u)"
proof (cases "m_donated m = donation_of m k")
  case True
  then have e: "m\<lparr>m_donated := donation_of m k\<rparr> = m" by simp
  have "mutex_refresh_donation self m k = Inr (m, k)"
    using True by (simp add: mutex_refresh_donation_def donation_of_def Let_def split: if_splits)
  then show ?thesis unfolding e using don_ok_mutex [OF ok m] by simp
next
  case False
  then have o: "m_owner m \<noteq> 0" using don_okD(6) [OF ok i] m by (metis donation_of_def)
  have "donation_of m k \<le> 64" using waiter_priority_le [OF ok] by (simp add: donation_of_def)
  from don_update [OF ok i _ _ _ _ this, of "m_owner m" "m\<lparr>m_donated := donation_of m k\<rparr>" self] o m
  obtain k' where "thread_priority_update_donation self (m_owner m) (m_donated m) (donation_of m k) k = Inr k'"
    "don_ok n (mx(i := m\<lparr>m_donated := donation_of m k\<rparr>)) k'" "\<forall>u. status k' u = status k u" by auto
  then show ?thesis using False o by (auto simp: mutex_refresh_donation_def donation_of_def)
qed

lemma attach_ok:
  assumes ok: "don_ok n mx k" and i: "i < n" and m: "m_owner m = 0" "m_owner (mx i) = 0" and t: "t \<noteq> 0"
  shows "\<exists>k'. mutex_attach_owner self t m k = Inr (m\<lparr>m_owner := t, m_donated := mutex_waiter_priority m k\<rparr>, k') \<and>
    don_ok n (mx(i := m\<lparr>m_owner := t, m_donated := mutex_waiter_priority m k\<rparr>)) k' \<and> (\<forall>u. status k' u = status k u)"
proof -
  let ?m = "m\<lparr>m_donated := 64, m_owner := t\<rparr>"
  have d: "m_donated (mx i) = 64" using don_okD(6) [OF ok i m(2)] .
  have dn: "donors n (mx(i := ?m)) u p = donors n mx u p" if "p < 64" for u p
    using donors_upd [OF i, of mx ?m u p] d that by simp
  have "don_ok n (mx(i := ?m)) k" using ok dn d t unfolding don_ok_def by auto
  from refresh_ok [OF this i, of ?m self] show ?thesis
    using t by (simp add: mutex_attach_owner_def donation_of_def mutex_waiter_priority_def)
qed

lemma detach_ok:
  assumes ok: "don_ok n mx k" and i: "i < n"
  shows "\<exists>k'. mutex_detach_owner self (mx i) k = Inr ((mx i)\<lparr>m_donated := 64, m_owner := 0\<rparr>, k') \<and>
    don_ok n (mx(i := (mx i)\<lparr>m_donated := 64, m_owner := 0\<rparr>)) k' \<and> (\<forall>u. status k' u = status k u)"
proof -
  let ?m = "(mx i)\<lparr>m_donated := 64\<rparr>" and ?mz = "(mx i)\<lparr>m_donated := 64, m_owner := 0\<rparr>"
  have clear: "don_ok n (f(i := ?mz)) k'" if f: "don_ok n f k'" "m_donated (f i) = 64" for f k'
  proof -
    have "donors n (f(i := ?mz)) u p = donors n f u p" if "p < 64" for u p
      using donors_upd [OF i, of f ?mz u p] f(2) that by simp
    then show ?thesis using f unfolding don_ok_def by auto
  qed
  show ?thesis
  proof (cases "m_owner (mx i) \<noteq> 0 \<and> m_donated (mx i) < 64")
    case True
    obtain k' where k': "thread_priority_update_donation self (m_owner (mx i)) (m_donated (mx i)) 64 k = Inr k'"
      "don_ok n (mx(i := ?m)) k'" "\<forall>u. status k' u = status k u"
      using don_update [of n mx k i "m_owner (mx i)" ?m 64 self] ok i True by auto
    then show ?thesis using True clear [OF k'(2)] by (auto simp: mutex_detach_owner_def)
  next
    case False
    then have "m_donated (mx i) = 64" using don_okD(5,6) [OF ok i] by force
    then show ?thesis using False clear [OF ok] by (auto simp: mutex_detach_owner_def)
  qed
qed

lemma set_status_sel [simp]:
  "k_thr (set_status t st k) = (k_thr k)(t := (k_thr k t)\<lparr>th_status := st\<rparr>)"
  by (simp add: set_status_def)

lemma don_ok_set_status: "don_ok n mx k \<Longrightarrow> don_ok n mx (set_status t st k)"
  by (rule don_ok_thr) auto

definition with_waiter :: "tid \<Rightarrow> mutex \<Rightarrow> kernel \<Rightarrow> mutex" where
  "with_waiter t m k = m\<lparr>m_waiters :=
     \<lparr>wq_head = mutex_add_waiter (\<lambda>u. th_priority (k_thr k u)) t (wq_head (m_waiters m)),
      wq_count = wq_count (m_waiters m) + 1\<rparr>\<rparr>"

lemma block_ok:
  assumes ok: "don_ok n mx k" and i: "i < n"
  shows "\<exists>d k'. mutex_block self t False (mx i) k = Inr ((with_waiter t (mx i) k)\<lparr>m_donated := d\<rparr>, k') \<and>
    d = donation_of (with_waiter t (mx i) k) k \<and>
    don_ok n (mx(i := (with_waiter t (mx i) k)\<lparr>m_donated := d\<rparr>)) k' \<and>
    (\<forall>u. status k' u = (if u = t then THREAD_BLOCKED else status k u))"
proof -
  let ?k = "set_status t THREAD_BLOCKED k" and ?m = "with_waiter t (mx i) k"
  have pr: "(\<lambda>u. th_priority (k_thr ?k u)) = (\<lambda>u. th_priority (k_thr k u))" by auto
  have d: "donation_of ?m ?k = donation_of ?m k"
    by (simp add: donation_of_def mutex_waiter_priority_def split: list.split)
  have m: "m_owner ?m = m_owner (mx i)" "m_donated ?m = m_donated (mx i)" by (simp_all add: with_waiter_def)
  obtain k1 where k1: "mutex_refresh_donation self ?m ?k = Inr (?m\<lparr>m_donated := donation_of ?m k\<rparr>, k1)"
    "don_ok n (mx(i := ?m\<lparr>m_donated := donation_of ?m k\<rparr>)) k1" "\<forall>u. status k1 u = status ?k u"
    using refresh_ok [OF don_ok_set_status [OF ok, of t THREAD_BLOCKED] i m, of self] unfolding d by blast
  let ?k' = "upd_thr t (\<lambda>d. d\<lparr>th_sleep_times := th_sleep_times d + 1\<rparr>) k1"
  have "don_ok n (mx(i := ?m\<lparr>m_donated := donation_of ?m k\<rparr>)) ?k'"
    by (rule don_ok_thr [OF k1(2)]) auto
  moreover have "mutex_block self t False (mx i) k = Inr (?m\<lparr>m_donated := donation_of ?m k\<rparr>, ?k')"
    using k1(1) pr by (simp add: mutex_block_def Let_def with_waiter_def)
  ultimately show ?thesis using k1(3) by (intro exI [of _ "donation_of ?m k"] exI [of _ ?k']) auto
qed

text \<open>A wake-up removes the first waiter and makes it ready.\<close>

definition without_first :: "mutex \<Rightarrow> mutex" where
  "without_first m = m\<lparr>m_waiters := (if wq_head (m_waiters m) = [] then m_waiters m
     else \<lparr>wq_head = tl (wq_head (m_waiters m)), wq_count = wq_count (m_waiters m) - 1\<rparr>)\<rparr>"

definition first_ready :: "mutex \<Rightarrow> kernel \<Rightarrow> tid \<Rightarrow> thread_status" where
  "first_ready m k u = (if wq_head (m_waiters m) \<noteq> [] \<and> u = hd (wq_head (m_waiters m)) then THREAD_READY else status k u)"

lemma wake_ok:
  assumes "don_ok n mx k"
  shows "\<exists>r k'. wake_up_one (m_waiters m) k = (r, m_waiters (without_first m), k') \<and> don_ok n mx k' \<and>
    (\<forall>u. status k' u = first_ready m k u)"
  using assms don_ok_set_status [OF assms]
  by (cases "wq_head (m_waiters m)") (auto simp: wake_up_one_def without_first_def first_ready_def)

lemma unlock_raw_ok:
  assumes ok: "don_ok n mx k" and i: "i < n"
  shows "\<exists>k'. mutex_unlock_raw self (mx i) k =
      Inr ((without_first (mx i))\<lparr>m_locked := False, m_owner := 0, m_donated := 64\<rparr>, k') \<and>
    don_ok n (mx(i := (without_first (mx i))\<lparr>m_locked := False, m_owner := 0, m_donated := 64\<rparr>)) k' \<and>
    (\<forall>u. status k' u = first_ready (mx i) k u)"
proof -
  let ?m = "(mx i)\<lparr>m_donated := 64, m_owner := 0\<rparr>"
  let ?r = "(without_first (mx i))\<lparr>m_locked := False, m_owner := 0, m_donated := 64\<rparr>"
  obtain k1 where k1: "mutex_detach_owner self (mx i) k = Inr (?m, k1)" "don_ok n (mx(i := ?m)) k1"
    "\<forall>u. status k1 u = status k u" using detach_ok [OF ok i] by blast
  obtain r k2 where k2: "wake_up_one (m_waiters (mx i)) k1 = (r, m_waiters (without_first (mx i)), k2)"
    "don_ok n (mx(i := ?m)) k2" "\<forall>u. status k2 u = first_ready (mx i) k1 u" using wake_ok [OF k1(2), of "mx i"] by blast
  have d: "don_ok n (mx(i := ?r)) k2" using don_ok_mutex [OF k2(2), of ?r i] by simp
  have st: "\<forall>u. status k2 u = first_ready (mx i) k u" using k2(3) k1(3) by (simp add: first_ready_def)
  have "wq_head (m_waiters (mx i)) = [] \<Longrightarrow> k2 = k1" using k2(1) by (simp add: wake_up_one_def)
  then have "mutex_unlock_raw self (mx i) k = Inr (?r, k2)"
    using k1(1) k2(1) by (auto simp: mutex_unlock_raw_def Let_def without_first_def)
  then show ?thesis using d st by blast
qed

lemma unlock_handoff_ok:
  assumes ok: "don_ok n mx k" and i: "i < n" and w: "0 \<notin> set (wq_head (m_waiters (mx i)))"
  shows "\<exists>d k'. mutex_unlock_handoff self (mx i) k =
      Inr ((without_first (mx i))\<lparr>m_locked := m_locked (mx i) \<and> wq_head (m_waiters (mx i)) \<noteq> [],
        m_owner := (if wq_head (m_waiters (mx i)) = [] then 0 else hd (wq_head (m_waiters (mx i)))), m_donated := d\<rparr>, k') \<and>
    don_ok n (mx(i := (without_first (mx i))\<lparr>m_locked := m_locked (mx i) \<and> wq_head (m_waiters (mx i)) \<noteq> [],
        m_owner := (if wq_head (m_waiters (mx i)) = [] then 0 else hd (wq_head (m_waiters (mx i)))), m_donated := d\<rparr>)) k' \<and>
    (\<forall>u. status k' u = first_ready (mx i) k u)"
proof -
  let ?m = "(mx i)\<lparr>m_donated := 64, m_owner := 0\<rparr>"
  obtain k1 where k1: "mutex_detach_owner self (mx i) k = Inr (?m, k1)" "don_ok n (mx(i := ?m)) k1"
    "\<forall>u. status k1 u = status k u" using detach_ok [OF ok i] by blast
  show ?thesis
  proof (cases "wq_head (m_waiters (mx i))")
    case Nil
    let ?f = "(mx i)\<lparr>m_locked := False, m_owner := 0, m_donated := 64\<rparr>"
    have d: "don_ok n (mx(i := ?f)) k1" using don_ok_mutex [OF k1(2), of ?f i] by simp
    show ?thesis using k1 d Nil
      by (intro exI [of _ 64] exI [of _ k1]) (simp add: mutex_unlock_handoff_def without_first_def first_ready_def)
  next
    case (Cons t ts)
    let ?w = "?m\<lparr>m_waiters := m_waiters (without_first (mx i))\<rparr>"
    obtain r k2 where k2: "wake_up_one (m_waiters (mx i)) k1 = (r, m_waiters (without_first (mx i)), k2)"
      "don_ok n (mx(i := ?m)) k2" "\<forall>u. status k2 u = first_ready (mx i) k1 u" using wake_ok [OF k1(2), of "mx i"] by blast
    have t: "t \<noteq> 0" using w Cons by auto
    obtain k3 where k3: "mutex_attach_owner self t ?w k2 = Inr (?w\<lparr>m_owner := t, m_donated := mutex_waiter_priority ?w k2\<rparr>, k3)"
      "don_ok n (mx(i := ?w\<lparr>m_owner := t, m_donated := mutex_waiter_priority ?w k2\<rparr>)) k3" "\<forall>u. status k3 u = status k2 u"
      using attach_ok [OF k2(2) i, of ?w t self] t by auto
    have e: "mutex_unlock_handoff self (mx i) k = Inr (?w\<lparr>m_owner := t, m_donated := mutex_waiter_priority ?w k2\<rparr>, k3)"
      using k1(1) k2(1) k3(1) Cons by (simp add: mutex_unlock_handoff_def)
    have st: "\<forall>u. status k3 u = first_ready (mx i) k u" using k3(3) k2(3) k1(3) by (simp add: first_ready_def)
    show ?thesis unfolding e using k3(2) st Cons
      by (intro exI [of _ "mutex_waiter_priority ?w k2"] exI [of _ k3]) (simp add: without_first_def)
  qed
qed

section \<open>The raw protocol\<close>

text \<open>
  Invariant of mutex \<open>i\<close>: the flag is set exactly while one thread is recording itself as
  owner or the owner is recorded; the wait queue holds the blocked threads of this
  mutex, each once, and its counter is right.
\<close>

definition minv :: "(tid \<Rightarrow> mpc) \<Rightarrow> (tid \<Rightarrow> thread_status) \<Rightarrow> nat \<Rightarrow> mutex \<Rightarrow> bool" where
  "minv pcs st i m \<longleftrightarrow>
     (if m_locked m
      then if m_owner m = 0 then \<exists>t. {u. pcs u = AtAttach i} = {t} else {u. pcs u = AtAttach i} = {}
      else m_owner m = 0 \<and> {u. pcs u = AtAttach i} = {}) \<and>
     distinct (wq_head (m_waiters m)) \<and>
     set (wq_head (m_waiters m)) = {u. pcs u = Parked i \<and> st u = THREAD_BLOCKED} \<and>
     wq_count (m_waiters m) = of_nat (length (wq_head (m_waiters m)))"

text \<open>
  No lost wake-up: a free mutex with waiters has a thread that is awake and about to try
  again.
\<close>

definition contenders :: "(tid \<Rightarrow> mpc) \<Rightarrow> (tid \<Rightarrow> thread_status) \<Rightarrow> nat \<Rightarrow> tid set" where
  "contenders pcs st i = {u. pcs u = AtTry i \<or> pcs u = AtSlow i \<or> pcs u = Parked i \<and> st u \<noteq> THREAD_BLOCKED}"

definition no_lost_wakeup :: "(tid \<Rightarrow> mpc) \<Rightarrow> (tid \<Rightarrow> thread_status) \<Rightarrow> nat \<Rightarrow> mutex \<Rightarrow> bool" where
  "no_lost_wakeup pcs st i m \<longleftrightarrow> wq_head (m_waiters m) = [] \<or> m_locked m \<or> contenders pcs st i \<noteq> {}"

fun raw_pc :: "nat \<Rightarrow> mpc \<Rightarrow> bool" where
  "raw_pc n Out = True"
| "raw_pc n (AtTry i) = (i < n)"
| "raw_pc n (AtAttach i) = (i < n)"
| "raw_pc n (AtSlow i) = (i < n)"
| "raw_pc n (Parked i) = (i < n)"
| "raw_pc n _ = False"

fun about :: "nat \<Rightarrow> mpc \<Rightarrow> bool" where
  "about i Out = True"
| "about i (AtTry j) = (i = j)"
| "about i (AtAttach j) = (i = j)"
| "about i (AtSlow j) = (i = j)"
| "about i (Parked j) = (i = j)"
| "about i (AtFast j) = (i = j)"
| "about i (AtCas j) = (i = j)"
| "about i (AtLoop j) = (i = j)"

definition raw_inv :: "nat \<Rightarrow> msys \<Rightarrow> bool" where
  "raw_inv n s \<longleftrightarrow> don_ok n (ms_mx s) (ms_k s) \<and>
     (\<forall>i<n. minv (ms_pc s) (status (ms_k s)) i (ms_mx s i) \<and> no_lost_wakeup (ms_pc s) (status (ms_k s)) i (ms_mx s i)) \<and>
     (\<forall>t. ms_held s t = {i. i < n \<and> t \<noteq> 0 \<and> m_owner (ms_mx s i) = t}) \<and>
     ms_pc s 0 = Out \<and> (\<forall>t. raw_pc n (ms_pc s t))"

lemma about_other: "about i p \<Longrightarrow> i \<noteq> j \<Longrightarrow> p \<noteq> AtAttach j \<and> p \<noteq> Parked j \<and> p \<noteq> AtTry j \<and> p \<noteq> AtSlow j \<and> p \<noteq> AtLoop j"
  by (cases p) auto

lemma minv_frame:
  assumes "\<And>u. (pcs' u = AtAttach j) = (pcs u = AtAttach j)"
    "\<And>u. (pcs' u = Parked j \<and> st' u = THREAD_BLOCKED) = (pcs u = Parked j \<and> st u = THREAD_BLOCKED)"
  shows "minv pcs' st' j m = minv pcs st j m"
  unfolding minv_def assms ..

text \<open>A step of one thread on one mutex: the other mutexes keep their invariant.\<close>

lemma raw_inv_step:
  assumes inv: "raw_inv n s" and t: "t \<noteq> 0" and i: "i < n" "about i (ms_pc s t)" "about i p" "raw_pc n p"
    and s': "ms_pc s' = (ms_pc s)(t := p)" "ms_mx s' = (ms_mx s)(i := m)"
      "ms_held s' = (\<lambda>u. {j. j < n \<and> u \<noteq> 0 \<and> m_owner (((ms_mx s)(i := m)) j) = u})"
    and k': "don_ok n ((ms_mx s)(i := m)) (ms_k s')"
      "\<And>u. u \<noteq> t \<Longrightarrow> ms_pc s u \<noteq> Parked i \<Longrightarrow> status (ms_k s') u = status (ms_k s) u"
    and m: "minv ((ms_pc s)(t := p)) (status (ms_k s')) i m" "no_lost_wakeup ((ms_pc s)(t := p)) (status (ms_k s')) i m"
  shows "raw_inv n s'"
proof -
  have other: "minv (ms_pc s') (status (ms_k s')) j (ms_mx s' j) \<and> no_lost_wakeup (ms_pc s') (status (ms_k s')) j (ms_mx s' j)"
    if j: "j < n" "j \<noteq> i" for j
  proof -
    note a = about_other [OF i(2), of j] about_other [OF i(3), of j]
    have pc: "(ms_pc s' u = AtAttach j) = (ms_pc s u = AtAttach j)" "(ms_pc s' u = Parked j) = (ms_pc s u = Parked j)"
      "(ms_pc s' u = AtTry j) = (ms_pc s u = AtTry j)" "(ms_pc s' u = AtSlow j) = (ms_pc s u = AtSlow j)" for u
      using a j(2) by (auto simp: s'(1))
    have st: "status (ms_k s') u = status (ms_k s) u" if "ms_pc s u = Parked j" for u
      using that a(1) j(2) by (intro k'(2)) auto
    have "contenders (ms_pc s') (status (ms_k s')) j = contenders (ms_pc s) (status (ms_k s)) j"
      unfolding contenders_def pc using st by (intro Collect_cong) auto
    moreover have "minv (ms_pc s') (status (ms_k s')) j m' = minv (ms_pc s) (status (ms_k s)) j m'" for m'
      by (rule minv_frame) (use pc st in auto)
    ultimately show ?thesis using inv j by (simp add: raw_inv_def no_lost_wakeup_def s'(2))
  qed
  have "minv (ms_pc s') (status (ms_k s')) j (ms_mx s' j) \<and> no_lost_wakeup (ms_pc s') (status (ms_k s')) j (ms_mx s' j)"
    if "j < n" for j using other that m by (cases "j = i") (simp_all add: s')
  moreover have "raw_pc n (ms_pc s' u)" for u using inv i(4) by (simp add: s'(1) raw_inv_def)
  ultimately show ?thesis using inv k'(1) t unfolding raw_inv_def by (simp add: s')
qed

lemma add_waiter_props:
  "set (mutex_add_waiter prio t ts) = insert t (set ts)" "length (mutex_add_waiter prio t ts) = Suc (length ts)"
  "distinct (mutex_add_waiter prio t ts) = (t \<notin> set ts \<and> distinct ts)" "mutex_add_waiter prio t ts \<noteq> []"
  "prio (hd (mutex_add_waiter prio t ts)) \<le> prio t"
  by (induction ts) auto

lemma raw_invD:
  assumes "raw_inv n s"
  shows "don_ok n (ms_mx s) (ms_k s)" "i < n \<Longrightarrow> minv (ms_pc s) (status (ms_k s)) i (ms_mx s i)"
    "i < n \<Longrightarrow> no_lost_wakeup (ms_pc s) (status (ms_k s)) i (ms_mx s i)"
    "ms_held s = (\<lambda>t. {i. i < n \<and> t \<noteq> 0 \<and> m_owner (ms_mx s i) = t})" "ms_pc s 0 = Out" "raw_pc n (ms_pc s t)"
  using assms by (auto simp: raw_inv_def)

lemma minvD:
  assumes "minv pcs st i m"
  shows "pcs t = AtAttach i \<Longrightarrow> m_locked m \<and> m_owner m = 0 \<and> {u. pcs u = AtAttach i} = {t}"
    "\<not> m_locked m \<Longrightarrow> m_owner m = 0 \<and> {u. pcs u = AtAttach i} = {}"
    "m_owner m \<noteq> 0 \<Longrightarrow> m_locked m \<and> {u. pcs u = AtAttach i} = {}"
    "distinct (wq_head (m_waiters m))" "set (wq_head (m_waiters m)) = {u. pcs u = Parked i \<and> st u = THREAD_BLOCKED}"
    "wq_count (m_waiters m) = of_nat (length (wq_head (m_waiters m)))"
proof -
  show "m_locked m \<and> m_owner m = 0 \<and> {u. pcs u = AtAttach i} = {t}" if "pcs t = AtAttach i"
  proof -
    have t: "t \<in> {u. pcs u = AtAttach i}" using that by simp
    then have "m_locked m \<and> m_owner m = 0" using assms unfolding minv_def by (auto split: if_splits)
    moreover then obtain v where v: "{u. pcs u = AtAttach i} = {v}" using assms by (auto simp: minv_def)
    moreover have "t = v" using t unfolding v by simp
    ultimately show ?thesis by simp
  qed
qed (use assms in \<open>auto simp: minv_def split: if_splits\<close>)

lemma attach_set_upd: "p \<noteq> AtAttach i \<Longrightarrow> pcs t \<noteq> AtAttach i \<Longrightarrow> {u. (pcs(t := p)) u = AtAttach i} = {u. pcs u = AtAttach i}"
  by auto

text \<open>Moving between places that take no part in the invariant.\<close>

lemma minv_goto:
  assumes "minv pcs st i m" "pcs t \<noteq> AtAttach i" "p \<noteq> AtAttach i" "pcs t = Parked i \<longrightarrow> st t \<noteq> THREAD_BLOCKED" "p \<noteq> Parked i"
    "\<And>u. u \<noteq> t \<Longrightarrow> st' u = st u"
  shows "minv (pcs(t := p)) st' i m"
proof -
  have "minv (pcs(t := p)) st' i m = minv pcs st i m"
    by (rule minv_frame) (use assms(2-) in auto)
  then show ?thesis using assms(1) by simp
qed

lemma raw_lock_inv:
  assumes inv: "raw_inv n s" and t: "t \<noteq> 0" "ms_pc s t = Out" and i: "i < n"
  shows "raw_inv n (ms_goto t (AtTry i) s)"
proof -
  have "minv ((ms_pc s)(t := AtTry i)) (status (ms_k s)) i (ms_mx s i)"
    by (rule minv_goto [OF raw_invD(2) [OF inv i]]) (use t in auto)
  moreover have "no_lost_wakeup ((ms_pc s)(t := AtTry i)) (status (ms_k s)) i (ms_mx s i)"
    by (auto simp: no_lost_wakeup_def contenders_def)
  ultimately show ?thesis
    using inv t i raw_invD [OF inv] by (intro raw_inv_step [OF inv t(1) i, of "AtTry i" _ "ms_mx s i"]) (auto simp: ms_goto_def)
qed

lemma raw_try_inv:
  assumes inv: "raw_inv n s" and t: "t \<noteq> 0" "ms_pc s t = AtTry i" and i: "i < n"
  shows "raw_inv n (try_lock t i (AtAttach i) (AtSlow i) s)"
proof (cases "m_locked (ms_mx s i)")
  case True
  have "minv ((ms_pc s)(t := AtSlow i)) (status (ms_k s)) i (ms_mx s i)"
    by (rule minv_goto [OF raw_invD(2) [OF inv i]]) (use t in auto)
  moreover have "no_lost_wakeup ((ms_pc s)(t := AtSlow i)) (status (ms_k s)) i (ms_mx s i)"
    using True by (simp add: no_lost_wakeup_def)
  ultimately show ?thesis
    using inv t i raw_invD [OF inv] True
    by (intro raw_inv_step [OF inv t(1) i, of "AtSlow i" _ "ms_mx s i"]) (auto simp: ms_goto_def try_lock_def)
next
  case False
  let ?m = "(ms_mx s i)\<lparr>m_locked := True\<rparr>"
  note M = minvD [OF raw_invD(2) [OF inv i]]
  have o: "m_owner (ms_mx s i) = 0" "{u. ms_pc s u = AtAttach i} = {}" using M(2) False by auto
  have "{u. ((ms_pc s)(t := AtAttach i)) u = AtAttach i} = {t}" using o(2) by auto
  moreover have "{u. ((ms_pc s)(t := AtAttach i)) u = Parked i \<and> status (ms_k s) u = THREAD_BLOCKED} =
      {u. ms_pc s u = Parked i \<and> status (ms_k s) u = THREAD_BLOCKED}" using t(2) by auto
  ultimately have "minv ((ms_pc s)(t := AtAttach i)) (status (ms_k s)) i ?m"
    unfolding minv_def using M(4-6) o(1) by simp
  moreover have "no_lost_wakeup ((ms_pc s)(t := AtAttach i)) (status (ms_k s)) i ?m" by (simp add: no_lost_wakeup_def)
  moreover have "don_ok n ((ms_mx s)(i := ?m)) (ms_k s)" by (rule don_ok_mutex [OF raw_invD(1) [OF inv]]) simp_all
  moreover have "ms_held s = (\<lambda>u. {j. j < n \<and> u \<noteq> 0 \<and> m_owner (((ms_mx s)(i := ?m)) j) = u})"
    unfolding raw_invD(4) [OF inv] by (auto simp: fun_eq_iff)
  ultimately show ?thesis
    using t i False by (intro raw_inv_step [OF inv t(1) i, of "AtAttach i" _ ?m]) (auto simp: ms_goto_def try_lock_def ms_upd_def)
qed


text \<open>The effect of the locked sections on the invariant of their mutex.\<close>

lemma minv_attach:
  assumes m: "minv pcs st i m" and t: "t \<noteq> 0" "pcs t \<noteq> Parked i"
    and a: "pcs t = AtAttach i \<or> \<not> m_locked m" and m': "m_locked m'" "m_owner m' = t" "m_waiters m' = m_waiters m"
  shows "minv (pcs(t := Out)) st i m'"
proof -
  note M = minvD [OF m]
  have "{u. pcs u = AtAttach i} - {t} = {}" using a M(1) [of t] M(2) by auto
  then have "{u. (pcs(t := Out)) u = AtAttach i} = {}" by auto
  moreover have "{u. (pcs(t := Out)) u = Parked i \<and> st u = THREAD_BLOCKED} = {u. pcs u = Parked i \<and> st u = THREAD_BLOCKED}"
    using t(2) by auto
  ultimately show ?thesis unfolding minv_def using M(4-6) m' t(1) by simp
qed

lemma minv_block:
  assumes m: "minv pcs st i m" and t: "pcs t = AtSlow i" and l: "m_locked m"
    and m': "m_locked m'" "m_owner m' = m_owner m" "wq_head (m_waiters m') = mutex_add_waiter prio t (wq_head (m_waiters m))"
      "wq_count (m_waiters m') = wq_count (m_waiters m) + 1"
    and st: "\<And>u. st' u = (if u = t then THREAD_BLOCKED else st u)"
  shows "minv (pcs(t := Parked i)) st' i m'"
proof -
  note M = minvD [OF m]
  have n: "t \<notin> set (wq_head (m_waiters m))" using t by (simp add: M(5))
  have "{u. (pcs(t := Parked i)) u = AtAttach i} = {u. pcs u = AtAttach i}" using t by auto
  moreover have "insert t (set (wq_head (m_waiters m))) = {u. (pcs(t := Parked i)) u = Parked i \<and> st' u = THREAD_BLOCKED}"
    using M(5) by (auto simp: st)
  ultimately show ?thesis using m m' l n unfolding minv_def by (simp add: add_waiter_props)
qed

lemma minv_wake:
  assumes m: "minv pcs st i m"
    and m': "m_waiters m' = m_waiters (without_first m)"
    and st: "\<And>u. st' u = (if wq_head (m_waiters m) \<noteq> [] \<and> u = hd (wq_head (m_waiters m)) then THREAD_READY else st u)"
    and l: "if m_locked m' then m_owner m' \<noteq> 0 else m_owner m' = 0" and a: "{u. pcs u = AtAttach i} = {}"
  shows "minv pcs st' i m'"
proof -
  note M = minvD [OF m]
  have w: "distinct (wq_head (m_waiters m')) \<and> set (wq_head (m_waiters m')) = {u. pcs u = Parked i \<and> st' u = THREAD_BLOCKED} \<and>
      wq_count (m_waiters m') = of_nat (length (wq_head (m_waiters m')))"
  proof (cases "wq_head (m_waiters m)")
    case Nil
    then show ?thesis using M(4-6) m' st by (simp add: without_first_def)
  next
    case (Cons w ws)
    have "set ws = {u. pcs u = Parked i \<and> st u = THREAD_BLOCKED} - {w}" using M(4,5) Cons by auto
    then have "set ws = {u. pcs u = Parked i \<and> st' u = THREAD_BLOCKED}" using Cons by (auto simp: st)
    then show ?thesis using M(4,6) m' Cons by (simp add: without_first_def)
  qed
  show ?thesis unfolding minv_def using w l a by simp
qed

lemma not_on_wait_list:
  assumes "\<And>j. j < n \<Longrightarrow> minv (ms_pc s) (status (ms_k s)) j (ms_mx s j)" "\<And>j. ms_pc s t \<noteq> Parked j"
  shows "\<not> on_wait_list n t s"
  using assms minvD(5) by (fastforce simp: on_wait_list_def list_ex_iff)


lemma held_upd:
  assumes "ms_held s = (\<lambda>t. {j. j < n \<and> t \<noteq> 0 \<and> m_owner (ms_mx s j) = t})" "i < n"
  shows "m_owner (ms_mx s i) = 0 \<Longrightarrow> m_owner m = t \<Longrightarrow> t \<noteq> 0 \<Longrightarrow>
      (ms_held s)(t := insert i (ms_held s t)) = (\<lambda>u. {j. j < n \<and> u \<noteq> 0 \<and> m_owner (((ms_mx s)(i := m)) j) = u})"
    "m_owner (ms_mx s i) = t \<Longrightarrow> m_owner m = 0 \<Longrightarrow>
      (ms_held s)(t := ms_held s t - {i}) = (\<lambda>u. {j. j < n \<and> u \<noteq> 0 \<and> m_owner (((ms_mx s)(i := m)) j) = u})"
    "m_owner m = m_owner (ms_mx s i) \<Longrightarrow>
      ms_held s = (\<lambda>u. {j. j < n \<and> u \<noteq> 0 \<and> m_owner (((ms_mx s)(i := m)) j) = u})"
  unfolding assms(1) using assms(2) by (auto simp: fun_eq_iff)

lemma raw_attach_inv:
  assumes inv: "raw_inv n s" and t: "t \<noteq> 0" and i: "i < n"
    and a: "ms_pc s t = AtAttach i \<and> m = ms_mx s i \<or> ms_pc s t = AtSlow i \<and> \<not> m_locked (ms_mx s i) \<and> m = (ms_mx s i)\<lparr>m_locked := True\<rparr>"
  shows "\<exists>s'. attach_step self t i (s\<lparr>ms_mx := (ms_mx s)(i := m)\<rparr>) = Inr s' \<and> raw_inv n s'"
proof -
  note M = minvD [OF raw_invD(2) [OF inv i]] and R = raw_invD [OF inv]
  have o: "m_owner (ms_mx s i) = 0" "m_owner m = 0" "m_locked m" "m_waiters m = m_waiters (ms_mx s i)" using a M(1) [of t] M(2) by auto
  let ?m = "m\<lparr>m_owner := t, m_donated := mutex_waiter_priority m (ms_k s)\<rparr>"
  obtain k' where k': "mutex_attach_owner self t m (ms_k s) = Inr (?m, k')" "don_ok n ((ms_mx s)(i := ?m)) k'"
    "\<forall>u. status k' u = status (ms_k s) u" using attach_ok [OF R(1) i o(2,1) t] by blast
  let ?s = "ms_acquired t i (ms_upd i ?m k' s)"
  have e: "attach_step self t i (s\<lparr>ms_mx := (ms_mx s)(i := m)\<rparr>) = Inr ?s"
    using k'(1) by (simp add: attach_step_def ms_upd_def ms_acquired_def ms_goto_def)
  have "minv ((ms_pc s)(t := Out)) (status (ms_k s)) i ?m"
    by (rule minv_attach [OF R(2) [OF i] t]) (use a o in auto)
  then have "minv ((ms_pc s)(t := Out)) (status k') i ?m" using k'(3) by simp
  moreover have "no_lost_wakeup ((ms_pc s)(t := Out)) (status k') i ?m" using o(3) by (simp add: no_lost_wakeup_def)
  moreover have "ms_held ?s = (\<lambda>u. {j. j < n \<and> u \<noteq> 0 \<and> m_owner (((ms_mx s)(i := ?m)) j) = u})"
    using held_upd(1) [OF R(4) i o(1), of ?m t] t by (simp add: ms_acquired_def ms_upd_def ms_goto_def)
  ultimately have "raw_inv n ?s"
    using a k'(2,3) by (intro raw_inv_step [OF inv t i, of Out ?s ?m]) (auto simp: ms_acquired_def ms_upd_def ms_goto_def)
  with e show ?thesis by blast
qed

lemma raw_block_inv:
  assumes inv: "raw_inv n s" and t: "t \<noteq> 0" "ms_pc s t = AtSlow i" and i: "i < n" and l: "m_locked (ms_mx s i)"
  shows "\<exists>s'. block_step n self t i s = Inr s' \<and> raw_inv n s'"
proof -
  note R = raw_invD [OF inv]
  have w: "\<not> on_wait_list n t s" by (rule not_on_wait_list [OF R(2)]) (simp_all add: t(2))
  let ?w = "with_waiter t (ms_mx s i) (ms_k s)"
  obtain d k' where k': "mutex_block self t False (ms_mx s i) (ms_k s) = Inr (?w\<lparr>m_donated := d\<rparr>, k')"
    "don_ok n ((ms_mx s)(i := ?w\<lparr>m_donated := d\<rparr>)) k'"
    "\<forall>u. status k' u = (if u = t then THREAD_BLOCKED else status (ms_k s) u)" using block_ok [OF R(1) i] by blast
  let ?m = "?w\<lparr>m_donated := d\<rparr>" and ?s = "ms_goto t (Parked i) (ms_upd i (?w\<lparr>m_donated := d\<rparr>) k' s)"
  have e: "block_step n self t i s = Inr ?s" using k'(1) w by (simp add: block_step_def)
  have "minv ((ms_pc s)(t := Parked i)) (status k') i ?m"
    by (rule minv_block [OF R(2) [OF i] t(2) l]) (use k'(3) l in \<open>simp_all add: with_waiter_def\<close>)
  moreover have "no_lost_wakeup ((ms_pc s)(t := Parked i)) (status k') i ?m" using l by (simp add: no_lost_wakeup_def with_waiter_def)
  moreover have "ms_held ?s = (\<lambda>u. {j. j < n \<and> u \<noteq> 0 \<and> m_owner (((ms_mx s)(i := ?m)) j) = u})"
    using held_upd(3) [OF R(4) i, of ?m] by (simp add: ms_upd_def ms_goto_def with_waiter_def)
  ultimately have "raw_inv n ?s"
    using t k'(2,3) i by (intro raw_inv_step [OF inv t(1) i, of "Parked i" ?s ?m]) (auto simp: ms_upd_def ms_goto_def)
  with e show ?thesis by blast
qed

lemma raw_resume_inv:
  assumes inv: "raw_inv n s" and t: "t \<noteq> 0" "ms_pc s t = Parked i" "status (ms_k s) t \<noteq> THREAD_BLOCKED" and i: "i < n"
  shows "raw_inv n (resume_step t (AtTry i) s)"
proof -
  note R = raw_invD [OF inv]
  let ?k = "set_status t THREAD_RUNNING (ms_k s)"
  have "minv ((ms_pc s)(t := AtTry i)) (status ?k) i (ms_mx s i)"
    by (rule minv_goto [OF R(2) [OF i]]) (use t in auto)
  moreover have "no_lost_wakeup ((ms_pc s)(t := AtTry i)) (status ?k) i (ms_mx s i)"
    by (auto simp: no_lost_wakeup_def contenders_def)
  ultimately show ?thesis
    using t i R don_ok_set_status [OF R(1)]
    by (intro raw_inv_step [OF inv t(1) i, of "AtTry i" _ "ms_mx s i"]) (auto simp: ms_goto_def resume_step_def)
qed

lemma raw_unlock_inv:
  assumes inv: "raw_inv n s" and t: "t \<noteq> 0" "ms_pc s t = Out" "i \<in> ms_held s t"
  shows "\<exists>s'. raw_step n self t (Unlock i) s = Inr s' \<and> raw_inv n s'"
proof -
  note R = raw_invD [OF inv]
  have i: "i < n" "m_owner (ms_mx s i) = t" using t(3) by (simp_all add: R(4))
  let ?m = "(without_first (ms_mx s i))\<lparr>m_locked := False, m_owner := 0, m_donated := 64\<rparr>"
  obtain k' where k': "mutex_unlock_raw self (ms_mx s i) (ms_k s) = Inr (?m, k')" "don_ok n ((ms_mx s)(i := ?m)) k'"
    "\<forall>u. status k' u = first_ready (ms_mx s i) (ms_k s) u" using unlock_raw_ok [OF R(1) i(1)] by blast
  let ?s = "ms_released t i (ms_upd i ?m k' s)"
  have e: "raw_step n self t (Unlock i) s = Inr ?s" using k'(1) by (simp add: raw_step_def)
  note M = minvD [OF R(2) [OF i(1)]]
  have mi: "minv (ms_pc s) (status k') i ?m"
    by (rule minv_wake [OF R(2) [OF i(1)]]) (use k'(3) M(3) i(2) t(1) in \<open>simp_all add: first_ready_def without_first_def\<close>)
  have nl: "no_lost_wakeup (ms_pc s) (status k') i ?m"
  proof (cases "wq_head (m_waiters (ms_mx s i))")
    case (Cons w ws)
    then have "ms_pc s w = Parked i" using M(5) by auto
    then have "w \<in> contenders (ms_pc s) (status k') i" using k'(3) Cons by (simp add: contenders_def first_ready_def)
    then show ?thesis by (auto simp: no_lost_wakeup_def)
  qed (simp add: no_lost_wakeup_def without_first_def)
  have h: "ms_held ?s = (\<lambda>u. {j. j < n \<and> u \<noteq> 0 \<and> m_owner (((ms_mx s)(i := ?m)) j) = u})"
    using held_upd(2) [OF R(4) i, of ?m] by (simp add: ms_released_def ms_upd_def)
  have "hd (wq_head (m_waiters (ms_mx s i))) \<in> {u. ms_pc s u = Parked i}" if "wq_head (m_waiters (ms_mx s i)) \<noteq> []"
    using M(5) hd_in_set [OF that] by blast
  then have "raw_inv n ?s"
    using t k'(2,3) mi nl h by (intro raw_inv_step [OF inv t(1) i(1), of Out ?s ?m])
      (auto simp: ms_released_def ms_upd_def first_ready_def fun_upd_idem)
  with e show ?thesis by blast
qed

lemma raw_step_inv:
  assumes inv: "raw_inv n s" and en: "enabled n t a s"
  shows "\<exists>s'. raw_step n self t a s = Inr s' \<and> raw_inv n s'"
proof (cases a)
  case (Lock i)
  then show ?thesis using en raw_lock_inv [OF inv] by (auto simp: enabled_def raw_step_def)
next
  case (Unlock i)
  then show ?thesis using en raw_unlock_inv [OF inv] by (auto simp: enabled_def)
next
  case Go
  have t: "t \<noteq> 0" using en by (simp add: enabled_def)
  have s: "s\<lparr>ms_mx := (ms_mx s)(i := ms_mx s i)\<rparr> = s" for i by simp
  show ?thesis
  proof (cases "ms_pc s t")
    case (AtAttach i)
    then show ?thesis using Go raw_attach_inv [OF inv t, of i "ms_mx s i" self] raw_invD(6) [OF inv, of t] s
      by (simp add: raw_step_def)
  next
    case (AtSlow i)
    then show ?thesis using Go raw_block_inv [OF inv t AtSlow] raw_attach_inv [OF inv t, of i "(ms_mx s i)\<lparr>m_locked := True\<rparr>" self]
        raw_invD(6) [OF inv, of t] by (auto simp: raw_step_def ms_upd_def)
  qed (use Go en raw_invD(6) [OF inv, of t] raw_try_inv [OF inv t] raw_resume_inv [OF inv t] in \<open>auto simp: raw_step_def enabled_def\<close>)
qed

section \<open>The hand-off protocol\<close>

text \<open>
  The owner either holds the mutex, or the mutex has been handed to it and it is awake
  and on its way out of the lock function.  A mutex with waiters is never free.
\<close>

definition granted_at :: "nat \<Rightarrow> mpc \<Rightarrow> thread_status \<Rightarrow> bool" where
  "granted_at i p st \<longleftrightarrow> p = AtLoop i \<or> p = AtSlow i \<or> p = Parked i \<and> st \<noteq> THREAD_BLOCKED"

definition owner_ok :: "(tid \<Rightarrow> mpc) \<Rightarrow> (tid \<Rightarrow> thread_status) \<Rightarrow> (tid \<Rightarrow> nat set) \<Rightarrow> nat \<Rightarrow> mutex \<Rightarrow> bool" where
  "owner_ok pcs st held i m \<longleftrightarrow> m_owner m = 0 \<or> i \<in> held (m_owner m) \<or> granted_at i (pcs (m_owner m)) (st (m_owner m))"

definition handoff_inv :: "nat \<Rightarrow> msys \<Rightarrow> bool" where
  "handoff_inv n s \<longleftrightarrow> don_ok n (ms_mx s) (ms_k s) \<and>
     (\<forall>i<n. minv (ms_pc s) (status (ms_k s)) i (ms_mx s i) \<and> owner_ok (ms_pc s) (status (ms_k s)) (ms_held s) i (ms_mx s i) \<and>
        (wq_head (m_waiters (ms_mx s i)) = [] \<or> m_locked (ms_mx s i))) \<and>
     (\<forall>t. ms_held s t \<subseteq> {i. i < n \<and> t \<noteq> 0 \<and> m_owner (ms_mx s i) = t}) \<and>
     ms_pc s 0 = Out \<and> (\<forall>t. ms_pc s t = Out \<or> (\<exists>i<n. about i (ms_pc s t)))"

lemma handoff_invD:
  assumes "handoff_inv n s"
  shows "don_ok n (ms_mx s) (ms_k s)" "i < n \<Longrightarrow> minv (ms_pc s) (status (ms_k s)) i (ms_mx s i)"
    "i < n \<Longrightarrow> owner_ok (ms_pc s) (status (ms_k s)) (ms_held s) i (ms_mx s i)"
    "i < n \<Longrightarrow> wq_head (m_waiters (ms_mx s i)) = [] \<or> m_locked (ms_mx s i)"
    "i \<in> ms_held s t \<Longrightarrow> i < n \<and> t \<noteq> 0 \<and> m_owner (ms_mx s i) = t" "ms_pc s 0 = Out"
    "ms_pc s t = Out \<or> (\<exists>i<n. about i (ms_pc s t))"
  using assms unfolding handoff_inv_def by blast+

lemma handoff_inv_step:
  assumes inv: "handoff_inv n s" and t: "t \<noteq> 0" and i: "i < n" "about i (ms_pc s t)" "about i p"
    and s': "ms_pc s' = (ms_pc s)(t := p)" "ms_mx s' = (ms_mx s)(i := m)"
    and h: "\<And>u j. j \<noteq> i \<Longrightarrow> (j \<in> ms_held s' u) = (j \<in> ms_held s u)" "\<And>u. i \<in> ms_held s' u \<Longrightarrow> u \<noteq> 0 \<and> m_owner m = u"
    and k': "don_ok n ((ms_mx s)(i := m)) (ms_k s')"
      "\<And>u. u \<noteq> t \<Longrightarrow> ms_pc s u \<noteq> Parked i \<Longrightarrow> status (ms_k s') u = status (ms_k s) u"
    and m: "minv ((ms_pc s)(t := p)) (status (ms_k s')) i m" "owner_ok ((ms_pc s)(t := p)) (status (ms_k s')) (ms_held s') i m"
      "wq_head (m_waiters m) = [] \<or> m_locked m"
  shows "handoff_inv n s'"
proof -
  have other: "minv (ms_pc s') (status (ms_k s')) j (ms_mx s j) \<and> owner_ok (ms_pc s') (status (ms_k s')) (ms_held s') j (ms_mx s j)"
    if j: "j < n" "j \<noteq> i" for j
  proof -
    note a = about_other [OF i(2), of j] about_other [OF i(3), of j]
    have pc: "(ms_pc s' u = AtAttach j) = (ms_pc s u = AtAttach j)" "(ms_pc s' u = Parked j) = (ms_pc s u = Parked j)"
      "(ms_pc s' u = AtLoop j) = (ms_pc s u = AtLoop j)" "(ms_pc s' u = AtSlow j) = (ms_pc s u = AtSlow j)" for u
      using a j(2) by (auto simp: s'(1))
    have st: "status (ms_k s') u = status (ms_k s) u" if "ms_pc s u = Parked j" for u
      using that a(1) j(2) by (intro k'(2)) auto
    have "granted_at j (ms_pc s' u) (status (ms_k s') u) = granted_at j (ms_pc s u) (status (ms_k s) u)" for u
      unfolding granted_at_def pc using st by auto
    then have "owner_ok (ms_pc s') (status (ms_k s')) (ms_held s') j (ms_mx s j)"
      using handoff_invD(3) [OF inv j(1)] h(1) [OF j(2)] by (simp add: owner_ok_def)
    moreover have "minv (ms_pc s') (status (ms_k s')) j (ms_mx s j) = minv (ms_pc s) (status (ms_k s)) j (ms_mx s j)"
      by (rule minv_frame) (use pc st in auto)
    ultimately show ?thesis using handoff_invD(2) [OF inv j(1)] by simp
  qed
  have all: "minv (ms_pc s') (status (ms_k s')) j (ms_mx s' j) \<and> owner_ok (ms_pc s') (status (ms_k s')) (ms_held s') j (ms_mx s' j) \<and>
      (wq_head (m_waiters (ms_mx s' j)) = [] \<or> m_locked (ms_mx s' j))" if "j < n" for j
    using other that m handoff_invD(4) [OF inv] by (cases "j = i") (simp_all add: s')
  have held: "j < n \<and> u \<noteq> 0 \<and> m_owner (ms_mx s' j) = u" if "j \<in> ms_held s' u" for j u
    using that h handoff_invD(5) [OF inv] i(1) by (cases "j = i") (auto simp: s'(2))
  have "ms_held s' u \<subseteq> {j. j < n \<and> u \<noteq> 0 \<and> m_owner (ms_mx s' j) = u}" for u using held by blast
  moreover have "ms_pc s' u = Out \<or> (\<exists>j<n. about j (ms_pc s' u))" for u
    using handoff_invD(7) [OF inv, of u] i(1,3) by (auto simp: s'(1))
  moreover have "don_ok n (ms_mx s') (ms_k s')" "ms_pc s' 0 = Out" using k'(1) t handoff_invD(6) [OF inv] by (simp_all add: s')
  ultimately show ?thesis unfolding handoff_inv_def using all by blast
qed

text \<open>Steps that only move: the mutex and the holders stay as they are.\<close>

lemma handoff_goto_inv:
  assumes inv: "handoff_inv n s" and t: "t \<noteq> 0" and i: "i < n" "about i (ms_pc s t)" "about i p"
    and p: "ms_pc s t \<noteq> AtAttach i" "p \<noteq> AtAttach i" "p \<noteq> Parked i" "ms_pc s t = Parked i \<longrightarrow> status (ms_k s) t \<noteq> THREAD_BLOCKED"
    and g: "m_owner (ms_mx s i) = t \<Longrightarrow> granted_at i (ms_pc s t) (status (ms_k s) t) \<Longrightarrow> p = AtLoop i"
    and k: "k = ms_k s \<or> k = set_status t THREAD_RUNNING (ms_k s)"
  shows "handoff_inv n (ms_goto t p (s\<lparr>ms_k := k\<rparr>))"
proof -
  note R = handoff_invD [OF inv]
  have st: "status k u = status (ms_k s) u" if "u \<noteq> t" for u using k that by auto
  have d: "don_ok n (ms_mx s) k" using k R(1) don_ok_set_status by auto
  have "minv ((ms_pc s)(t := p)) (status k) i (ms_mx s i)" by (rule minv_goto [OF R(2) [OF i(1)]]) (use p st in auto)
  moreover have "owner_ok ((ms_pc s)(t := p)) (status k) (ms_held s) i (ms_mx s i)"
  proof (cases "m_owner (ms_mx s i) = t")
    case True
    then show ?thesis using R(3) [OF i(1)] g [OF True] by (auto simp: owner_ok_def granted_at_def)
  next
    case False
    then show ?thesis using R(3) [OF i(1)] st by (simp add: owner_ok_def)
  qed
  ultimately show ?thesis using i R(4) [OF i(1)] R(5) st d
    by (intro handoff_inv_step [OF inv t i, of _ "ms_mx s i"]) (auto simp: ms_goto_def)
qed


lemma handoff_acquired_inv:
  assumes inv: "handoff_inv n s" and t: "t \<noteq> 0" and i: "i < n" "about i (ms_pc s t)"
    and o: "m_owner (ms_mx s i) = t" and p: "ms_pc s t \<noteq> Parked i"
  shows "handoff_inv n (ms_acquired t i s)"
proof -
  note R = handoff_invD [OF inv]
  have a: "ms_pc s t \<noteq> AtAttach i" using minvD(1) [OF R(2) [OF i(1)], of t] o t by auto
  have "minv ((ms_pc s)(t := Out)) (status (ms_k s)) i (ms_mx s i)" by (rule minv_goto [OF R(2) [OF i(1)]]) (use a p in auto)
  moreover have "don_ok n ((ms_mx s)(i := ms_mx s i)) (ms_k s)" using R(1) by simp
  ultimately show ?thesis using i R(4) [OF i(1)] R(5) o t
    by (intro handoff_inv_step [OF inv t i, of Out _ "ms_mx s i"]) (auto simp: ms_goto_def ms_acquired_def owner_ok_def split: if_splits)
qed

lemma handoff_cas_inv:
  assumes inv: "handoff_inv n s" and t: "t \<noteq> 0" "ms_pc s t = AtCas i" and i: "i < n"
  shows "handoff_inv n (try_lock t i (AtAttach i) (AtLoop i) s)"
proof (cases "m_locked (ms_mx s i)")
  case True
  then show ?thesis using handoff_goto_inv [OF inv t(1) i, of "AtLoop i" "ms_k s"] t(2) by (simp add: try_lock_def)
next
  case False
  let ?m = "(ms_mx s i)\<lparr>m_locked := True\<rparr>"
  note R = handoff_invD [OF inv] and M = minvD [OF handoff_invD(2) [OF inv i]]
  have o: "m_owner (ms_mx s i) = 0" "{u. ms_pc s u = AtAttach i} = {}" using M(2) False by auto
  have "{u. ((ms_pc s)(t := AtAttach i)) u = AtAttach i} = {t}" using o(2) by auto
  moreover have "{u. ((ms_pc s)(t := AtAttach i)) u = Parked i \<and> status (ms_k s) u = THREAD_BLOCKED} =
      {u. ms_pc s u = Parked i \<and> status (ms_k s) u = THREAD_BLOCKED}" using t(2) by auto
  ultimately have "minv ((ms_pc s)(t := AtAttach i)) (status (ms_k s)) i ?m"
    unfolding minv_def using M(4-6) o(1) by simp
  moreover have "don_ok n ((ms_mx s)(i := ?m)) (ms_k s)" by (rule don_ok_mutex [OF R(1)]) simp_all
  ultimately show ?thesis using t i False R(5) o
    by (intro handoff_inv_step [OF inv t(1) i, of "AtAttach i" _ ?m])
      (auto simp: ms_goto_def try_lock_def ms_upd_def owner_ok_def Let_def)
qed

lemma handoff_attach_inv:
  assumes inv: "handoff_inv n s" and t: "t \<noteq> 0" and i: "i < n"
    and a: "ms_pc s t = AtAttach i \<and> m = ms_mx s i \<or> ms_pc s t = AtSlow i \<and> \<not> m_locked (ms_mx s i) \<and> m = (ms_mx s i)\<lparr>m_locked := True\<rparr>"
  shows "\<exists>s'. attach_step self t i (s\<lparr>ms_mx := (ms_mx s)(i := m)\<rparr>) = Inr s' \<and> handoff_inv n s'"
proof -
  note R = handoff_invD [OF inv] and M = minvD [OF handoff_invD(2) [OF inv i]]
  have o: "m_owner (ms_mx s i) = 0" "m_owner m = 0" "m_locked m" "m_waiters m = m_waiters (ms_mx s i)" using a M(1) [of t] M(2) by auto
  let ?m = "m\<lparr>m_owner := t, m_donated := mutex_waiter_priority m (ms_k s)\<rparr>"
  obtain k' where k': "mutex_attach_owner self t m (ms_k s) = Inr (?m, k')" "don_ok n ((ms_mx s)(i := ?m)) k'"
    "\<forall>u. status k' u = status (ms_k s) u" using attach_ok [OF R(1) i o(2,1) t] by blast
  let ?s = "ms_acquired t i (ms_upd i ?m k' s)"
  have e: "attach_step self t i (s\<lparr>ms_mx := (ms_mx s)(i := m)\<rparr>) = Inr ?s"
    using k'(1) by (simp add: attach_step_def ms_upd_def ms_acquired_def ms_goto_def)
  have "minv ((ms_pc s)(t := Out)) (status (ms_k s)) i ?m"
    by (rule minv_attach [OF R(2) [OF i] t]) (use a o in auto)
  then have mi: "minv ((ms_pc s)(t := Out)) (status k') i ?m" using k'(3) by simp
  have nh: "i \<notin> ms_held s u" for u using R(5) o(1) by blast
  have "handoff_inv n ?s"
    by (rule handoff_inv_step [OF inv t i, of Out ?s ?m])
      (use a k'(2,3) mi o(3) t nh in \<open>auto simp: ms_acquired_def ms_upd_def ms_goto_def owner_ok_def split: if_splits\<close>)
  with e show ?thesis by blast
qed

lemma handoff_block_inv:
  assumes inv: "handoff_inv n s" and t: "t \<noteq> 0" "ms_pc s t = AtSlow i" and i: "i < n"
    and o: "m_owner (ms_mx s i) \<noteq> t" "\<not> (m_owner (ms_mx s i) = 0 \<and> \<not> m_locked (ms_mx s i))"
  shows "\<exists>s'. block_step n self t i s = Inr s' \<and> handoff_inv n s'"
proof -
  note R = handoff_invD [OF inv]
  have l: "m_locked (ms_mx s i)" using o(2) minvD(2) [OF R(2) [OF i]] by blast
  have w: "\<not> on_wait_list n t s" by (rule not_on_wait_list [OF R(2)]) (simp_all add: t(2))
  let ?w = "with_waiter t (ms_mx s i) (ms_k s)"
  obtain d k' where k': "mutex_block self t False (ms_mx s i) (ms_k s) = Inr (?w\<lparr>m_donated := d\<rparr>, k')"
    "don_ok n ((ms_mx s)(i := ?w\<lparr>m_donated := d\<rparr>)) k'"
    "\<forall>u. status k' u = (if u = t then THREAD_BLOCKED else status (ms_k s) u)" using block_ok [OF R(1) i] by blast
  let ?m = "?w\<lparr>m_donated := d\<rparr>" and ?s = "ms_goto t (Parked i) (ms_upd i (?w\<lparr>m_donated := d\<rparr>) k' s)"
  have e: "block_step n self t i s = Inr ?s" using k'(1) w by (simp add: block_step_def)
  have mi: "minv ((ms_pc s)(t := Parked i)) (status k') i ?m"
    by (rule minv_block [OF R(2) [OF i] t(2) l]) (use k'(3) l in \<open>simp_all add: with_waiter_def\<close>)
  have oi: "owner_ok ((ms_pc s)(t := Parked i)) (status k') (ms_held s) i ?m"
    using R(3) [OF i] o(1) k'(3) by (simp add: owner_ok_def with_waiter_def)
  have "handoff_inv n ?s"
    by (rule handoff_inv_step [OF inv t(1) i, of "Parked i" ?s ?m])
      (use t k'(2,3) mi oi l R(5) in \<open>auto simp: ms_upd_def ms_goto_def with_waiter_def\<close>)
  with e show ?thesis by blast
qed

lemma handoff_unlock_inv:
  assumes inv: "handoff_inv n s" and t: "t \<noteq> 0" "ms_pc s t = Out" "i \<in> ms_held s t"
  shows "\<exists>s'. handoff_step n self t (Unlock i) s = Inr s' \<and> handoff_inv n s' \<and>
    (let ws = wq_head (m_waiters (ms_mx s i)) in m_owner (ms_mx s' i) = (if ws = [] then 0 else hd ws))"
proof -
  note R = handoff_invD [OF inv]
  have i: "i < n" "m_owner (ms_mx s i) = t" using R(5) [OF t(3)] by auto
  note M = minvD [OF R(2) [OF i(1)]]
  let ?ws = "wq_head (m_waiters (ms_mx s i))"
  have l: "m_locked (ms_mx s i)" "{u. ms_pc s u = AtAttach i} = {}" using M(3) i(2) t(1) by auto
  have w: "ms_pc s u = Parked i" if "u \<in> set ?ws" for u using M(5) that by auto
  have z: "0 \<notin> set ?ws" using w [of 0] R(6) by auto
  obtain d k' where k': "mutex_unlock_handoff self (ms_mx s i) (ms_k s) =
      Inr ((without_first (ms_mx s i))\<lparr>m_locked := m_locked (ms_mx s i) \<and> ?ws \<noteq> [], m_owner := (if ?ws = [] then 0 else hd ?ws), m_donated := d\<rparr>, k')"
    "don_ok n ((ms_mx s)(i := (without_first (ms_mx s i))\<lparr>m_locked := m_locked (ms_mx s i) \<and> ?ws \<noteq> [],
        m_owner := (if ?ws = [] then 0 else hd ?ws), m_donated := d\<rparr>)) k'"
    "\<forall>u. status k' u = first_ready (ms_mx s i) (ms_k s) u" using unlock_handoff_ok [OF R(1) i(1) z] by blast
  define m where "m = (without_first (ms_mx s i))\<lparr>m_locked := m_locked (ms_mx s i) \<and> ?ws \<noteq> [],
    m_owner := (if ?ws = [] then 0 else hd ?ws), m_donated := d\<rparr>"
  let ?s = "ms_released t i (ms_upd i m k' s)"
  have e: "handoff_step n self t (Unlock i) s = Inr ?s" using k'(1) by (simp add: handoff_step_def m_def)
  have h0: "hd ?ws \<noteq> 0 \<and> ms_pc s (hd ?ws) = Parked i" if "?ws \<noteq> []" using z w hd_in_set [OF that] by metis
  have mi: "minv (ms_pc s) (status k') i m"
    by (rule minv_wake [OF R(2) [OF i(1)]]) (use k'(3) l h0 in \<open>simp_all add: first_ready_def without_first_def m_def\<close>)
  have oi: "owner_ok (ms_pc s) (status k') (ms_held ?s) i m"
    using h0 k'(3) by (auto simp: owner_ok_def granted_at_def m_def first_ready_def)
  have sel: "ms_pc ?s = ms_pc s" "ms_mx ?s = (ms_mx s)(i := m)" "ms_k ?s = k'" "ms_held ?s = (ms_held s)(t := ms_held s t - {i})"
    by (simp_all add: ms_released_def ms_upd_def)
  have "(ms_pc s)(t := Out) = ms_pc s" using t(2) by (simp add: fun_upd_idem)
  moreover have "(j \<in> ms_held ?s u) = (j \<in> ms_held s u)" if "j \<noteq> i" for j u using that by (simp add: sel(4))
  moreover have "i \<notin> ms_held ?s u" for u using R(5) [of i u] i(2) by (cases "u = t") (auto simp: sel(4))
  moreover have "status k' u = status (ms_k s) u" if "ms_pc s u \<noteq> Parked i" for u
    using k'(3) h0 that by (auto simp: first_ready_def)
  moreover have "wq_head (m_waiters m) = [] \<or> m_locked m" using l(1) by (simp add: m_def without_first_def)
  moreover have "don_ok n ((ms_mx s)(i := m)) k'" using k'(2) by (simp add: m_def)
  ultimately have "handoff_inv n ?s"
    using mi oi t(2) by (intro handoff_inv_step [OF inv t(1) i(1), of Out ?s m]) (simp_all add: sel(1-3))
  moreover have "m_owner m = (if ?ws = [] then 0 else hd ?ws)" by (simp add: m_def)
  then have "m_owner (ms_mx ?s i) = (if ?ws = [] then 0 else hd ?ws)" by (simp only: sel(2) fun_upd_same)
  ultimately show ?thesis using e by (simp add: Let_def)
qed

lemma handoff_step_inv:
  assumes inv: "handoff_inv n s" and en: "enabled n t a s"
  shows "\<exists>s'. handoff_step n self t a s = Inr s' \<and> handoff_inv n s'"
proof (cases a)
  case (Lock i)
  then have "handoff_inv n (ms_goto t (AtTry i) (s\<lparr>ms_k := ms_k s\<rparr>))"
    using en by (intro handoff_goto_inv [OF inv]) (auto simp: enabled_def granted_at_def)
  then show ?thesis using Lock by (simp add: handoff_step_def)
next
  case (Unlock i)
  then show ?thesis using en handoff_unlock_inv [OF inv, of t i self] by (auto simp: enabled_def)
next
  case Go
  have t: "t \<noteq> 0" using en by (simp add: enabled_def)
  have s: "s\<lparr>ms_mx := (ms_mx s)(i := ms_mx s i)\<rparr> = s" "s\<lparr>ms_k := ms_k s\<rparr> = s" for i by simp_all
  have r: "ms_pc s t \<noteq> Out \<Longrightarrow> \<exists>i<n. about i (ms_pc s t)" using handoff_invD(7) [OF inv] by blast
  note goto = handoff_goto_inv [OF inv t, where k = "ms_k s", simplified s] and acq = handoff_acquired_inv [OF inv t]
  show ?thesis
  proof (cases "ms_pc s t")
    case Out
    then show ?thesis using en Go by (simp add: enabled_def)
  next
    case (AtTry i)
    then show ?thesis using Go goto [of i "AtFast i"] acq [of i] r by (simp add: handoff_step_def granted_at_def)
  next
    case (AtFast i)
    then show ?thesis using Go goto [of i "AtCas i"] goto [of i "AtLoop i"] r by (simp add: handoff_step_def granted_at_def)
  next
    case (AtCas i)
    then show ?thesis using Go handoff_cas_inv [OF inv t] r by (simp add: handoff_step_def)
  next
    case (AtAttach i)
    then show ?thesis using Go handoff_attach_inv [OF inv t, of i "ms_mx s i" self] r s by (simp add: handoff_step_def)
  next
    case (AtLoop i)
    then show ?thesis using Go goto [of i "AtSlow i"] acq [of i] r by (simp add: handoff_step_def)
  next
    case (AtSlow i)
    then show ?thesis using Go acq [of i] handoff_block_inv [OF inv t AtSlow]
        handoff_attach_inv [OF inv t, of i "(ms_mx s i)\<lparr>m_locked := True\<rparr>" self] r
      by (auto simp: handoff_step_def ms_upd_def)
  next
    case (Parked i)
    then have "handoff_inv n (ms_goto t (AtLoop i) (s\<lparr>ms_k := set_status t THREAD_RUNNING (ms_k s)\<rparr>))"
      using en Go r by (intro handoff_goto_inv [OF inv t]) (auto simp: enabled_def)
    then show ?thesis using Go Parked by (simp add: handoff_step_def resume_step_def)
  qed
qed

section \<open>Properties\<close>

text \<open>
  The reachable states: \<open>n\<close> mutexes just initialised, threads without donations outside
  of all lock functions, then any enabled steps of any threads on any CPUs.
\<close>

definition fresh_prio :: "kernel \<Rightarrow> bool" where
  "fresh_prio k \<longleftrightarrow> (\<forall>t. th_donations (k_thr k t) = (\<lambda>_. 0) \<and> th_priority (k_thr k t) = th_base_priority (k_thr k t) \<and>
     th_base_priority (k_thr k t) < SCHED_PRIO_COUNT)"

definition mstart :: "kernel \<Rightarrow> msys" where
  "mstart k = \<lparr>ms_k = k, ms_mx = (\<lambda>_. mutex_init), ms_pc = (\<lambda>_. Out), ms_held = (\<lambda>_. {})\<rparr>"

definition mutex_step :: "bool \<Rightarrow> nat \<Rightarrow> nat \<Rightarrow> tid \<Rightarrow> mact \<Rightarrow> msys \<Rightarrow> msys res" where
  "mutex_step handoff n self t a s = (if handoff then handoff_step n self t a s else raw_step n self t a s)"

inductive mreach :: "bool \<Rightarrow> nat \<Rightarrow> msys \<Rightarrow> bool" for handoff n where
  start: "fresh_prio k \<Longrightarrow> n < 0xFFFF \<Longrightarrow> mreach handoff n (mstart k)"
| step: "mreach handoff n s \<Longrightarrow> enabled n t a s \<Longrightarrow> mutex_step handoff n self t a s = Inr s' \<Longrightarrow> mreach handoff n s'"

lemma fresh_effective: "fresh_prio k \<Longrightarrow> thread_effective_priority (k_thr k t) = th_priority (k_thr k t)"
  by (simp add: fresh_prio_def effective_Min)

lemma start_don_ok: "fresh_prio k \<Longrightarrow> n < 0xFFFF \<Longrightarrow> don_ok n (\<lambda>_. mutex_init) k"
  unfolding don_ok_def using fresh_effective by (auto simp: fresh_prio_def donors_def mutex_init_def)

lemma start_minv: "minv (\<lambda>_. Out) st i mutex_init"
  by (simp add: minv_def mutex_init_def)

lemma raw_reach_inv: "mreach False n s \<Longrightarrow> raw_inv n s"
proof (induction rule: mreach.induct)
  case (start k)
  then show ?case using start_don_ok [of k n] start_minv
    by (simp add: raw_inv_def mstart_def no_lost_wakeup_def) (auto simp: mutex_init_def)
next
  case (step s t a self s')
  then show ?case using raw_step_inv [OF step.IH step.hyps(2), of self] by (simp add: mutex_step_def)
qed

lemma handoff_reach_inv: "mreach True n s \<Longrightarrow> handoff_inv n s"
proof (induction rule: mreach.induct)
  case (start k)
  then show ?case using start_don_ok [of k n] start_minv
    by (simp add: handoff_inv_def mstart_def owner_ok_def) (simp add: mutex_init_def)
next
  case (step s t a self s')
  then show ?case using handoff_step_inv [OF step.IH step.hyps(2), of self] by (simp add: mutex_step_def)
qed



text \<open>
  (C24) The raw mutex.  In every reachable state, whatever the interleaving: at most one
  thread holds a mutex; every enabled step completes without a panic, so the
  bookkeeping of donated priorities neither underflows nor overflows; and no wake-up is
  lost, that is, while threads wait for a mutex it is taken, or some thread is awake and
  about to try it again.
\<close>
theorem mutex_raw_correct:
  assumes "mreach False n s" "i < n"
  shows "(i \<in> ms_held s t \<and> i \<in> ms_held s u \<longrightarrow> t = u) \<and>
    (enabled n t a s \<longrightarrow> (\<exists>s'. raw_step n self t a s = Inr s')) \<and>
    (wq_head (m_waiters (ms_mx s i)) \<noteq> [] \<longrightarrow> m_locked (ms_mx s i) \<or> contenders (ms_pc s) (status (ms_k s)) i \<noteq> {})"
proof -
  note inv = raw_reach_inv [OF assms(1)]
  have "i \<in> ms_held s t \<and> i \<in> ms_held s u \<longrightarrow> t = u" unfolding raw_invD(4) [OF inv] by blast
  moreover have "enabled n t a s \<longrightarrow> (\<exists>s'. raw_step n self t a s = Inr s')" using raw_step_inv [OF inv] by blast
  ultimately show ?thesis using raw_invD(3) [OF inv assms(2)] by (auto simp: no_lost_wakeup_def)
qed

text \<open>
  (C25) The hand-off mutex.  In every reachable state at most one thread holds a mutex,
  every enabled step completes without a panic, and a mutex for which threads wait is
  never free, so no newcomer can overtake them.  An unlock makes the first waiter the
  owner, or nobody if there is none.
\<close>
theorem mutex_handoff_correct:
  assumes "mreach True n s" "i < n"
  shows "(i \<in> ms_held s t \<and> i \<in> ms_held s u \<longrightarrow> t = u) \<and>
    (enabled n t a s \<longrightarrow> (\<exists>s'. handoff_step n self t a s = Inr s')) \<and>
    (wq_head (m_waiters (ms_mx s i)) \<noteq> [] \<longrightarrow> m_locked (ms_mx s i)) \<and>
    (enabled n t (Unlock i) s \<longrightarrow> (\<exists>s'. handoff_step n self t (Unlock i) s = Inr s' \<and>
      m_owner (ms_mx s' i) = (case wq_head (m_waiters (ms_mx s i)) of [] \<Rightarrow> 0 | w # _ \<Rightarrow> w)))"
proof -
  note inv = handoff_reach_inv [OF assms(1)]
  have "t = u" if "i \<in> ms_held s t \<and> i \<in> ms_held s u" using handoff_invD(5) [OF inv] that by metis
  moreover have "enabled n t a s \<longrightarrow> (\<exists>s'. handoff_step n self t a s = Inr s')" using handoff_step_inv [OF inv] by blast
  moreover have "\<exists>s'. handoff_step n self t (Unlock i) s = Inr s' \<and>
      m_owner (ms_mx s' i) = (case wq_head (m_waiters (ms_mx s i)) of [] \<Rightarrow> 0 | w # _ \<Rightarrow> w)" if "enabled n t (Unlock i) s"
    using handoff_unlock_inv [OF inv, of t i self] that by (auto simp: enabled_def Let_def split: list.split)
  ultimately show ?thesis using handoff_invD(4) [OF inv assms(2)] by blast
qed



text \<open>
  \<open>wake_up_all\<close> puts a waiter on its run queue although it never left it: a thread that is
  on its run queue while it waits, as every blocked thread is, ends up linked twice.
\<close>
lemma wake_up_all_links_twice:
  assumes "k_cpu k 0 = Some x" "th_target_cpu (k_thr k t) = 0" "th_priority (k_thr k t) = 32"
    "rq_heads (cc_runqueue x) 32 = [t]"
  shows "\<exists>wq k' y. wake_up_all 0 \<lparr>wq_head = [t], wq_count = 1\<rparr> k = Inr (1, wq, k') \<and> k_cpu k' 0 = Some y \<and>
    rq_heads (cc_runqueue y) 32 = [t, t]"
  using assms
  by (simp add: wake_up_all_def cpu_enqueue_def cpu_queue_check_def with_ctx_def Let_def ipi_reschedule_cpu_def
      runqueue_enqueue_raw_def rq_defs set_status_def)


text \<open>One mutex that thread 4 has locked.\<close>

definition mutex_example :: msys where
  "mutex_example = (mstart (kernel_example 1))\<lparr>ms_mx := (\<lambda>_. mutex_init)(0 := mutex_init\<lparr>m_locked := True, m_owner := 4\<rparr>),
     ms_pc := (\<lambda>_. Out)(4 := Out), ms_held := (\<lambda>_. {})(4 := {0})\<rparr>"

lemma mutex_example_start: "mreach h 1 (mstart (kernel_example 1))"
  by (rule mreach.start) (simp_all add: fresh_prio_def kernel_example_simps thread_example_def)

lemma mutex_example_reach: "mreach False 1 mutex_example"
proof -
  let ?k = "kernel_example 1" and ?m = "mutex_init\<lparr>m_locked := True\<rparr>"
  let ?a = "(mstart ?k)\<lparr>ms_pc := (\<lambda>_. Out)(4 := AtTry 0)\<rparr>"
  let ?b = "(mstart ?k)\<lparr>ms_pc := (\<lambda>_. Out)(4 := AtAttach 0), ms_mx := (\<lambda>_. mutex_init)(0 := ?m)\<rparr>"
  have a: "mreach False 1 ?a"
    by (rule mreach.step [OF mutex_example_start, where t = 4 and a = "Lock 0" and self = 0])
      (simp_all add: mstart_def enabled_def mutex_step_def raw_step_def ms_goto_def)
  have b: "mreach False 1 ?b"
    by (rule mreach.step [OF a, where t = 4 and a = Go and self = 0])
      (simp_all add: mstart_def enabled_def mutex_step_def raw_step_def ms_goto_def try_lock_def ms_upd_def mutex_init_def)
  show ?thesis
    by (rule mreach.step [OF b, where t = 4 and a = Go and self = 0])
      (simp_all add: mstart_def enabled_def mutex_step_def raw_step_def attach_step_def mutex_attach_owner_def
        mutex_refresh_donation_def mutex_waiter_priority_def ms_acquired_def ms_goto_def ms_upd_def mutex_init_def mutex_example_def)
qed

theorem mutex_raw_correct_witness:
  "0 \<notin> ms_held mutex_example 5 \<and> (\<exists>s'. raw_step 1 0 4 (Unlock 0) mutex_example = Inr s')"
proof -
  have "enabled 1 4 (Unlock 0) mutex_example" "0 \<in> ms_held mutex_example 4" by (simp_all add: enabled_def mutex_example_def)
  then show ?thesis using mutex_raw_correct [OF mutex_example_reach, of 0 4 5 "Unlock 0" 0] by simp
qed

theorem mutex_handoff_correct_witness:
  "\<exists>s'. handoff_step 1 0 4 (Lock 0) (mstart (kernel_example 1)) = Inr s'"
proof -
  have "enabled 1 4 (Lock 0) (mstart (kernel_example 1))" by (simp add: enabled_def mstart_def)
  then show ?thesis using mutex_handoff_correct [OF mutex_example_start, of 0 4 5 "Lock 0" 0] by simp
qed


end
