(* ===== verification/Paths.thy ===== *)
theory Paths
  imports LaOS_Prelude
begin

text \<open>
  Paths as byte strings: their components between slashes, shared by the file system and
  the boot file collections.
\<close>

abbreviation (input) SLASH :: u8 where "SLASH \<equiv> 0x2F"

text \<open>The components of a path: what is between slashes, without the empty pieces.\<close>

fun split_slash :: "u8 list \<Rightarrow> u8 list list" where
  "split_slash [] = [[]]"
| "split_slash (c # cs) = (if c = SLASH then [] # split_slash cs
     else (c # hd (split_slash cs)) # tl (split_slash cs))"

definition path_components :: "u8 list \<Rightarrow> u8 list list" where
  "path_components p = filter (\<lambda>c. c \<noteq> []) (split_slash p)"

lemma length_tl_dropWhile: "p \<noteq> [] \<Longrightarrow> length (tl (dropWhile P p)) < length p"
  unfolding length_tl length_greater_0_conv [symmetric] using length_dropWhile_le [of P p] by linarith

lemma length_dropWhile_comp: "takeWhile P p \<noteq> [] \<Longrightarrow> length (dropWhile P p) < length p"
  by (cases p) (auto simp: le_imp_less_Suc length_dropWhile_le split: if_splits)

lemma split_slash_takeWhile:
  "split_slash p = takeWhile (\<lambda>c. c \<noteq> SLASH) p #
     (case dropWhile (\<lambda>c. c \<noteq> SLASH) p of [] \<Rightarrow> [] | _ # q \<Rightarrow> split_slash q)"
  by (induction p) auto

lemma path_components_step:
  assumes "p \<noteq> []"
  shows "path_components p = (let comp = takeWhile (\<lambda>c. c \<noteq> SLASH) p; rest = dropWhile (\<lambda>c. c \<noteq> SLASH) p
    in if comp = [] then path_components (tl rest) else comp # path_components (if rest \<noteq> [] then tl rest else rest))"
proof (cases "dropWhile (\<lambda>c. c \<noteq> SLASH) p")
  case Nil
  then have "takeWhile (\<lambda>c. c \<noteq> SLASH) p \<noteq> []" using assms by (cases p) (auto split: if_splits)
  then show ?thesis using Nil split_slash_takeWhile [of p] by (simp add: path_components_def del: dropWhile_eq_Nil_conv)
next
  case (Cons c q)
  then show ?thesis using split_slash_takeWhile [of p] by (simp add: path_components_def Let_def)
qed

end
