(* ===== verification/Lafs.thy ===== *)
theory Lafs
  imports Paths
begin

text \<open>
  Block devices, boot phases and the read-only file system LaFS (\<open>kernel/block_device.c\<close>,
  \<open>kernel/boot_phase.c\<close>, \<open>kernel/lafs.c\<close>).  A driver's \<open>read\<close> function is not part of these
  files: it is a parameter, a function from the sector number, the number of sectors and
  the old contents of the buffer to the return value and the new contents.  The file
  system has one sector buffer \<open>g_sec\<close>; a C pointer into it is the offset from its start,
  so that what a pointer sees after the buffer has been reused is what the code sees.
  Buffers and paths are lists of bytes, a path without its terminating NUL.
\<close>

section \<open>Boot phases\<close>

datatype boot_phase = BOOT_PHASE_EARLY | BOOT_PHASE_MEMORY_READY | BOOT_PHASE_BOOTSTRAP_TESTS_DONE
  | BOOT_PHASE_DEVICES_READY | BOOT_PHASE_RUNTIME_READY | BOOT_PHASE_SMP_READY | BOOT_PHASE_SERVICES_READY

text \<open>The enumerators as numbers; C callers may pass any number.\<close>

fun phase_number :: "boot_phase \<Rightarrow> int" where
  "phase_number BOOT_PHASE_EARLY = 0"
| "phase_number BOOT_PHASE_MEMORY_READY = 1"
| "phase_number BOOT_PHASE_BOOTSTRAP_TESTS_DONE = 2"
| "phase_number BOOT_PHASE_DEVICES_READY = 3"
| "phase_number BOOT_PHASE_RUNTIME_READY = 4"
| "phase_number BOOT_PHASE_SMP_READY = 5"
| "phase_number BOOT_PHASE_SERVICES_READY = 6"

definition boot_phase_require :: "int \<Rightarrow> int \<Rightarrow> unit res" where
  "boot_phase_require expected current = (if current \<noteq> expected then Inl (Panic ''boot phase mismatch'') else Inr ())"

definition boot_phase_complete :: "bool \<Rightarrow> int \<Rightarrow> int \<Rightarrow> int res" where
  "boot_phase_complete irqs_enabled phase current =
     (if phase \<le> phase_number BOOT_PHASE_EARLY \<or> phase > phase_number BOOT_PHASE_SERVICES_READY
      then Inl (Panic ''invalid boot phase'')
      else bind_res (boot_phase_require (phase - 1) current) (\<lambda>_.
        if irqs_enabled then Inl (Panic ''boot phase completed with IRQs enabled'') else Inr phase))"

section \<open>Block devices\<close>

type_synonym block_device = "u64 \<Rightarrow> u32 \<Rightarrow> u8 list \<Rightarrow> int \<times> u8 list"

abbreviation (input) MAX_BLOCK_DEVICES :: nat where "MAX_BLOCK_DEVICES \<equiv> 8"

definition block_device_register :: "block_device \<Rightarrow> block_device list \<Rightarrow> int \<times> block_device list" where
  "block_device_register dev devs =
     (if length devs \<ge> MAX_BLOCK_DEVICES then (- 1, devs) else (0, devs @ [dev]))"

definition block_device_get :: "int \<Rightarrow> block_device list \<Rightarrow> block_device option" where
  "block_device_get index devs =
     (if index < 0 \<or> index \<ge> int (length devs) then None else Some (devs ! nat index))"

definition block_device_reset :: "int \<Rightarrow> block_device list \<Rightarrow> block_device list res" where
  "block_device_reset phase devs =
     bind_res (boot_phase_require (phase_number BOOT_PHASE_MEMORY_READY) phase) (\<lambda>_. Inr [])"

definition block_read :: "block_device list \<Rightarrow> u64 \<Rightarrow> u32 \<Rightarrow> u8 list \<Rightarrow> int \<times> u8 list" where
  "block_read devs sector cnt buf =
     (case block_device_get (int (length devs) - 1) devs of
        None \<Rightarrow> (- 1, buf)
      | Some dev \<Rightarrow> dev sector cnt buf)"

section \<open>State and sector access\<close>

record lafs =
  fs_devs :: "block_device list"
  g_inode_count :: u32
  g_inode_start :: u32
  g_data_start :: u32
  g_mounted :: bool
  g_sec :: "u8 list"

abbreviation (input) LAFS_MAGIC :: u32 where "LAFS_MAGIC \<equiv> 0x5346614c"
abbreviation (input) LAFS_INODE_SIZE :: u32 where "LAFS_INODE_SIZE \<equiv> 128"
abbreviation (input) LAFS_BLOCKS_MAX :: nat where "LAFS_BLOCKS_MAX \<equiv> 20"

definition lafs_reset :: "lafs \<Rightarrow> lafs" where
  "lafs_reset fs = fs\<lparr>g_mounted := False, g_inode_count := 0, g_inode_start := 0, g_data_start := 0,
     g_sec := replicate 512 0\<rparr>"

definition read_sector :: "u32 \<Rightarrow> lafs \<Rightarrow> int \<times> lafs" where
  "read_sector sec fs =
     (let (n, buf) = block_read (fs_devs fs) (ucast sec) 1 (g_sec fs)
      in (if n = 1 then 0 else - 1, fs\<lparr>g_sec := buf\<rparr>))"

text \<open>A little-endian 32-bit load at any offset.\<close>

definition rd32 :: "u8 list \<Rightarrow> nat \<Rightarrow> u32" where
  "rd32 p off = ucast (p ! off) OR push_bit 8 (ucast (p ! (off + 1))) OR push_bit 16 (ucast (p ! (off + 2)))
     OR push_bit 24 (ucast (p ! (off + 3)))"

text \<open>The result is the offset of the inode in \<open>g_sec\<close>.\<close>

definition read_inode_raw :: "u32 \<Rightarrow> lafs \<Rightarrow> nat option \<times> lafs" where
  "read_inode_raw ino fs =
     (if ino \<ge> g_inode_count fs then (None, fs)
      else let byte_off = ino * LAFS_INODE_SIZE;
               (r, fs1) = read_sector (g_inode_start fs + byte_off div 512) fs
           in if r \<noteq> 0 then (None, fs1) else (Some (unat (byte_off mod 512)), fs1))"

definition lafs_mount :: "lafs \<Rightarrow> int \<times> lafs" where
  "lafs_mount fs =
     (let (r, fs1) = read_sector 0 fs in
      if r \<noteq> 0 then (- 1, fs1)
      else if rd32 (g_sec fs1) 0 \<noteq> LAFS_MAGIC then (- 1, fs1)
      else (0, fs1\<lparr>g_inode_count := rd32 (g_sec fs1) 5, g_inode_start := rd32 (g_sec fs1) 9,
                   g_data_start := rd32 (g_sec fs1) 13, g_mounted := True\<rparr>))"

section \<open>Directories\<close>

text \<open>An entry whose inode number is zero ends the sector.\<close>

definition dir_end :: "u8 list \<Rightarrow> nat \<Rightarrow> bool" where
  "dir_end sec pos \<longleftrightarrow> sec ! pos = 0 \<and> sec ! (pos + 1) = 0 \<and> sec ! (pos + 2) = 0 \<and> sec ! (pos + 3) = 0"

text \<open>The scan of one sector for a name.\<close>

function dir_scan :: "u8 list \<Rightarrow> u8 list \<Rightarrow> nat \<Rightarrow> u32 option" where
  "dir_scan sec name pos =
     (if \<not> pos + 5 \<le> 512 then None
      else if dir_end sec pos then None
      else let entry_ino = rd32 sec pos; entry_nlen = unat (sec ! (pos + 4)) in
        if entry_nlen = 0 \<or> pos + 5 + entry_nlen > 512 then None
        else if entry_nlen = length name \<and> take entry_nlen (drop (pos + 5) sec) = name then Some entry_ino
        else dir_scan sec name (pos + 5 + entry_nlen))"
  by pat_completeness auto

termination by (relation "measure (\<lambda>(sec, name, pos). 512 - pos)") auto

text \<open>
  The loop over the blocks of a directory, \<open>off\<close> being a multiple of 512.  \<open>raw\<close> is the
  offset of the directory's inode as it was when the inode was read.
\<close>

function dir_blocks :: "nat \<Rightarrow> u32 \<Rightarrow> u8 list \<Rightarrow> nat \<Rightarrow> lafs \<Rightarrow> int \<times> lafs" where
  "dir_blocks raw dir_size name off fs =
     (if \<not> off < unat dir_size then (- 1, fs)
      else let blk_idx = off div 512 in
        if blk_idx \<ge> LAFS_BLOCKS_MAX then (- 1, fs)
        else let blk_sec = rd32 (g_sec fs) (raw + 37 + blk_idx * 4) in
          if blk_sec = 0 then (- 1, fs)
          else let (r, fs1) = read_sector blk_sec fs in
            if r \<noteq> 0 then (- 1, fs1)
            else case dir_scan (g_sec fs1) name (off mod 512) of
                Some ino \<Rightarrow> (sint ino, fs1)
              | None \<Rightarrow> dir_blocks raw dir_size name (off + (512 - off mod 512)) fs1)"
  by pat_completeness auto

termination
  by (relation "measure (\<lambda>(raw, dir_size, name, off, fs). unat dir_size - off)") auto

definition dir_lookup :: "u32 \<Rightarrow> u8 list \<Rightarrow> lafs \<Rightarrow> int \<times> lafs" where
  "dir_lookup dir_ino name fs =
     (case read_inode_raw dir_ino fs of
        (None, fs1) \<Rightarrow> (- 1, fs1)
      | (Some raw, fs1) \<Rightarrow>
          if g_sec fs1 ! raw \<noteq> 2 then (- 1, fs1)
          else let dir_size = rd32 (g_sec fs1) (raw + 33) in
            if dir_size = 0 then (- 1, fs1) else dir_blocks raw dir_size name 0 fs1)"

function open_loop :: "u32 \<Rightarrow> u8 list \<Rightarrow> lafs \<Rightarrow> int \<times> lafs" where
  "open_loop ino p fs =
     (if p = [] then (sint ino, fs)
      else let comp = takeWhile (\<lambda>c. c \<noteq> SLASH) p; rest = dropWhile (\<lambda>c. c \<noteq> SLASH) p in
        if comp = [] then open_loop ino (tl rest) fs
        else let (next, fs1) = dir_lookup ino comp fs in
          if next < 0 then (- 1, fs1)
          else open_loop (word_of_int next) (if rest \<noteq> [] then tl rest else rest) fs1)"
  by pat_completeness auto

termination
  by (relation "measure (\<lambda>(ino, p, fs). length p)")
    (use length_tl_dropWhile length_dropWhile_comp in \<open>auto split: if_splits\<close>)

definition lafs_open :: "u8 list option \<Rightarrow> lafs \<Rightarrow> int \<times> lafs" where
  "lafs_open path fs =
     (if \<not> g_mounted fs then (- 1, fs)
      else case path of
        None \<Rightarrow> (- 1, fs)
      | Some [] \<Rightarrow> (- 1, fs)
      | Some (c # p) \<Rightarrow> if c \<noteq> SLASH then (- 1, fs) else open_loop 0 p fs)"

section \<open>Files\<close>

text \<open>
  The copy loop: \<open>out\<close> is what has been copied to the destination, so \<open>total\<close> is its length.
\<close>

function read_loop :: "nat \<Rightarrow> nat \<Rightarrow> nat \<Rightarrow> u8 list \<Rightarrow> lafs \<Rightarrow> int \<times> u8 list \<times> lafs" where
  "read_loop raw len offset out fs =
     (if \<not> length out < len then (int (length out), out, fs)
      else let blk_idx = offset div 512; blk_off = offset mod 512 in
        if blk_idx \<ge> LAFS_BLOCKS_MAX then (int (length out), out, fs)
        else let blk_sec = rd32 (g_sec fs) (raw + 37 + blk_idx * 4) in
          if blk_sec = 0 then (int (length out), out, fs)
          else let (r, fs1) = read_sector blk_sec fs in
            if r \<noteq> 0 then (if length out > 0 then int (length out) else - 1, out, fs1)
            else let chunk = min (512 - blk_off) (len - length out);
                     bytes = map (\<lambda>i. g_sec fs1 ! (blk_off + i)) [0..<chunk]
                 in read_loop raw len (offset + chunk) (out @ bytes) fs1)"
  by pat_completeness auto

termination
  by (relation "measure (\<lambda>(raw, len, offset, out, fs). len - length out)") (auto simp: min_def)

definition lafs_read :: "u32 \<Rightarrow> u32 \<Rightarrow> u32 \<Rightarrow> lafs \<Rightarrow> int \<times> u8 list \<times> lafs" where
  "lafs_read ino offset len fs =
     (if \<not> g_mounted fs then (- 1, [], fs)
      else if len = 0 then (0, [], fs)
      else case read_inode_raw ino fs of
        (None, fs1) \<Rightarrow> (- 1, [], fs1)
      | (Some raw, fs1) \<Rightarrow>
          if g_sec fs1 ! raw \<noteq> 1 then (- 1, [], fs1)
          else let fsize = rd32 (g_sec fs1) (raw + 33) in
            if offset \<ge> fsize then (0, [], fs1)
            else let len1 = (if offset + len > fsize then fsize - offset else len)
                 in read_loop raw (unat len1) (unat offset) [] fs1)"

definition lafs_size :: "u32 \<Rightarrow> lafs \<Rightarrow> u32 \<times> lafs" where
  "lafs_size ino fs =
     (case read_inode_raw ino fs of
        (None, fs1) \<Rightarrow> (0, fs1)
      | (Some raw, fs1) \<Rightarrow> if g_sec fs1 ! raw \<noteq> 1 then (0, fs1) else (rd32 (g_sec fs1) (raw + 33), fs1))"

section \<open>Directory listing\<close>

text \<open>The name field of the inode at \<open>raw\<close>: up to 32 bytes.\<close>

definition inode_name :: "u8 list \<Rightarrow> nat \<Rightarrow> u8 list" where
  "inode_name sec raw = takeWhile (\<lambda>b. b \<noteq> 0) (take 32 (drop (raw + 1) sec))"

text \<open>Appending one name: \<open>out\<close> is what has been stored from the start of the buffer.\<close>

definition put_name :: "nat \<Rightarrow> u8 list \<Rightarrow> u8 list \<Rightarrow> u8 list" where
  "put_name bufsz name out =
     (if name = [] then out
      else let copy = (if length out + length name + 1 \<ge> bufsz then bufsz - length out - 1 else length name)
           in out @ take copy name @ [0x0A])"

function list_sector :: "u8 list \<Rightarrow> nat \<Rightarrow> nat \<Rightarrow> u8 list \<Rightarrow> lafs \<Rightarrow> u8 list \<times> lafs" where
  "list_sector dir_sec bufsz pos out fs =
     (if \<not> (pos + 5 \<le> 512 \<and> length out + 1 < bufsz) then (out, fs)
      else if dir_end dir_sec pos then (out, fs)
      else let entry_nlen = unat (dir_sec ! (pos + 4)) in
        if entry_nlen = 0 \<or> pos + 5 + entry_nlen > 512 then (out, fs)
        else let (r, fs1) = read_inode_raw (rd32 dir_sec pos) fs;
                 out1 = (case r of None \<Rightarrow> out
                         | Some raw \<Rightarrow> if g_sec fs1 ! raw \<noteq> 0 then put_name bufsz (inode_name (g_sec fs1) raw) out else out)
             in list_sector dir_sec bufsz (pos + 5 + entry_nlen) out1 fs1)"
  by pat_completeness auto

termination by (relation "measure (\<lambda>(sec, bufsz, pos, out, fs). 512 - pos)") auto

text \<open>The loop over the blocks; \<open>Inl\<close> is the early error return.\<close>

function list_blocks :: "nat \<Rightarrow> u32 \<Rightarrow> nat \<Rightarrow> nat \<Rightarrow> u8 list \<Rightarrow> lafs \<Rightarrow> (int + u8 list) \<times> u8 list \<times> lafs" where
  "list_blocks raw dir_size bufsz off out fs =
     (if \<not> (off < unat dir_size \<and> length out + 1 < bufsz) then (Inr out, out, fs)
      else let blk_idx = off div 512 in
        if blk_idx \<ge> LAFS_BLOCKS_MAX then (Inr out, out, fs)
        else let blk_sec = rd32 (g_sec fs) (raw + 37 + blk_idx * 4) in
          if blk_sec = 0 then (Inr out, out, fs)
          else let (r, fs1) = read_sector blk_sec fs in
            if r \<noteq> 0 then (Inl (if length out > 0 then int (length out) else - 1), out, fs1)
            else let (out1, fs2) = list_sector (g_sec fs1) bufsz (off mod 512) out fs1
                 in list_blocks raw dir_size bufsz (off + (512 - off mod 512)) out1 fs2)"
  by pat_completeness auto

termination
  by (relation "measure (\<lambda>(raw, dir_size, bufsz, off, out, fs). unat dir_size - off)") auto

text \<open>The return value and the bytes stored in the caller's buffer, from its start.\<close>

definition lafs_readdir :: "u32 \<Rightarrow> u32 \<Rightarrow> lafs \<Rightarrow> int \<times> u8 list \<times> lafs" where
  "lafs_readdir ino bufsz fs =
     (if \<not> g_mounted fs \<or> bufsz = 0 then (- 1, [], fs)
      else case read_inode_raw ino fs of
        (None, fs1) \<Rightarrow> (- 1, [], fs1)
      | (Some raw, fs1) \<Rightarrow>
          if g_sec fs1 ! raw \<noteq> 2 then (- 1, [], fs1)
          else case list_blocks raw (rd32 (g_sec fs1) (raw + 33)) (unat bufsz) 0 [] fs1 of
              (Inl r, out, fs2) \<Rightarrow> (r, out, fs2)
            | (Inr _, out, fs2) \<Rightarrow> (int (length out), out @ [0], fs2))"

section \<open>Bounds\<close>

declare read_loop.simps [simp del] list_sector.simps [simp del] list_blocks.simps [simp del] dir_scan.simps [simp del]
  dir_blocks.simps [simp del] open_loop.simps [simp del]

lemma read_loop_bound:
  assumes "length out \<le> len" "read_loop raw len offset out fs = (r, out', fs')"
  shows "length out' \<le> len \<and> (r = int (length out') \<or> r = - 1 \<and> out' = [])"
  using assms
proof (induction raw len offset out fs rule: read_loop.induct)
  case (1 raw len offset out fs)
  let ?sec = "rd32 (g_sec fs) (raw + 37 + offset div 512 * 4)"
  obtain r1 fs1 where rs: "read_sector ?sec fs = (r1, fs1)" by (cases "read_sector ?sec fs")
  let ?c = "min (512 - offset mod 512) (len - length out)"
  let ?out = "out @ map (\<lambda>i. g_sec fs1 ! (offset mod 512 + i)) [0..<?c]"
  show ?case
  proof (cases "length out < len \<and> offset div 512 < 20 \<and> ?sec \<noteq> 0 \<and> r1 = 0")
    case True
    then have "read_loop raw len (offset + ?c) ?out fs1 = (r, out', fs')"
      using "1.prems"(2) rs by (subst (asm) read_loop.simps) (simp add: Let_def)
    moreover have "length ?out \<le> len" using "1.prems"(1) by simp
    ultimately show ?thesis using "1.IH" [OF _ refl refl _ refl _ rs [symmetric] refl _ refl refl] True by simp
  next
    case False
    then show ?thesis using "1.prems" rs by (subst (asm) read_loop.simps) (auto simp: Let_def split: if_splits)
  qed
qed

lemma clamp_le:
  assumes "(offset :: u32) < fsize" "offset + len > fsize"
  shows "fsize - offset \<le> len"
proof -
  have "offset \<le> offset + len" using assms by (meson less_imp_le less_trans)
  then have "unat (offset + len) = unat offset + unat len" by (simp add: unat_plus_simple)
  moreover have "unat (fsize - offset) = unat fsize - unat offset" using assms(1) by (simp add: unat_sub less_imp_le)
  ultimately show ?thesis using assms by (simp add: word_le_nat_alt word_less_nat_alt)
qed

lemma put_name_bound: "length out + 1 < bufsz \<Longrightarrow> length (put_name bufsz name out) \<le> bufsz"
  by (auto simp: put_name_def Let_def)

lemma list_sector_bound:
  assumes "length out \<le> bufsz" "list_sector dir_sec bufsz pos out fs = (out', fs')"
  shows "length out' \<le> bufsz"
  using assms
proof (induction dir_sec bufsz pos out fs rule: list_sector.induct)
  case (1 dir_sec bufsz pos out fs)
  let ?n = "unat (dir_sec ! (pos + 4))"
  obtain r fs1 where ri: "read_inode_raw (rd32 dir_sec pos) fs = (r, fs1)" by (cases "read_inode_raw (rd32 dir_sec pos) fs")
  let ?out = "case r of None \<Rightarrow> out | Some raw \<Rightarrow> if g_sec fs1 ! raw \<noteq> 0 then put_name bufsz (inode_name (g_sec fs1) raw) out else out"
  let ?go = "pos + 5 \<le> 512 \<and> length out + 1 < bufsz \<and>
    \<not> dir_end dir_sec pos \<and> \<not> (?n = 0 \<or> pos + 5 + ?n > 512)"
  show ?case
  proof (cases ?go)
    case True
    then have "list_sector dir_sec bufsz (pos + 5 + ?n) ?out fs1 = (out', fs')"
      using "1.prems"(2) ri by (subst (asm) list_sector.simps) (simp add: Let_def)
    moreover have "length ?out \<le> bufsz" using True "1.prems"(1) put_name_bound by (auto split: option.splits)
    ultimately show ?thesis using "1.IH" [OF _ _ refl _ ri [symmetric] refl] True by simp
  next
    case False
    then have "out' = out" using "1.prems"(2) by (subst (asm) list_sector.simps) (auto simp: Let_def split: if_splits)
    then show ?thesis using "1.prems"(1) by simp
  qed
qed

lemma list_blocks_bound:
  assumes "length out \<le> bufsz" "list_blocks raw dir_size bufsz off out fs = (r, out', fs')"
  shows "length out' \<le> bufsz"
  using assms
proof (induction raw dir_size bufsz off out fs rule: list_blocks.induct)
  case (1 raw dir_size bufsz off out fs)
  let ?sec = "rd32 (g_sec fs) (raw + 37 + off div 512 * 4)"
  obtain r1 fs1 where rs: "read_sector ?sec fs = (r1, fs1)" by (cases "read_sector ?sec fs")
  obtain out1 fs2 where ls: "list_sector (g_sec fs1) bufsz (off mod 512) out fs1 = (out1, fs2)"
    by (cases "list_sector (g_sec fs1) bufsz (off mod 512) out fs1")
  show ?case
  proof (cases "off < unat dir_size \<and> length out + 1 < bufsz \<and> off div 512 < 20 \<and> ?sec \<noteq> 0 \<and> r1 = 0")
    case True
    then have "list_blocks raw dir_size bufsz (off + (512 - off mod 512)) out1 fs2 = (r, out', fs')"
      using "1.prems"(2) rs ls by (subst (asm) list_blocks.simps) (simp add: Let_def)
    moreover have "length out1 \<le> bufsz" using list_sector_bound [OF "1.prems"(1) ls] .
    ultimately show ?thesis using "1.IH" [OF _ refl _ refl _ rs [symmetric] refl _ ls [symmetric] refl] True by simp
  next
    case False
    then have "out' = out" using "1.prems"(2) rs by (subst (asm) list_blocks.simps) (auto simp: Let_def split: if_splits)
    then show ?thesis using "1.prems"(1) by simp
  qed
qed

section \<open>Paths\<close>

text \<open>Resolving a list of names, one directory after the other.\<close>

primrec resolve :: "u32 \<Rightarrow> u8 list list \<Rightarrow> lafs \<Rightarrow> int \<times> lafs" where
  "resolve ino [] fs = (sint ino, fs)"
| "resolve ino (c # cs) fs =
     (let (next, fs1) = dir_lookup ino c fs in if next < 0 then (- 1, fs1) else resolve (word_of_int next) cs fs1)"

lemma open_loop_resolve: "open_loop ino p fs = resolve ino (path_components p) fs"
proof (induction ino p fs rule: open_loop.induct)
  case (1 ino p fs)
  let ?c = "takeWhile (\<lambda>c. c \<noteq> SLASH) p" and ?r = "dropWhile (\<lambda>c. c \<noteq> SLASH) p"
  show ?case
  proof (cases "p = [] \<or> ?c = []")
    case True
    then show ?thesis using "1.IH"(1) [OF _ refl refl] path_components_step [of p]
      by (subst open_loop.simps) (auto simp: path_components_def Let_def)
  next
    case False
    obtain nx fs1 where d: "dir_lookup ino ?c fs = (nx, fs1)" by (cases "dir_lookup ino ?c fs")
    have "path_components p = ?c # path_components (if ?r \<noteq> [] then tl ?r else ?r)"
      using False path_components_step [of p] by (simp add: Let_def)
    then show ?thesis using False d "1.IH"(2) [OF _ refl refl _ d [symmetric] refl]
      by (subst open_loop.simps) (simp add: Let_def)
  qed
qed

section \<open>Reading within a block\<close>

text \<open>
  What a block device is expected to do: a read of one sector returns 1 and fills the
  buffer with the 512 bytes of the sector.
\<close>

definition serves :: "(u64 \<Rightarrow> u8 list) \<Rightarrow> lafs \<Rightarrow> bool" where
  "serves disk fs \<longleftrightarrow> fs_devs fs \<noteq> [] \<and> (\<forall>sec buf. last (fs_devs fs) sec 1 buf = (1, disk sec)) \<and>
     (\<forall>sec. length (disk sec) = 512)"

lemma read_sector_serves:
  assumes "serves disk fs"
  shows "read_sector sec fs = (0, fs\<lparr>g_sec := disk (ucast sec)\<rparr>)"
proof -
  have "fs_devs fs ! (length (fs_devs fs) - Suc 0) = last (fs_devs fs)" "fs_devs fs \<noteq> []"
    using assms by (simp_all add: serves_def last_conv_nth)
  then show ?thesis
    using assms by (simp add: read_sector_def block_read_def block_device_get_def serves_def nat_diff_distrib')
qed

text \<open>The sector of an inode and the position of the inode in it.\<close>

definition inode_sector :: "lafs \<Rightarrow> u32 \<Rightarrow> u64" where
  "inode_sector fs ino = ucast (g_inode_start fs + ino * LAFS_INODE_SIZE div 512)"

definition inode_pos :: "u32 \<Rightarrow> nat" where
  "inode_pos ino = unat (ino * LAFS_INODE_SIZE mod 512)"

lemma read_inode_serves:
  assumes "serves disk fs" "ino < g_inode_count fs"
  shows "read_inode_raw ino fs = (Some (inode_pos ino), fs\<lparr>g_sec := disk (inode_sector fs ino)\<rparr>)"
  using assms by (simp add: read_inode_raw_def read_sector_serves inode_sector_def inode_pos_def Let_def linorder_not_le)

text \<open>The sector number the inode has for block \<open>i\<close>.\<close>

definition inode_block :: "(u64 \<Rightarrow> u8 list) \<Rightarrow> lafs \<Rightarrow> u32 \<Rightarrow> nat \<Rightarrow> u32" where
  "inode_block disk fs ino i = rd32 (disk (inode_sector fs ino)) (inode_pos ino + 37 + i * 4)"

lemma map_nth_take: "blk_off + n \<le> length xs \<Longrightarrow> map (\<lambda>i. xs ! (blk_off + i)) [0..<n] = take n (drop blk_off xs)"
  by (intro nth_equalityI) auto

lemma read_loop_block:
  assumes "serves disk fs" "length out < len" "offset div 512 < 20" "rd32 (g_sec fs) (raw + 37 + offset div 512 * 4) = sec" "sec \<noteq> 0"
  shows "read_loop raw len offset out fs =
    (let n = min (512 - offset mod 512) (len - length out)
     in read_loop raw len (offset + n) (out @ take n (drop (offset mod 512) (disk (ucast sec)))) (fs\<lparr>g_sec := disk (ucast sec)\<rparr>))"
proof -
  have "length (disk (ucast sec)) = 512" using assms(1) by (simp add: serves_def)
  then show ?thesis using assms
    by (subst read_loop.simps) (simp add: read_sector_serves Let_def map_nth_take min_def)
qed

lemma read_loop_done: "length out = len \<Longrightarrow> read_loop raw len offset out fs = (int len, out, fs)"
  by (subst read_loop.simps) simp


section \<open>Properties\<close>

text \<open>
  (C28) \<open>lafs_read\<close> stores at most \<open>len\<close> bytes in the caller's buffer, for any contents of
  the disk, any behaviour of the device and any offset, also one whose sum with \<open>len\<close>
  overflows; its result is the number of bytes stored, or -1 with nothing stored.
\<close>
theorem lafs_read_bounded:
  assumes "lafs_read ino offset len fs = (r, out, fs')"
  shows "length out \<le> unat len \<and> (r = int (length out) \<or> r = - 1 \<and> out = [])"
proof -
  have clamp: "unat (if offset + len > fsize then fsize - offset else len) \<le> unat len" if "offset < fsize" for fsize
    using clamp_le [OF that, of len] by (simp add: word_le_nat_alt)
  obtain raw fs1 where "read_inode_raw ino fs = (raw, fs1)" by (cases "read_inode_raw ino fs")
  then show ?thesis using assms clamp read_loop_bound [of "[]" _ _ "unat offset" fs1 r out fs']
    by (fastforce simp: lafs_read_def Let_def not_le split: if_splits option.splits)
qed

text \<open>
  (C29) \<open>lafs_open\<close> resolves a path component by component from the root directory;
  repeated and trailing slashes make no difference, a path that is not absolute is
  rejected.
\<close>
theorem lafs_open_components:
  "lafs_open (Some path) fs =
    (if g_mounted fs \<and> path \<noteq> [] \<and> hd path = SLASH then resolve 0 (path_components (tl path)) fs else (- 1, fs))"
  by (cases path) (auto simp: lafs_open_def open_loop_resolve)

text \<open>
  (C30) A read that stays within one block of a file returns exactly the bytes of the
  file: on a working device, if the inode names a regular file and a sector for this
  block, and the range lies in the file, the result is \<open>len\<close> and the bytes are those at
  the offset in this sector.
\<close>
theorem lafs_read_within_block:
  assumes "serves disk fs" "g_mounted fs" "ino < g_inode_count fs" "0 < len"
    "disk (inode_sector fs ino) ! inode_pos ino = 1"
    "unat offset + unat len \<le> unat (rd32 (disk (inode_sector fs ino)) (inode_pos ino + 33))"
    "unat offset mod 512 + unat len \<le> 512" "unat offset div 512 < LAFS_BLOCKS_MAX"
    "inode_block disk fs ino (unat offset div 512) \<noteq> 0"
  shows "\<exists>fs'. lafs_read ino offset len fs =
    (int (unat len), take (unat len) (drop (unat offset mod 512) (disk (ucast (inode_block disk fs ino (unat offset div 512))))), fs')"
proof -
  let ?fs = "fs\<lparr>g_sec := disk (inode_sector fs ino)\<rparr>" and ?size = "rd32 (disk (inode_sector fs ino)) (inode_pos ino + 33)"
  have s: "serves disk ?fs" using assms(1) by (simp add: serves_def)
  have l: "0 < unat len" using assms(4) by (simp add: word_less_nat_alt)
  have w: "unat (offset + len) = unat offset + unat len"
    using assms(6) unsigned_less [of ?size, where ?'a = nat] by (intro unat_add_lem [THEN iffD1]) simp
  have lt: "offset < ?size" "\<not> ?size < offset + len" using assms(6) l w by (simp_all add: word_less_nat_alt)
  have "lafs_read ino offset len fs = read_loop (inode_pos ino) (unat len) (unat offset) [] ?fs"
    using assms(1-5) lt(2) lt(1) [folded not_le] by (auto simp: lafs_read_def read_inode_serves Let_def)
  also have "\<dots> = read_loop (inode_pos ino) (unat len) (unat offset + unat len) (take (unat len)
      (drop (unat offset mod 512) (disk (ucast (inode_block disk fs ino (unat offset div 512))))))
    (?fs\<lparr>g_sec := disk (ucast (inode_block disk fs ino (unat offset div 512)))\<rparr>)"
    using read_loop_block [OF s, of "[]" "unat len" "unat offset" "inode_pos ino"] assms(7-9) l
    by (simp add: inode_block_def min_absorb2 Let_def)
  also have "\<dots> = (int (unat len), take (unat len)
      (drop (unat offset mod 512) (disk (ucast (inode_block disk fs ino (unat offset div 512))))),
    ?fs\<lparr>g_sec := disk (ucast (inode_block disk fs ino (unat offset div 512)))\<rparr>)"
    using assms(1,7) by (intro read_loop_done) (simp add: serves_def)
  finally show ?thesis by blast
qed

text \<open>
  A read that starts at the beginning of a file and crosses the first block boundary goes
  wrong: the first sector has replaced the inode in the shared buffer, so the number of
  the second sector is taken from the file's own data.
\<close>
lemma lafs_read_second_block_from_data:
  assumes "serves disk fs" "raw + 45 \<le> 512" "g_sec fs = disk isec"
    "rd32 (disk isec) (raw + 37) = b" "b \<noteq> 0" "rd32 (disk (ucast b)) (raw + 41) = x" "x \<noteq> 0"
  shows "\<exists>fs'. read_loop raw 1024 0 [] fs = (1024, disk (ucast b) @ disk (ucast x), fs')"
proof -
  have l: "length (disk sec) = 512" for sec using assms(1) by (simp add: serves_def)
  let ?fs = "fs\<lparr>g_sec := disk (ucast b)\<rparr>"
  have s: "serves disk ?fs" using assms(1) by (simp add: serves_def)
  have "read_loop raw 1024 0 [] fs = read_loop raw 1024 512 (disk (ucast b)) ?fs"
    using read_loop_block [OF assms(1), of "[]" 1024 0 raw b] assms(3-5) l by (simp add: Let_def)
  also have "\<dots> = read_loop raw 1024 1024 (disk (ucast b) @ disk (ucast x)) (?fs\<lparr>g_sec := disk (ucast x)\<rparr>)"
    using read_loop_block [OF s, of "disk (ucast b)" 1024 512 raw x] assms(6,7) l by (simp add: Let_def add.commute)
  finally show ?thesis by (simp add: read_loop_done l)
qed

text \<open>
  \<open>lafs_readdir\<close> stores at most one byte more than the size of the buffer, whatever
  the disk contains.
\<close>
lemma lafs_readdir_bounded:
  assumes "lafs_readdir ino bufsz fs = (r, out, fs')"
  shows "length out \<le> unat bufsz + 1"
proof -
  obtain raw fs1 where "read_inode_raw ino fs = (raw, fs1)" by (cases "read_inode_raw ino fs")
  then show ?thesis using assms list_blocks_bound [of "[]"]
    by (fastforce simp: lafs_readdir_def split: if_splits option.splits sum.splits prod.splits)
qed

text \<open>
  The extra byte is reached: a name that does not fit is cut so that it fills the buffer
  together with its newline, and the terminator goes behind the end.
\<close>
lemma put_name_fills_buffer:
  assumes "length out + 1 < bufsz" "bufsz \<le> length out + length name + 1"
  shows "length (put_name bufsz name out @ [0]) = bufsz + 1"
  using assms by (auto simp: put_name_def Let_def)

text \<open>
  Boot phases complete in order: a sequence of calls of \<open>boot_phase_complete\<close> with
  interrupts disabled succeeds exactly if it names the phases one after the other from
  the current one, and then ends in the last of them.
\<close>
theorem boot_phases_in_order:
  assumes "0 \<le> c" "c \<le> 6"
  shows "fold_res (boot_phase_complete False) ps c = Inr d \<longleftrightarrow> ps = [c + 1..d] \<and> c \<le> d \<and> d \<le> 6"
  using assms
proof (induction ps arbitrary: c)
  case Nil
  then show ?case by auto
next
  case (Cons p ps)
  have e: "(p # ps = [c + 1..d]) \<longleftrightarrow> c < d \<and> p = c + 1 \<and> ps = [p + 1..d]"
    by (subst upto.simps) auto
  show ?case
  proof (cases "p = c + 1 \<and> p \<le> 6")
    case True
    then have "boot_phase_complete False p c = Inr p" using Cons.prems by (simp add: boot_phase_complete_def boot_phase_require_def)
    then show ?thesis using Cons.IH [of p] Cons.prems True e by auto
  next
    case False
    then have "\<exists>m. boot_phase_complete False p c = Inl m"
      using Cons.prems by (auto simp: boot_phase_complete_def boot_phase_require_def)
    then show ?thesis using False e by auto
  qed
qed

text \<open>A disk with one file of 8 bytes: superblock in sector 0, inode table in 1, data in 2.\<close>

definition disk_example :: "u64 \<Rightarrow> u8 list" where
  "disk_example sec =
     (if sec = 1 then (replicate 512 0)[0 := 1, 33 := 8, 37 := 2]
      else if sec = 2 then [1, 2, 3, 4, 5, 6, 7, 8] @ replicate 504 0
      else replicate 512 0)"

definition lafs_example :: lafs where
  "lafs_example = \<lparr>fs_devs = [\<lambda>sec cnt buf. (1, disk_example sec)], g_inode_count = 1, g_inode_start = 1, g_data_start = 2,
     g_mounted = True, g_sec = replicate 512 0\<rparr>"

lemma lafs_example_simps:
  "serves disk_example lafs_example" "inode_sector lafs_example 0 = 1" "inode_pos 0 = 0"
  "disk_example 1 ! 0 = 1" "rd32 (disk_example 1) 33 = 8" "rd32 (disk_example 1) 37 = 2"
  by (simp_all add: serves_def lafs_example_def disk_example_def inode_sector_def inode_pos_def rd32_def)

theorem lafs_read_within_block_witness:
  "\<exists>fs'. lafs_read 0 2 3 lafs_example = (3, [3, 4, 5], fs')"
proof -
  have "inode_block disk_example lafs_example 0 0 = 2" by (simp add: inode_block_def lafs_example_simps)
  moreover have "g_mounted lafs_example" "(0 :: u32) < g_inode_count lafs_example" by (simp_all add: lafs_example_def)
  moreover have "take 3 (drop 2 (disk_example 2)) = [3, 4, 5]" by (simp add: disk_example_def)
  ultimately show ?thesis
    using lafs_read_within_block [of disk_example lafs_example 0 3 2] by (simp add: lafs_example_simps)
qed

theorem lafs_read_bounded_witness:
  "length (fst (snd (lafs_read 0 2 3 lafs_example))) \<le> 3"
proof -
  obtain r out fs' where e: "lafs_read 0 2 3 lafs_example = (r, out, fs')" by (cases "lafs_read 0 2 3 lafs_example")
  show ?thesis using lafs_read_bounded [OF e] by (simp add: e)
qed

theorem boot_phases_in_order_witness:
  "fold_res (boot_phase_complete False) [1, 2, 3] 0 = Inr (3 :: int)"
  using boot_phases_in_order [of 0 "[1, 2, 3]" 3] by (simp add: upto.simps)

end
