(* ===== verification/Printf.thy ===== *)
theory Printf
  imports LaOS_Prelude
begin

text \<open>
  Formatted output (\<open>kernel/printf.c\<close>).  A format is the list of its characters before
  the terminator; the end of the list is the terminator.  An argument list holds typed
  values, and reading an argument at another type is undefined, as it is for \<open>va_arg\<close>.
  An \<open>int\<close> is an integer here, and the places where it could leave its 32 bits (a
  width or a precision in the format, the negation of a negative width, the character
  count) are undefined.
\<close>

section \<open>Writing to the buffer\<close>

text \<open>
  The buffer pointer \<open>p\<close> and its limit \<open>end\<close>: the characters before \<open>p\<close> and the number
  of characters that fit before \<open>end\<close>.
\<close>

record outbuf =
  o_chars :: string
  o_cap :: nat
  o_total :: int

definition putc_safe :: "char \<Rightarrow> outbuf \<Rightarrow> outbuf" where
  "putc_safe c b =
     (let b1 = b\<lparr>o_total := o_total b + 1\<rparr>
      in if length (o_chars b1) < o_cap b1 then b1\<lparr>o_chars := o_chars b1 @ [c]\<rparr> else b1)"

function pad_buf :: "char \<Rightarrow> int \<Rightarrow> outbuf \<Rightarrow> outbuf" where
  "pad_buf ch n b = (if n > 0 then pad_buf ch (n - 1) (putc_safe ch b) else b)"
  by pat_completeness auto

termination by (relation "measure (\<lambda>(_, n, _). nat n)") auto

declare pad_buf.simps [simp del]

fun puts_buf :: "string \<Rightarrow> outbuf \<Rightarrow> outbuf" where
  "puts_buf [] b = b"
| "puts_buf (c # cs) b = puts_buf cs (putc_safe c b)"

section \<open>Fields\<close>

fun str_len :: "string \<Rightarrow> int \<Rightarrow> int \<Rightarrow> int" where
  "str_len [] prec len = len"
| "str_len (c # cs) prec len = (if prec < 0 \<or> len < prec then str_len cs prec (len + 1) else len)"

definition print_str_w :: "string option \<Rightarrow> int \<Rightarrow> int \<Rightarrow> bool \<Rightarrow> outbuf \<Rightarrow> outbuf" where
  "print_str_w s0 width prec left b =
     (let s = (case s0 of None \<Rightarrow> ''(null)'' | Some t \<Rightarrow> t);
          len = str_len s prec 0;
          pad_n = (if width > len then width - len else 0);
          b1 = (if \<not> left then pad_buf CHR '' '' pad_n b else b);
          b2 = puts_buf (take (nat len) s) b1
      in if left then pad_buf CHR '' '' pad_n b2 else b2)"

definition digits :: "bool \<Rightarrow> string" where
  "digits upper = (if upper then ''0123456789ABCDEF'' else ''0123456789abcdef'')"

text \<open>
  The digits of a number, the lowest first, as they are stored in \<open>tmp\<close>.  The callers
  pass the bases 8, 10 and 16.
\<close>

function digit_loop :: "u64 \<Rightarrow> bool \<Rightarrow> u64 \<Rightarrow> string" where
  "digit_loop base upper val =
     (if val = 0 \<or> base < 2 then []
      else digits upper ! unat (val mod base) # digit_loop base upper (val div base))"
  by pat_completeness auto

termination
proof (relation "measure (\<lambda>(_, _, val). unat val)", simp)
  fix base val :: u64 and upper :: bool
  assume "\<not> (val = 0 \<or> base < 2)"
  then have "0 < unat val" "1 < unat base" by (auto simp: unat_gt_0 word_less_nat_alt not_less)
  then have "unat val div unat base < unat val" by simp
  then show "((base, upper, val div base), base, upper, val) \<in> measure (\<lambda>(_, _, val). unat val)"
    by (simp add: unat_div)
qed

declare digit_loop.simps [simp del]

definition print_uint_w :: "u64 \<Rightarrow> u64 \<Rightarrow> bool \<Rightarrow> int \<Rightarrow> int \<Rightarrow> bool \<Rightarrow> bool \<Rightarrow> bool \<Rightarrow> outbuf \<Rightarrow> outbuf" where
  "print_uint_w v base upper width prec left zero prefix b =
     (let tmp = (if v = 0 then ''0'' else digit_loop base upper v);
          n = int (length tmp);
          pfx = (if prefix \<and> base = 16 \<and> v \<noteq> 0 then [CHR ''0'', if upper then CHR ''X'' else CHR ''x'']
                 else if prefix \<and> base = 8 \<and> last tmp \<noteq> CHR ''0'' then [CHR ''0''] else []);
          digit_n = (if prec > n then prec else n);
          content = int (length pfx) + digit_n;
          pad_n = (if width > content then width - content else 0);
          b1 = (if \<not> left \<and> zero then pad_buf CHR ''0'' pad_n (puts_buf pfx b)
                else if \<not> left then puts_buf pfx (pad_buf CHR '' '' pad_n b)
                else puts_buf pfx b);
          b2 = puts_buf (rev tmp) (pad_buf CHR ''0'' (digit_n - n) b1)
      in if left then pad_buf CHR '' '' pad_n b2 else b2)"

definition print_int_w :: "u64 \<Rightarrow> int \<Rightarrow> int \<Rightarrow> bool \<Rightarrow> bool \<Rightarrow> bool \<Rightarrow> outbuf \<Rightarrow> outbuf" where
  "print_int_w v width prec left zero force_sign b =
     (let (sign, uv) = (if sint v < 0 then ([CHR ''-''], - (v + 1) + 1)
                       else (if force_sign then [CHR ''+''] else [], v));
          tmp = (if uv = 0 then ''0'' else digit_loop 10 False uv);
          n = int (length tmp);
          digit_n = (if prec > n then prec else n);
          content = int (length sign) + digit_n;
          pad_n = (if width > content then width - content else 0);
          b1 = (if \<not> left \<and> zero then pad_buf CHR ''0'' pad_n (puts_buf sign b)
                else if \<not> left then puts_buf sign (pad_buf CHR '' '' pad_n b)
                else puts_buf sign b);
          b2 = puts_buf (rev tmp) (pad_buf CHR ''0'' (digit_n - n) b1)
      in if left then pad_buf CHR '' '' pad_n b2 else b2)"

section \<open>Conversions\<close>

datatype varg = VInt u32 | VLong u64 | VPtr u64 | VStr "string option"

abbreviation (input) INT_MAX :: int where "INT_MAX \<equiv> 2147483647"

record fspec =
  f_left :: bool
  f_zero :: bool
  f_plus :: bool
  f_space :: bool
  f_hash :: bool
  f_width :: int
  f_prec :: int
  f_lmod :: int

definition no_spec :: fspec where
  "no_spec = \<lparr>f_left = False, f_zero = False, f_plus = False, f_space = False, f_hash = False,
     f_width = 0, f_prec = - 1, f_lmod = 0\<rparr>"

fun flag_loop :: "string \<Rightarrow> fspec \<Rightarrow> string \<times> fspec" where
  "flag_loop [] f = ([], f)"
| "flag_loop (c # cs) f =
     (if c = CHR ''-'' then flag_loop cs (f\<lparr>f_left := True\<rparr>)
      else if c = CHR ''0'' then flag_loop cs (f\<lparr>f_zero := True\<rparr>)
      else if c = CHR ''+'' then flag_loop cs (f\<lparr>f_plus := True\<rparr>)
      else if c = CHR '' '' then flag_loop cs (f\<lparr>f_space := True\<rparr>)
      else if c = CHR ''#'' then flag_loop cs (f\<lparr>f_hash := True\<rparr>)
      else (c # cs, f))"

definition is_digit :: "char \<Rightarrow> bool" where
  "is_digit c \<longleftrightarrow> 48 \<le> (of_char c :: int) \<and> (of_char c :: int) \<le> 57"

fun number_loop :: "string \<Rightarrow> int \<Rightarrow> (string \<times> int) res" where
  "number_loop [] n = Inr ([], n)"
| "number_loop (c # cs) n =
     (if is_digit c then
        let n1 = n * 10 + (of_char c - 48)
        in if n1 > INT_MAX then Inl Undefined else number_loop cs n1
      else Inr (c # cs, n))"

definition va_arg_int :: "varg list \<Rightarrow> (u32 \<times> varg list) res" where
  "va_arg_int args = (case args of VInt w # rest \<Rightarrow> Inr (w, rest) | _ \<Rightarrow> Inl Undefined)"

definition va_arg_long :: "varg list \<Rightarrow> (u64 \<times> varg list) res" where
  "va_arg_long args = (case args of VLong w # rest \<Rightarrow> Inr (w, rest) | _ \<Rightarrow> Inl Undefined)"

definition va_arg_ptr :: "varg list \<Rightarrow> (u64 \<times> varg list) res" where
  "va_arg_ptr args = (case args of VPtr w # rest \<Rightarrow> Inr (w, rest) | _ \<Rightarrow> Inl Undefined)"

definition va_arg_str :: "varg list \<Rightarrow> (string option \<times> varg list) res" where
  "va_arg_str args = (case args of VStr s # rest \<Rightarrow> Inr (s, rest) | _ \<Rightarrow> Inl Undefined)"

definition next_is :: "char \<Rightarrow> string \<Rightarrow> bool" where
  "next_is c cs \<longleftrightarrow> cs \<noteq> [] \<and> hd cs = c"

definition parse_width :: "string \<Rightarrow> varg list \<Rightarrow> fspec \<Rightarrow> (string \<times> varg list \<times> fspec) res" where
  "parse_width cs args f =
     (if next_is CHR ''*'' cs then
        bind_res (va_arg_int args) (\<lambda>(w, args1).
          if sint w < 0 then
            if - sint w > INT_MAX then Inl Undefined
            else Inr (tl cs, args1, f\<lparr>f_left := True, f_width := - sint w\<rparr>)
          else Inr (tl cs, args1, f\<lparr>f_width := sint w\<rparr>))
      else bind_res (number_loop cs 0) (\<lambda>(rest, n). Inr (rest, args, f\<lparr>f_width := n\<rparr>)))"

definition parse_prec :: "string \<Rightarrow> varg list \<Rightarrow> fspec \<Rightarrow> (string \<times> varg list \<times> fspec) res" where
  "parse_prec cs args f =
     (if next_is CHR ''.'' cs then
        let cs1 = tl cs in
        if next_is CHR ''*'' cs1 then
          bind_res (va_arg_int args) (\<lambda>(w, args1).
            Inr (tl cs1, args1, f\<lparr>f_prec := if sint w < 0 then - 1 else sint w\<rparr>))
        else bind_res (number_loop cs1 0) (\<lambda>(rest, n). Inr (rest, args, f\<lparr>f_prec := n\<rparr>))
      else Inr (cs, args, f))"

definition parse_lmod :: "string \<Rightarrow> fspec \<Rightarrow> string \<times> fspec" where
  "parse_lmod cs f =
     (if next_is CHR ''h'' cs then
        if next_is CHR ''h'' (tl cs) then (tl (tl cs), f\<lparr>f_lmod := - 2\<rparr>) else (tl cs, f\<lparr>f_lmod := - 1\<rparr>)
      else if next_is CHR ''l'' cs then
        if next_is CHR ''l'' (tl cs) then (tl (tl cs), f\<lparr>f_lmod := 2\<rparr>) else (tl cs, f\<lparr>f_lmod := 1\<rparr>)
      else if next_is CHR ''z'' cs \<or> next_is CHR ''t'' cs then (tl cs, f\<lparr>f_lmod := 1\<rparr>)
      else (cs, f))"

definition parse_spec :: "string \<Rightarrow> varg list \<Rightarrow> (string \<times> varg list \<times> fspec) res" where
  "parse_spec cs args =
     (let (cs1, f1) = flag_loop cs no_spec;
          f2 = (if f_left f1 then f1\<lparr>f_zero := False\<rparr> else f1)
      in bind_res (parse_width cs1 args f2) (\<lambda>(cs3, args3, f3).
         bind_res (parse_prec cs3 args3 f3) (\<lambda>(cs4, args4, f4).
         let (cs5, f5) = parse_lmod cs4 f4 in Inr (cs5, args4, f5))))"

text \<open>The integer arguments by length modifier, extended to 64 bits.\<close>

definition arg_signed :: "int \<Rightarrow> varg list \<Rightarrow> (u64 \<times> varg list) res" where
  "arg_signed lmod args =
     (if lmod = 2 \<or> lmod = 1 then va_arg_long args
      else bind_res (va_arg_int args) (\<lambda>(w, rest).
        Inr (if lmod = - 1 then scast (ucast w :: u16)
             else if lmod = - 2 then scast (ucast w :: u8)
             else scast w, rest)))"

definition arg_unsigned :: "int \<Rightarrow> varg list \<Rightarrow> (u64 \<times> varg list) res" where
  "arg_unsigned lmod args =
     (if lmod = 2 \<or> lmod = 1 then va_arg_long args
      else bind_res (va_arg_int args) (\<lambda>(w, rest).
        Inr (if lmod = - 1 then ucast (ucast w :: u16)
             else if lmod = - 2 then ucast (ucast w :: u8)
             else ucast w, rest)))"

definition convert :: "char \<Rightarrow> fspec \<Rightarrow> varg list \<Rightarrow> outbuf \<Rightarrow> (varg list \<times> outbuf) res" where
  "convert c f args b =
     (if c = CHR ''%'' then Inr (args, putc_safe CHR ''%'' b)
      else if c = CHR ''c'' then
        bind_res (va_arg_int args) (\<lambda>(w, rest).
          let ch = char_of (uint (ucast w :: u8));
              b1 = (if \<not> f_left f then pad_buf CHR '' '' (f_width f - 1) b else b);
              b2 = putc_safe ch b1
          in Inr (rest, if f_left f then pad_buf CHR '' '' (f_width f - 1) b2 else b2))
      else if c = CHR ''s'' then
        bind_res (va_arg_str args) (\<lambda>(s, rest). Inr (rest, print_str_w s (f_width f) (f_prec f) (f_left f) b))
      else if c = CHR ''d'' \<or> c = CHR ''i'' then
        bind_res (arg_signed (f_lmod f) args) (\<lambda>(v, rest).
          Inr (rest, print_int_w v (f_width f) (f_prec f) (f_left f) (f_zero f) (f_plus f \<or> f_space f) b))
      else if c = CHR ''u'' then
        bind_res (arg_unsigned (f_lmod f) args) (\<lambda>(v, rest).
          Inr (rest, print_uint_w v 10 False (f_width f) (f_prec f) (f_left f) (f_zero f) False b))
      else if c = CHR ''x'' \<or> c = CHR ''X'' then
        bind_res (arg_unsigned (f_lmod f) args) (\<lambda>(v, rest).
          Inr (rest, print_uint_w v 16 (c = CHR ''X'') (f_width f) (f_prec f) (f_left f) (f_zero f) (f_hash f) b))
      else if c = CHR ''o'' then
        bind_res (if f_lmod f = 2 \<or> f_lmod f = 1 then va_arg_long args
                  else bind_res (va_arg_int args) (\<lambda>(w, rest). Inr (ucast w, rest))) (\<lambda>(v, rest).
          Inr (rest, print_uint_w v 8 False (f_width f) (f_prec f) (f_left f) (f_zero f) (f_hash f) b))
      else if c = CHR ''p'' then
        bind_res (va_arg_ptr args) (\<lambda>(v, rest).
          Inr (rest, print_uint_w v 16 False 16 16 False True False (putc_safe CHR ''x'' (putc_safe CHR ''0'' b))))
      else if c = CHR ''n'' then bind_res (va_arg_ptr args) (\<lambda>(_, rest). Inr (rest, b))
      else Inr (args, putc_safe c (putc_safe CHR ''%'' b)))"

section \<open>The main loop\<close>

lemma flag_loop_length: "length (fst (flag_loop cs f)) \<le> length cs"
  by (induction cs f rule: flag_loop.induct) auto

lemma number_loop_length: "number_loop cs n = Inr (rest, k) \<Longrightarrow> length rest \<le> length cs"
  by (induction cs n rule: number_loop.induct) (auto simp: Let_def split: if_splits)

lemma parse_width_length: "parse_width cs args f = Inr (rest, x) \<Longrightarrow> length rest \<le> length cs"
  by (auto simp: parse_width_def bind_res_Inr_iff dest: number_loop_length split: if_splits)

lemma parse_prec_length: "parse_prec cs args f = Inr (rest, x) \<Longrightarrow> length rest \<le> length cs"
  by (auto simp: parse_prec_def Let_def bind_res_Inr_iff dest: number_loop_length split: if_splits)

lemma parse_lmod_length: "length (fst (parse_lmod cs f)) \<le> length cs"
  by (auto simp: parse_lmod_def)

lemma parse_spec_length:
  assumes "parse_spec cs args = Inr (rest, x)"
  shows "length rest \<le> length cs"
proof -
  obtain cs1 f1 where f: "flag_loop cs no_spec = (cs1, f1)" by fastforce
  let ?f2 = "if f_left f1 then f1\<lparr>f_zero := False\<rparr> else f1"
  obtain cs3 args3 f3 where w: "parse_width cs1 args ?f2 = Inr (cs3, args3, f3)"
    and p: "bind_res (parse_prec cs3 args3 f3) (\<lambda>(cs4, args4, f4). let (cs5, f5) = parse_lmod cs4 f4 in Inr (cs5, args4, f5)) = Inr (rest, x)"
    using assms f by (auto simp: parse_spec_def Let_def elim!: bind_res_InrE)
  then obtain cs4 args4 f4 where l: "parse_prec cs3 args3 f3 = Inr (cs4, args4, f4)" "rest = fst (parse_lmod cs4 f4)"
    by (auto simp: case_prod_unfold Let_def elim!: bind_res_InrE)
  have "length cs1 \<le> length cs" using flag_loop_length [of cs no_spec] f by simp
  then show ?thesis using parse_width_length [OF w] parse_prec_length [OF l(1)] parse_lmod_length [of cs4 f4] l(2) by simp
qed

lemma bind_res_cong [fundef_cong]:
  "m = m' \<Longrightarrow> (\<And>x. m' = Inr x \<Longrightarrow> f x = g x) \<Longrightarrow> bind_res m f = bind_res m' g"
  by (cases m') auto

text \<open>
  A conversion that the end of the format cuts off prints the terminator and moves past
  it, which is undefined.
\<close>

function format_loop :: "string \<Rightarrow> varg list \<Rightarrow> outbuf \<Rightarrow> outbuf res" where
  "format_loop [] args b = Inr b"
| "format_loop (c # cs) args b =
     (if c \<noteq> CHR ''%'' then format_loop cs args (putc_safe c b)
      else bind_res (parse_spec cs args) (\<lambda>(rest, args1, f).
        case rest of [] \<Rightarrow> Inl Undefined
        | k # rest1 \<Rightarrow> bind_res (convert k f args1 b) (\<lambda>(args2, b1). format_loop rest1 args2 b1)))"
  by pat_completeness auto

termination by (relation "measure (\<lambda>(cs, _, _). length cs)") (auto dest: parse_spec_length)

text \<open>
  The result is the returned count and the characters in the buffer, which a terminator
  follows; without a buffer nothing is written.
\<close>

definition vsnprintf :: "bool \<Rightarrow> u64 \<Rightarrow> string \<Rightarrow> varg list \<Rightarrow> (int \<times> string option) res" where
  "vsnprintf buf_null sz fmt args =
     (if buf_null \<or> sz = 0 then Inr (0, None)
      else bind_res (format_loop fmt args \<lparr>o_chars = [], o_cap = unat (sz - 1), o_total = 0\<rparr>) (\<lambda>b.
        if o_total b > INT_MAX then Inl Undefined else Inr (o_total b, Some (o_chars b))))"

definition ksnprintf :: "bool \<Rightarrow> u64 \<Rightarrow> string \<Rightarrow> varg list \<Rightarrow> (int \<times> string option) res" where
  "ksnprintf buf_null sz fmt args = vsnprintf buf_null sz fmt args"

abbreviation (input) KPRINTF_BUF_SZ :: u64 where "KPRINTF_BUF_SZ \<equiv> 1024"

definition ksprintf :: "bool \<Rightarrow> string \<Rightarrow> varg list \<Rightarrow> (int \<times> string option) res" where
  "ksprintf buf_null fmt args = vsnprintf buf_null KPRINTF_BUF_SZ fmt args"

text \<open>
  The text that \<open>kprintf\<close> and \<open>kprintf_color\<close> send to the console: the end of a
  truncated text is replaced by a mark.  The text ends at the first NUL, which only a
  \<open>%c\<close> can have put there.
\<close>

definition trunc_mark :: string where
  "trunc_mark = ''...[TRUNCATED]'' @ [CHR 0x0A]"

definition kprintf_text :: "string \<Rightarrow> varg list \<Rightarrow> string res" where
  "kprintf_text fmt args =
     bind_res (vsnprintf False KPRINTF_BUF_SZ fmt args) (\<lambda>(written, s).
       let buf = the s in
       Inr (takeWhile (\<lambda>c. c \<noteq> CHR 0x00)
         (if written \<ge> 1024 then take (1024 - 1 - length trunc_mark) buf @ trunc_mark else buf)))"

text \<open>\<open>kprint_int\<close> writes a number to the serial port without a buffer.\<close>

definition kprint_int :: "u64 \<Rightarrow> u64 \<Rightarrow> bool \<Rightarrow> string res" where
  "kprint_int n base sign =
     (if sign \<and> n = 0x8000000000000000 then Inl Undefined
      else let (minus, m) = (if sign \<and> sint n < 0 then ([CHR ''-''], - n) else ([], n))
        in if m = 0 then Inr (minus @ ''0'') else Inr (minus @ rev (digit_loop base False m)))"

section \<open>The reference formatter\<close>

text \<open>
  What a format stands for, as a string: fields are built with padding on one side,
  numbers from their digits as natural numbers.
\<close>

definition digit_char :: "bool \<Rightarrow> nat \<Rightarrow> char" where
  "digit_char upper d = char_of (if d < 10 then 48 + d else if upper then 55 + d else 87 + d)"

fun nat_digits :: "nat \<Rightarrow> nat \<Rightarrow> nat list" where
  "nat_digits base n = (if n < base \<or> base < 2 then [n] else nat_digits base (n div base) @ [n mod base])"

declare nat_digits.simps [simp del]

definition number :: "nat \<Rightarrow> bool \<Rightarrow> nat \<Rightarrow> string" where
  "number base upper n = map (digit_char upper) (nat_digits base n)"

definition field :: "bool \<Rightarrow> bool \<Rightarrow> int \<Rightarrow> string \<Rightarrow> string \<Rightarrow> string" where
  "field left zero width pfx body =
     (let pad = nat (width - int (length pfx + length body)) in
      if left then pfx @ body @ replicate pad CHR '' ''
      else if zero then pfx @ replicate pad CHR ''0'' @ body
      else replicate pad CHR '' '' @ pfx @ body)"

definition with_prec :: "int \<Rightarrow> string \<Rightarrow> string" where
  "with_prec prec ds = replicate (nat prec - length ds) CHR ''0'' @ ds"

definition str_field :: "string option \<Rightarrow> fspec \<Rightarrow> string" where
  "str_field s f = (let t = (case s of None \<Rightarrow> ''(null)'' | Some u \<Rightarrow> u)
     in field (f_left f) False (f_width f) [] (if f_prec f < 0 then t else take (nat (f_prec f)) t))"

definition int_field :: "int \<Rightarrow> fspec \<Rightarrow> string" where
  "int_field v f =
     field (f_left f) (f_zero f) (f_width f)
       (if v < 0 then ''-'' else if f_plus f \<or> f_space f then ''+'' else [])
       (with_prec (f_prec f) (number 10 False (nat \<bar>v\<bar>)))"

definition uint_field :: "nat \<Rightarrow> nat \<Rightarrow> bool \<Rightarrow> bool \<Rightarrow> fspec \<Rightarrow> string" where
  "uint_field v base upper prefix f =
     field (f_left f) (f_zero f) (f_width f)
       (if prefix \<and> v \<noteq> 0 then if base = 16 then if upper then ''0X'' else ''0x'' else if base = 8 then ''0'' else [] else [])
       (with_prec (f_prec f) (number base upper v))"

definition conversion :: "char \<Rightarrow> fspec \<Rightarrow> varg list \<Rightarrow> (varg list \<times> string) res" where
  "conversion c f args =
     (if c = CHR ''%'' then Inr (args, ''%'')
      else if c = CHR ''c'' then
        bind_res (va_arg_int args) (\<lambda>(w, rest). Inr (rest, field (f_left f) False (f_width f) [] [char_of (uint w mod 256)]))
      else if c = CHR ''s'' then bind_res (va_arg_str args) (\<lambda>(s, rest). Inr (rest, str_field s f))
      else if c = CHR ''d'' \<or> c = CHR ''i'' then
        bind_res (arg_signed (f_lmod f) args) (\<lambda>(v, rest). Inr (rest, int_field (sint v) f))
      else if c = CHR ''u'' then
        bind_res (arg_unsigned (f_lmod f) args) (\<lambda>(v, rest). Inr (rest, uint_field (unat v) 10 False False f))
      else if c = CHR ''x'' \<or> c = CHR ''X'' then
        bind_res (arg_unsigned (f_lmod f) args) (\<lambda>(v, rest). Inr (rest, uint_field (unat v) 16 (c = CHR ''X'') (f_hash f) f))
      else if c = CHR ''o'' then
        bind_res (if f_lmod f = 2 \<or> f_lmod f = 1 then va_arg_long args
                  else bind_res (va_arg_int args) (\<lambda>(w, rest). Inr (ucast w, rest))) (\<lambda>(v, rest).
          Inr (rest, uint_field (unat v) 8 False (f_hash f) f))
      else if c = CHR ''p'' then
        bind_res (va_arg_ptr args) (\<lambda>(v, rest). Inr (rest, ''0x'' @ with_prec 16 (number 16 False (unat v))))
      else if c = CHR ''n'' then bind_res (va_arg_ptr args) (\<lambda>(_, rest). Inr (rest, []))
      else Inr (args, [CHR ''%'', c]))"

function format :: "string \<Rightarrow> varg list \<Rightarrow> string res" where
  "format [] args = Inr []"
| "format (c # cs) args =
     (if c \<noteq> CHR ''%'' then bind_res (format cs args) (\<lambda>s. Inr (c # s))
      else bind_res (parse_spec cs args) (\<lambda>(rest, args1, f).
        case rest of [] \<Rightarrow> Inl Undefined
        | k # rest1 \<Rightarrow> bind_res (conversion k f args1) (\<lambda>(args2, s). bind_res (format rest1 args2) (\<lambda>t. Inr (s @ t)))))"
  by pat_completeness auto

termination by (relation "measure (\<lambda>(cs, _). length cs)") (auto dest: parse_spec_length)

section \<open>Output and strings\<close>

definition emit :: "string \<Rightarrow> outbuf \<Rightarrow> outbuf" where
  "emit s b = b\<lparr>o_chars := take (o_cap b) (o_chars b @ s), o_total := o_total b + int (length s)\<rparr>"

definition out_ok :: "outbuf \<Rightarrow> bool" where
  "out_ok b \<longleftrightarrow> length (o_chars b) \<le> o_cap b"

lemma emit_ok [simp]: "out_ok (emit s b)"
  by (simp add: out_ok_def emit_def)

lemma emit_Nil: "out_ok b \<Longrightarrow> emit [] b = b"
  by (simp add: emit_def out_ok_def)

lemma take_take_append: "take n (take n xs @ t) = take n (xs @ t)"
  by (cases "n \<le> length xs") simp_all

lemma emit_append: "emit t (emit s b) = emit (s @ t) b"
  by (simp add: emit_def take_take_append del: take_append)

lemma putc_emit: "out_ok b \<Longrightarrow> putc_safe c b = emit [c] b"
  by (auto simp: putc_safe_def emit_def out_ok_def Let_def)

lemma puts_emit: "out_ok b \<Longrightarrow> puts_buf s b = emit s b"
proof (induction s arbitrary: b)
  case (Cons c s)
  then show ?case by (simp add: putc_emit emit_append)
qed (simp add: emit_Nil)

lemma pad_emit: "out_ok b \<Longrightarrow> pad_buf c n b = emit (replicate (nat n) c) b"
proof (induction c n b rule: pad_buf.induct)
  case (1 c n b)
  show ?case
  proof (cases "n > 0")
    case True
    then have "replicate (nat n) c = c # replicate (nat (n - 1)) c" by (metis Suc_nat_eq_nat_zadd1 diff_add_cancel zle_diff1_eq replicate_Suc add.commute)
    then show ?thesis using True 1 by (subst pad_buf.simps) (simp add: putc_emit emit_append)
  next
    case False
    then show ?thesis using 1 by (subst pad_buf.simps) (simp add: emit_Nil)
  qed
qed

lemmas to_emit = putc_emit puts_emit pad_emit emit_append


section \<open>Numbers\<close>

lemma digit_table:
  "\<forall>upper\<in>set [True, False]. \<forall>d\<in>set [0..<16].
     digits upper ! d = digit_char upper d \<and> (digit_char upper d = CHR ''0'' \<longleftrightarrow> d = 0)"
  by code_simp

lemma digits_nth: "d < 16 \<Longrightarrow> digits upper ! d = digit_char upper d"
  using digit_table by (cases upper) auto

lemma digit_char_0: "d < 16 \<Longrightarrow> digit_char upper d = CHR ''0'' \<longleftrightarrow> d = 0"
  using digit_table by (cases upper) auto

lemma digit_loop_number:
  assumes "val \<noteq> 0" "2 \<le> base" "base \<le> 16"
  shows "rev (digit_loop base upper val) = number (unat base) upper (unat val)"
  using assms
proof (induction base upper val rule: digit_loop.induct)
  case (1 base upper val)
  have b: "2 \<le> unat base" "unat base \<le> 16" using "1.prems" by (simp_all add: word_le_nat_alt)
  have n: "\<not> (val = 0 \<or> base < 2)" using "1.prems" by auto
  have d: "digits upper ! unat (val mod base) = digit_char upper (unat val mod unat base)"
    using b by (simp add: unat_mod digits_nth order.strict_trans2 [OF mod_less_divisor])
  show ?case
  proof (cases "unat val < unat base")
    case True
    then have "val div base = 0" by (simp add: word_unat_eq_iff unat_div)
    moreover have "digit_loop base upper 0 = []" by (subst digit_loop.simps) simp
    ultimately show ?thesis using True n d b
      by (subst digit_loop.simps, subst number_def, subst nat_digits.simps) simp
  next
    case False
    then have "0 < unat val div unat base" using b by (simp add: div_greater_zero_iff)
    then have "val div base \<noteq> 0" by (metis unat_div unat_0 less_irrefl)
    then have "rev (digit_loop base upper (val div base)) = number (unat base) upper (unat val div unat base)"
      using "1.IH" [OF n] "1.prems" by (simp add: unat_div)
    then show ?thesis using False n d b
      by (subst digit_loop.simps, subst number_def, subst nat_digits.simps) (simp add: number_def)
  qed
qed

text \<open>The digits that both number routines collect in \<open>tmp\<close>.\<close>

lemma tmp_number:
  assumes "2 \<le> base" "base \<le> 16"
  shows "rev (if v = 0 then ''0'' else digit_loop base upper v) = number (unat base) upper (unat v)"
proof (cases "v = 0")
  case True
  have "digit_char upper 0 = CHR ''0''" using digit_char_0 [of 0] by simp
  moreover have "0 < unat base" using assms by (simp add: word_le_nat_alt)
  ultimately show ?thesis using True by (simp add: number_def nat_digits.simps [of _ 0])
next
  case False
  then show ?thesis using digit_loop_number [OF False assms] by simp
qed

lemma nat_digits_nonempty [simp]: "nat_digits base n \<noteq> []"
  by (subst nat_digits.simps) simp

lemma nat_digits_hd: "0 < n \<Longrightarrow> hd (nat_digits base n) \<noteq> 0"
proof (induction base n rule: nat_digits.induct)
  case (1 base n)
  show ?case
  proof (cases "n < base \<or> base < 2")
    case True
    then show ?thesis using 1 by (subst nat_digits.simps) simp
  next
    case False
    then have "0 < n div base" by (simp add: div_greater_zero_iff)
    then show ?thesis using False 1 by (subst nat_digits.simps) simp
  qed
qed

lemma nat_digits_less: "2 \<le> base \<Longrightarrow> d \<in> set (nat_digits base n) \<Longrightarrow> d < base"
proof (induction base n rule: nat_digits.induct)
  case (1 base n)
  then show ?case by (cases "n < base \<or> base < 2") (auto simp: nat_digits.simps [of base n])
qed

lemma leading_digit:
  assumes "2 \<le> base" "base \<le> 16"
  shows "hd (number base upper n) = CHR ''0'' \<longleftrightarrow> n = 0"
proof -
  have h: "hd (number base upper n) = digit_char upper (hd (nat_digits base n))" by (simp add: number_def hd_map)
  have "hd (nat_digits base n) < 16" using nat_digits_less [OF assms(1) hd_in_set [OF nat_digits_nonempty]] assms(2) by (meson order.strict_trans2)
  then have "hd (number base upper n) = CHR ''0'' \<longleftrightarrow> hd (nat_digits base n) = 0" using h digit_char_0 by simp
  also have "\<dots> \<longleftrightarrow> n = 0" using nat_digits_hd [of n base] assms(1) by (cases "n = 0") (simp_all add: nat_digits.simps [of base 0])
  finally show ?thesis .
qed

lemma field_emit:
  assumes "out_ok b" "ds = rev tmp" "n = int (length tmp)"
    "digit_n = (if prec > n then prec else n)" "pad_n = (if width > int (length pfx) + digit_n then width - (int (length pfx) + digit_n) else 0)"
  shows "(let b1 = (if \<not> left \<and> zero then pad_buf CHR ''0'' pad_n (puts_buf pfx b)
                else if \<not> left then puts_buf pfx (pad_buf CHR '' '' pad_n b)
                else puts_buf pfx b);
          b2 = puts_buf (rev tmp) (pad_buf CHR ''0'' (digit_n - n) b1)
      in if left then pad_buf CHR '' '' pad_n b2 else b2)
    = emit (field left zero width pfx (with_prec prec ds)) b"
proof -
  have z: "replicate (nat prec - length ds) CHR ''0'' @ rev tmp = with_prec prec ds"
    using assms(2) by (simp add: with_prec_def)
  have d: "nat (digit_n - n) = nat prec - length ds" using assms(2-4) by auto
  have "int (length (with_prec prec ds)) = digit_n" using assms(2-4) by (auto simp: with_prec_def)
  then have p: "nat pad_n = nat (width - int (length pfx + length (with_prec prec ds)))" using assms(5) by auto
  show ?thesis using assms(1) z [symmetric] by (simp add: to_emit field_def p d Let_def assms(2))
qed

lemma print_uint_emit:
  assumes "out_ok b" "base \<in> {8, 10, 16}"
  shows "print_uint_w v base upper width prec left zero prefix b =
    emit (uint_field (unat v) (unat base) upper prefix
      (no_spec\<lparr>f_left := left, f_zero := zero, f_width := width, f_prec := prec\<rparr>)) b"
proof -
  let ?tmp = "if v = 0 then ''0'' else digit_loop base upper v"
  let ?pfx = "if prefix \<and> base = 16 \<and> v \<noteq> 0 then [CHR ''0'', if upper then CHR ''X'' else CHR ''x'']
    else if prefix \<and> base = 8 \<and> last ?tmp \<noteq> CHR ''0'' then [CHR ''0''] else []"
  have bs: "2 \<le> base" "base \<le> 16" "2 \<le> unat base" "unat base \<le> 16" using assms(2) by auto
  have t: "rev ?tmp = number (unat base) upper (unat v)" using tmp_number [OF bs(1,2)] .
  have "last ?tmp = hd (rev ?tmp)" by (simp only: hd_rev)
  then have l: "last ?tmp = CHR ''0'' \<longleftrightarrow> v = 0"
    using leading_digit [OF bs(3,4), of upper "unat v"] unfolding t by (simp add: unat_eq_0)
  have pfx: "?pfx = (if prefix \<and> unat v \<noteq> 0 then if unat base = 16 then if upper then ''0X'' else ''0x'' else if unat base = 8 then ''0'' else [] else [])"
    unfolding l using assms(2) by (auto simp: unat_eq_0)
  have "print_uint_w v base upper width prec left zero prefix b =
      emit (field left zero width ?pfx (with_prec prec (rev ?tmp))) b"
    unfolding print_uint_w_def using field_emit [OF assms(1) refl refl refl refl, where left = left and zero = zero and tmp = ?tmp and prec = prec and width = width and pfx = ?pfx] unfolding Let_def .
  then show ?thesis unfolding t pfx uint_field_def by (simp add: no_spec_def)
qed

lemma unat_word_of_int: "0 \<le> x \<Longrightarrow> x < 2 ^ 64 \<Longrightarrow> unat (word_of_int x :: u64) = nat x"
  by (simp add: unsigned_of_int take_bit_int_eq_self)

lemma unat_abs_sint: "unat (if sint v < 0 then - (v + 1) + 1 else v) = nat \<bar>sint (v :: u64)\<bar>"
proof (cases "sint v < 0")
  case True
  have "- (2 ^ 63) \<le> sint v" using sint_ge [of v] by simp
  moreover have "- v = word_of_int (- sint v)" by (simp add: wi_hom_neg [symmetric])
  ultimately show ?thesis using True unat_word_of_int [of "- sint v"] by simp
next
  case False
  moreover have "sint v < 2 ^ 63" using sint_lt [of v] by simp
  ultimately show ?thesis using unat_word_of_int [of "sint v"] by simp
qed

lemma print_int_emit:
  assumes "out_ok b"
  shows "print_int_w v width prec left zero force_sign b =
    emit (int_field (sint v) (no_spec\<lparr>f_left := left, f_zero := zero, f_width := width, f_prec := prec, f_plus := force_sign\<rparr>)) b"
proof -
  let ?sign = "if sint v < 0 then [CHR ''-''] else if force_sign then [CHR ''+''] else []"
  let ?uv = "if sint v < 0 then - (v + 1) + 1 else v"
  let ?tmp = "if ?uv = 0 then ''0'' else digit_loop 10 False ?uv"
  have u: "unat ?uv = nat \<bar>sint v\<bar>" by (rule unat_abs_sint)
  have t: "rev ?tmp = number 10 False (nat \<bar>sint v\<bar>)" using tmp_number [of 10 ?uv False] unfolding u by simp
  have split: "(if sint v < 0 then ([CHR ''-''], - (v + 1) + 1) else (if force_sign then [CHR ''+''] else [], v)) = (?sign, ?uv)"
    by simp
  have "print_int_w v width prec left zero force_sign b =
      emit (field left zero width ?sign (with_prec prec (rev ?tmp))) b"
    unfolding print_int_w_def split
    using field_emit [OF assms refl refl refl refl, where left = left and zero = zero and tmp = ?tmp and prec = prec and width = width and pfx = ?sign]
    unfolding Let_def prod.case .
  then show ?thesis unfolding t int_field_def by (simp add: no_spec_def)
qed

lemma str_len_le: "0 \<le> len \<Longrightarrow> str_len s prec len = len + int (length (if prec < 0 then s else take (nat (prec - len)) s))"
proof (induction s prec len rule: str_len.induct)
  case (2 c cs prec len)
  show ?case
  proof (cases "prec < 0 \<or> len < prec")
    case True
    then have "nat (prec - len) = Suc (nat (prec - (len + 1)))" if "\<not> prec < 0" using that by auto
    then show ?thesis using True 2 by (auto simp: algebra_simps)
  next
    case False
    then show ?thesis by simp
  qed
qed simp

lemma print_str_emit:
  assumes "out_ok b"
  shows "print_str_w s width prec left b = emit (str_field s (no_spec\<lparr>f_left := left, f_width := width, f_prec := prec\<rparr>)) b"
proof -
  define t where "t = (case s of None \<Rightarrow> ''(null)'' | Some u \<Rightarrow> u)"
  let ?u = "if prec < 0 then t else take (nat prec) t"
  have l: "str_len t prec 0 = int (length ?u)" using str_len_le [of 0 t prec] by simp
  have u: "take (nat (int (length ?u))) t = ?u" by (simp add: min_def)
  have "nat (if width > int (length ?u) then width - int (length ?u) else 0) = nat (width - int (length ?u))" by auto
  then show ?thesis using assms
    unfolding print_str_w_def str_field_def t_def [symmetric] Let_def l u by (simp add: to_emit field_def no_spec_def)
qed

text \<open>The digits fit the arrays they are collected in: 64 places for any base, 22 for decimal and octal.\<close>

lemma digit_loop_length: "unat val < unat base ^ k \<Longrightarrow> length (digit_loop base upper val) \<le> k"
proof (induction k arbitrary: val)
  case 0
  then have "val = 0" by (simp add: unat_eq_0)
  then show ?case by (subst digit_loop.simps) simp
next
  case (Suc k)
  then have "unat (val div base) < unat base ^ k"
    by (simp add: unat_div div_less_iff_less_mult mult.commute less_mult_imp_div_less)
  then show ?case using Suc.IH by (subst digit_loop.simps) simp
qed

lemma digit_buffers:
  "base \<in> {8, 10, 16} \<Longrightarrow> length (digit_loop base upper val) \<le> 22"
  "2 \<le> base \<Longrightarrow> length (digit_loop base upper val) \<le> 64"
proof -
  have v: "unat val < 18446744073709551616" using unsigned_less [of val, where ?'a = nat] by simp
  show "base \<in> {8, 10, 16} \<Longrightarrow> length (digit_loop base upper val) \<le> 22"
    using v by (intro digit_loop_length) auto
  assume "2 \<le> base"
  then have "(2 :: nat) ^ 64 \<le> unat base ^ 64" by (intro power_mono) (simp_all add: word_le_nat_alt)
  then show "length (digit_loop base upper val) \<le> 64" using v by (intro digit_loop_length) simp
qed

section \<open>The formatter as a whole\<close>

lemma field_spec [simp]:
  "uint_field v base upper prefix (no_spec\<lparr>f_left := f_left f, f_zero := f_zero f, f_width := f_width f, f_prec := f_prec f\<rparr>) =
     uint_field v base upper prefix f"
  "int_field i (no_spec\<lparr>f_left := f_left f, f_zero := f_zero f, f_width := f_width f, f_prec := f_prec f, f_plus := f_plus f \<or> f_space f\<rparr>) =
     int_field i f"
  "str_field s (no_spec\<lparr>f_left := f_left f, f_width := f_width f, f_prec := f_prec f\<rparr>) = str_field s f"
  by (simp_all add: uint_field_def int_field_def str_field_def no_spec_def cong: if_cong)

lemma pointer_field:
  "uint_field v 16 False False (no_spec\<lparr>f_left := False, f_zero := True, f_width := 16, f_prec := 16\<rparr>) =
     with_prec 16 (number 16 False v)"
  by (simp add: uint_field_def field_def with_prec_def no_spec_def)

lemma char_emit:
  "out_ok b \<Longrightarrow>
   (let b1 = (if \<not> left then pad_buf CHR '' '' (width - 1) b else b); b2 = putc_safe ch b1
    in if left then pad_buf CHR '' '' (width - 1) b2 else b2) = emit (field left False width [] [ch]) b"
  by (simp add: to_emit field_def Let_def)

lemma convert_emit:
  assumes "out_ok b"
  shows "convert c f args b = bind_res (conversion c f args) (\<lambda>(rest, s). Inr (rest, emit s b))"
proof -
  have ch: "char_of (uint (ucast w :: u8)) = char_of (uint w mod 256)" for w :: u32
    by (simp add: unsigned_ucast_eq take_bit_eq_mod)
  have cs: "(let ch = char_of (uint w mod 256); b1 = (if \<not> f_left f then pad_buf CHR '' '' (f_width f - 1) b else b); b2 = putc_safe ch b1
      in Inr (rest, if f_left f then pad_buf CHR '' '' (f_width f - 1) b2 else b2) :: (varg list \<times> outbuf) res) =
      Inr (rest, emit (field (f_left f) False (f_width f) [] [char_of (uint w mod 256)]) b)" for w :: u32 and rest
    using char_emit [OF assms, of "f_left f" "f_width f" "char_of (uint w mod 256)"] by (simp add: Let_def)
  show ?thesis using assms
    unfolding convert_def conversion_def ch cs
    by (simp add: bind_res_assoc case_prod_unfold to_emit print_uint_emit print_int_emit print_str_emit pointer_field emit_Nil)
qed

lemma format_loop_emit:
  "out_ok b \<Longrightarrow> format_loop fmt args b = bind_res (format fmt args) (\<lambda>s. Inr (emit s b))"
proof (induction fmt args b rule: format_loop.induct)
  case (1 args b)
  then show ?case by (simp add: emit_Nil)
next
  case (2 c cs args b)
  show ?case
  proof (cases "c = CHR ''%''")
    case False
    then show ?thesis using 2 by (simp add: putc_emit emit_append bind_res_assoc)
  next
    case True
    show ?thesis
    proof (cases "parse_spec cs args")
      case (Inr x)
      obtain rest args1 f where x: "x = (rest, args1, f)" by (cases x)
      have "format_loop rest1 args2 b1 = bind_res (format rest1 args2) (\<lambda>s. Inr (emit s b1))"
        if "rest = k # rest1" "convert k f args1 b = Inr (args2, b1)" "out_ok b1" for k rest1 args2 b1
        using "2.IH"(2) that Inr x True by blast
      then show ?thesis using True Inr x "2.prems"
        by (cases rest; cases "conversion (hd rest) f args1")
          (auto simp: convert_emit bind_res_assoc emit_append)
    qed (use True in simp)
  qed
qed

lemma format_loop_start:
  "format_loop fmt args \<lparr>o_chars = [], o_cap = cap, o_total = 0\<rparr> =
    bind_res (format fmt args) (\<lambda>s. Inr \<lparr>o_chars = take cap s, o_cap = cap, o_total = int (length s)\<rparr>)"
  by (simp add: format_loop_emit out_ok_def emit_def)

text \<open>What \<open>kprintf\<close> sends to the console fits its buffer with the terminator; a cut text ends with the mark.\<close>

lemma kprintf_text_bounded:
  assumes "kprintf_text fmt args = Inr t"
  shows "length t \<le> 1023" "CHR 0x00 \<notin> set t"
proof -
  obtain s where "format fmt args = Inr s"
    and t: "t = takeWhile (\<lambda>c. c \<noteq> CHR 0x00)
      (if int (length s) \<ge> 1024 then take (1024 - 1 - length trunc_mark) (take 1023 s) @ trunc_mark else take 1023 s)"
    using assms by (auto simp: kprintf_text_def vsnprintf_def format_loop_start Let_def elim!: bind_res_InrE split: if_splits)
  have "length trunc_mark = 15" by (simp add: trunc_mark_def)
  then have "length (if int (length s) \<ge> 1024 then take (1024 - 1 - length trunc_mark) (take 1023 s) @ trunc_mark else take 1023 s) \<le> 1023"
    by simp
  then show "length t \<le> 1023" using length_takeWhile_le order_trans unfolding t by blast
  show "CHR 0x00 \<notin> set t" unfolding t using set_takeWhileD by fastforce
qed

section \<open>Properties\<close>

text \<open>
  (C40) \<open>vsnprintf\<close> prints what the format stands for: the buffer receives the formatted
  text up to one character less than its size, and the result is the length of the whole
  text, whether it fits or not.  The formatted text is given by \<open>format\<close>, which builds
  fields as strings and numbers from their digits, after the same parsing of conversions and
  the same fetch of arguments.  The same cases are undefined: an
  argument of another type, a number in the format beyond an \<open>int\<close>, a conversion cut off
  by the end of the format; and a text longer than an \<open>int\<close> can count.
\<close>
theorem vsnprintf_formats:
  assumes "sz \<noteq> 0"
  shows "vsnprintf False sz fmt args =
    bind_res (format fmt args) (\<lambda>s.
      if int (length s) > INT_MAX then Inl Undefined else Inr (int (length s), Some (take (unat sz - 1) s)))"
proof -
  have "unat (sz - 1) = unat sz - 1" using assms by (simp add: unat_minus_one)
  then show ?thesis using assms
    by (simp add: vsnprintf_def format_loop_start bind_res_assoc cong: if_cong)
qed

theorem vsnprintf_formats_witness:
  "vsnprintf False 12 ''%-4s|%04x|%ld'' [VStr (Some ''ab''), VInt 0x2A, VLong (- 42)] = Inr (13, Some ''ab  |002a|-'')"
proof -
  have f: "format ''%-4s|%04x|%ld'' [VStr (Some ''ab''), VInt 0x2A, VLong (- 42)] = Inr ''ab  |002a|-42''" by code_simp
  show ?thesis using vsnprintf_formats [of 12 "''%-4s|%04x|%ld''" "[VStr (Some ''ab''), VInt 0x2A, VLong (- 42)]"]
    unfolding f by simp
qed

end
