(* ===== verification/Cpio.thy ===== *)
theory Cpio
  imports Kstring
begin

text \<open>
  Reader and writer of the initial ramdisk, an archive in the SVR4 ``newc'' format.  The
  reader is \<open>kernel/cpio.c\<close>: a cursor over an archive in memory, and a lookup by name.
  The writer is \<open>script/mkcpio.py\<close>, which builds the archives the kernel boots from.

  The archive is the list of its bytes together with its address; a read outside the
  list is \<open>Undefined\<close>.  The pointers of an entry are offsets into the archive.  The
  pointer arguments \<open>reader\<close> and \<open>entry\<close> of the C functions are addresses of objects
  of the caller and never null.  The writer's file is the list of bytes written so far,
  names are given in their encoded form, and a failed assertion of the script is \<open>None\<close>.
\<close>

section \<open>The reader\<close>

record cpio_entry =
  ce_name :: nat
  ce_data :: nat
  ce_size :: u32
  ce_mode :: u32

record cpio_reader =
  ar_archive :: "(u64 \<times> u8 list) option"
  ar_size :: u32
  ar_offset :: u32
  ar_finished :: bool

abbreviation (input) CPIO_HDR_LEN :: u64 where "CPIO_HDR_LEN \<equiv> 110"

definition cpio_magic :: "u8 list" where
  "cpio_magic = [48, 55, 48, 55, 48, 49]"

definition cpio_trailer :: "u8 list" where
  "cpio_trailer = [84, 82, 65, 73, 76, 69, 82, 33, 33, 33]"

definition bytes_at :: "u8 list \<Rightarrow> nat \<Rightarrow> nat \<Rightarrow> u8 list res" where
  "bytes_at a p n = (if p + n \<le> length a then Inr (take n (drop p a)) else Inl Undefined)"

definition cpio_reset :: "cpio_reader \<Rightarrow> cpio_reader" where
  "cpio_reset default_reader = \<lparr>ar_archive = None, ar_size = 0, ar_offset = 0, ar_finished = False\<rparr>"

definition hex_digit :: "u8 \<Rightarrow> u32 option" where
  "hex_digit c =
     (if 48 \<le> c \<and> c \<le> 57 then Some (ucast c - 48)
      else if 97 \<le> c \<and> c \<le> 102 then Some (ucast c - 97 + 10)
      else if 65 \<le> c \<and> c \<le> 70 then Some (ucast c - 65 + 10)
      else None)"

fun hex32_loop :: "u8 list \<Rightarrow> u32 \<Rightarrow> u32 option" where
  "hex32_loop [] v = Some v"
| "hex32_loop (c # s) v =
     (case hex_digit c of None \<Rightarrow> None | Some digit \<Rightarrow> hex32_loop s (push_bit 4 v OR digit))"

definition hex32 :: "u8 list \<Rightarrow> nat \<Rightarrow> u32 option res" where
  "hex32 a p = bind_res (bytes_at a p 8) (\<lambda>s. Inr (hex32_loop s 0))"

definition cpio_reader_init :: "(u64 \<times> u8 list) option \<Rightarrow> u32 \<Rightarrow> cpio_reader \<Rightarrow> (int \<times> cpio_reader) res" where
  "cpio_reader_init archive sz r =
     (case archive of
        None \<Rightarrow> Inr (- 1, r)
      | Some (base, a) \<Rightarrow>
          if base > - 1 - ucast sz \<or> sz < 111 then Inr (- 1, r)
          else bind_res (bytes_at a 0 6) (\<lambda>m.
            if m \<noteq> cpio_magic then Inr (- 1, r)
            else Inr (0, \<lparr>ar_archive = Some (base, a), ar_size = sz, ar_offset = 0, ar_finished = False\<rparr>)))"

text \<open>The header fields: name size, file size and mode, if all are well formed.\<close>

definition cpio_fields :: "u8 list \<Rightarrow> nat \<Rightarrow> (u32 \<times> u32 \<times> u32) option res" where
  "cpio_fields a hdr =
     bind_res (bytes_at a hdr 6) (\<lambda>m. if m \<noteq> cpio_magic then Inr None else
     bind_res (hex32 a (hdr + 94)) (\<lambda>namesize. case namesize of None \<Rightarrow> Inr None | Some namesize \<Rightarrow>
     bind_res (hex32 a (hdr + 54)) (\<lambda>filesize. case filesize of None \<Rightarrow> Inr None | Some filesize \<Rightarrow>
     bind_res (hex32 a (hdr + 14)) (\<lambda>mode. case mode of None \<Rightarrow> Inr None | Some mode \<Rightarrow>
       Inr (if namesize = 0 then None else Some (namesize, filesize, mode))))))"

definition align4 :: "u64 \<Rightarrow> u64" where
  "align4 n = (n + 3) AND NOT 3"

text \<open>The checks of name and data behind the header, and the new position of the cursor.\<close>

definition cpio_take_entry :: "u8 list \<Rightarrow> cpio_reader \<Rightarrow> u32 \<times> u32 \<times> u32 \<Rightarrow> (int \<times> cpio_entry option \<times> cpio_reader) res" where
  "cpio_take_entry a r f =
     (case f of (namesize, filesize, mode) \<Rightarrow>
      let size = ucast (ar_size r); name_start = ucast (ar_offset r) + CPIO_HDR_LEN in
      if ucast namesize > size - name_start then Inr (- 1, None, r) else
      bind_res (bytes_at a (unat name_start) (unat namesize)) (\<lambda>name.
      if last name \<noteq> 0 \<or> 0 \<in> set (butlast name) then Inr (- 1, None, r) else
      let data_start = align4 (name_start + ucast namesize) in
      if data_start > size \<or> ucast filesize > size - data_start then Inr (- 1, None, r) else
      let next = align4 (data_start + ucast filesize) in
      if next > size then Inr (- 1, None, r)
      else if namesize = 11 \<and> name = cpio_trailer @ [0] then
        (if filesize \<noteq> 0 then Inr (- 1, None, r) else Inr (0, None, r\<lparr>ar_finished := True\<rparr>))
      else Inr (1, Some \<lparr>ce_name = unat name_start, ce_data = unat data_start, ce_size = filesize, ce_mode = mode\<rparr>,
        r\<lparr>ar_offset := ucast next\<rparr>)))"

definition cpio_reader_next :: "cpio_reader \<Rightarrow> (int \<times> cpio_entry option \<times> cpio_reader) res" where
  "cpio_reader_next r =
     (case ar_archive r of None \<Rightarrow> Inr (- 1, None, r) | Some (base, a) \<Rightarrow>
      if ar_finished r then Inr (0, None, r) else
      let off = ucast (ar_offset r) :: u64; size = ucast (ar_size r) in
      if off > size \<or> size - off < CPIO_HDR_LEN then Inr (- 1, None, r) else
      bind_res (cpio_fields a (unat (ar_offset r))) (\<lambda>fields.
      case fields of None \<Rightarrow> Inr (- 1, None, r) | Some f \<Rightarrow> cpio_take_entry a r f))"

definition cpio_init :: "(u64 \<times> u8 list) option \<Rightarrow> u32 \<Rightarrow> cpio_reader \<Rightarrow> (int \<times> cpio_reader) res" where
  "cpio_init archive sz default_reader = cpio_reader_init archive sz default_reader"

definition cpio_next :: "cpio_reader \<Rightarrow> (int \<times> cpio_entry option \<times> cpio_reader) res" where
  "cpio_next default_reader = cpio_reader_next default_reader"

subsection \<open>Progress of the cursor\<close>

definition up4 :: "nat \<Rightarrow> nat" where
  "up4 n = (n + 3) div 4 * 4"

lemma up4_bounds: "n \<le> up4 n" "up4 n \<le> n + 3" "up4 n mod 4 = 0"
  by (simp_all add: up4_def)

lemma up4_add: "m mod 4 = 0 \<Longrightarrow> up4 (m + n) = m + up4 n"
  unfolding up4_def by presburger

lemma unat_align4:
  assumes "unat n + 3 < 18446744073709551616"
  shows "unat (align4 n) = up4 (unat n)"
proof -
  have m: "(3 :: u64) = mask 2" by (simp add: mask_eq_exp_minus_1)
  have "unat (n + mask 2) = unat n + 3" using assms by (simp add: mask_eq_exp_minus_1 unat_u64_add)
  then show ?thesis by (simp only: align4_def up4_def m unat_and_not_mask align_down_nat) simp
qed

text \<open>The overflow-safe test \<open>x > s || y > s - x\<close> of the reader.\<close>

lemma exceeds_iff: "((x :: u64) > s \<or> s - x < y) \<longleftrightarrow> unat s < unat x + unat y"
proof (cases "unat x \<le> unat s")
  case True
  then have "unat (s - x) = unat s - unat x" by (simp add: unat_sub word_le_nat_alt)
  then show ?thesis using True by (auto simp: word_less_nat_alt)
qed (simp add: word_less_nat_alt)

lemma unat_ucast_32_64: "unat (ucast (w :: u32) :: u64) = unat w"
  using unsigned_less [of w, where ?'a = nat] by (simp add: unsigned_ucast_eq take_bit_nat_eq_self)

lemma unat_minus_one_sub: "unat (- 1 - (x :: u64)) = 18446744073709551615 - unat x"
  using unat_u64_less [of x] by (subst unat_sub) (simp_all add: word_le_nat_alt unsigned_minus_1_eq_mask mask_eq_exp_minus_1)

lemma unat_name_start:
  fixes off sz :: u32
  assumes "\<not> (ucast off > (ucast sz :: u64) \<or> (ucast sz :: u64) - ucast off < 110)"
  shows "unat off + 110 \<le> unat sz" "unat (ucast off + 110 :: u64) = unat off + 110"
proof -
  show "unat off + 110 \<le> unat sz" using assms exceeds_iff [of "ucast sz" "ucast off" 110] by (simp add: unat_ucast_32_64)
  show "unat (ucast off + 110 :: u64) = unat off + 110"
    using unsigned_less [of off, where ?'a = nat] by (simp add: unat_u64_add unat_ucast_32_64)
qed

text \<open>The rounded sums of the reader do not overflow.\<close>

lemma unat_align_sum:
  fixes x y :: u64 and sz :: u32
  assumes "unat x + unat y \<le> unat sz"
  shows "unat (align4 (x + y)) = up4 (unat x + unat y)"
proof -
  have "unat sz < 4294967296" using unsigned_less [of sz, where ?'a = nat] by simp
  then show ?thesis using assms by (simp add: unat_align4 unat_u64_add)
qed

lemma cpio_next_progress:
  assumes "cpio_reader_next r = Inr (1, e, r')"
  shows "ar_size r' = ar_size r \<and> unat (ar_offset r) < unat (ar_offset r') \<and> unat (ar_offset r') \<le> unat (ar_size r)"
proof -
  let ?off = "ucast (ar_offset r) :: u64" and ?size = "ucast (ar_size r) :: u64"
  from assms obtain a nsz fsz m where h: "\<not> (?off > ?size \<or> ?size - ?off < 110)"
    and t: "cpio_take_entry a r (nsz, fsz, m) = Inr (1, e, r')"
    by (auto simp: cpio_reader_next_def Let_def bind_res_Inr_iff split: option.splits if_splits)
  let ?d = "align4 (?off + 110 + ucast nsz)"
  have l: "\<not> ucast nsz > ?size - (?off + 110)" and d: "\<not> (?d > ?size \<or> ?size - ?d < ucast fsz)"
    and n: "\<not> align4 (?d + ucast fsz) > ?size" and r: "r' = r\<lparr>ar_offset := ucast (align4 (?d + ucast fsz))\<rparr>"
    using t by (auto simp: cpio_take_entry_def Let_def bind_res_Inr_iff split: if_splits)
  note o = unat_name_start [OF h]
  have "unat (?off + 110) + unat (ucast nsz :: u64) \<le> unat (ar_size r)"
    using l o exceeds_iff [of ?size "?off + 110" "ucast nsz"] by (auto simp: word_less_nat_alt unat_ucast_32_64)
  then have ud: "unat (ar_offset r) < unat ?d" using unat_align_sum [of "?off + 110"] o(2)
    up4_bounds(1) [of "unat (ar_offset r) + 110 + unat (ucast nsz :: u64)"] by simp
  have "unat ?d + unat (ucast fsz :: u64) \<le> unat (ar_size r)"
    using d exceeds_iff [of ?size ?d "ucast fsz"] by (simp add: unat_ucast_32_64)
  then have un: "unat ?d \<le> unat (align4 (?d + ucast fsz))"
    using unat_align_sum [of ?d] up4_bounds(1) [of "unat ?d + unat (ucast fsz :: u64)"] by simp
  have "unat (align4 (?d + ucast fsz)) \<le> unat (ar_size r)" using n by (simp add: word_less_nat_alt unat_ucast_32_64)
  moreover from this have "unat (ucast (align4 (?d + ucast fsz)) :: u32) = unat (align4 (?d + ucast fsz))"
    using unsigned_less [of "ar_size r", where ?'a = nat] by (simp add: unsigned_ucast_eq take_bit_nat_eq_self)
  ultimately show ?thesis using r ud un by simp
qed

text \<open>
  The loop \<open>while ((ret = cpio_reader_next(&reader, &entry)) == 1)\<close> of the callers.  Its
  body either leaves the function with a result or goes on with a new state.
\<close>

function cpio_while :: "(cpio_entry \<Rightarrow> 's \<Rightarrow> ('r + 's) res) \<Rightarrow> cpio_reader \<Rightarrow> 's \<Rightarrow> ('r + int \<times> 's) res" where
  "cpio_while body r s =
     (case cpio_reader_next r of
        Inl x \<Rightarrow> Inl x
      | Inr (ret, e, r1) \<Rightarrow>
          if ret = 1 then
            case body (the e) s of
              Inl x \<Rightarrow> Inl x
            | Inr (Inl v) \<Rightarrow> Inr (Inl v)
            | Inr (Inr s1) \<Rightarrow> cpio_while body r1 s1
          else Inr (Inr (ret, s)))"
  by pat_completeness auto
termination
  by (relation "measure (\<lambda>(body, r, s). unat (ar_size r) - unat (ar_offset r))") (auto dest: cpio_next_progress)

declare cpio_while.simps [simp del]

text \<open>The name of an entry as the string its pointer denotes.\<close>

definition entry_string :: "u8 list \<Rightarrow> cpio_entry \<Rightarrow> u8 list" where
  "entry_string a e = drop (ce_name e) a"

definition find_body :: "u8 list \<Rightarrow> u8 list \<Rightarrow> cpio_entry \<Rightarrow> unit \<Rightarrow> (cpio_entry + unit) res" where
  "find_body name a e s =
     (case strcmp name (entry_string a e) of
        None \<Rightarrow> Inl Undefined
      | Some c \<Rightarrow> Inr (if c = 0 then Inl e else Inr ()))"

definition cpio_find :: "u8 list option \<Rightarrow> cpio_reader \<Rightarrow> (int \<times> cpio_entry option) res" where
  "cpio_find name default_reader =
     (case (name, ar_archive default_reader) of
        (Some name, Some (base, a)) \<Rightarrow>
          bind_res (cpio_while (find_body name a) (default_reader\<lparr>ar_offset := 0, ar_finished := False\<rparr>) ())
            (\<lambda>x. Inr (case x of Inl e \<Rightarrow> (1, Some e) | Inr (ret, _) \<Rightarrow> (ret, None)))
      | _ \<Rightarrow> Inr (- 1, None))"

section \<open>What the reader finds\<close>

text \<open>
  The checks on natural numbers.  \<open>entry_at a size off\<close> is what the reader finds at an
  offset: nothing usable, the trailer, or an entry and the offset behind it.
\<close>

datatype found = Malformed | Trailer | Entry cpio_entry nat

definition entry_found :: "u8 list \<Rightarrow> nat \<Rightarrow> nat \<Rightarrow> u32 \<times> u32 \<times> u32 \<Rightarrow> found" where
  "entry_found a sz off f =
     (case f of (namesize, filesize, mode) \<Rightarrow>
      let name = take (unat namesize) (drop (off + 110) a); data = up4 (off + 110 + unat namesize);
          next = up4 (data + unat filesize) in
      if off + 110 + unat namesize > sz \<or> last name \<noteq> 0 \<or> 0 \<in> set (butlast name) \<or> next > sz then Malformed
      else if name = cpio_trailer @ [0] then (if filesize = 0 then Trailer else Malformed)
      else Entry \<lparr>ce_name = off + 110, ce_data = data, ce_size = filesize, ce_mode = mode\<rparr> next)"

definition entry_at :: "u8 list \<Rightarrow> nat \<Rightarrow> nat \<Rightarrow> found" where
  "entry_at a sz off =
     (if sz < off + 110 then Malformed
      else case cpio_fields a off of Inr (Some f) \<Rightarrow> entry_found a sz off f | _ \<Rightarrow> Malformed)"

lemma hex32_in: "p + 8 \<le> length a \<Longrightarrow> hex32 a p = Inr (hex32_loop (take 8 (drop p a)) 0)"
  by (simp add: hex32_def bytes_at_def)

lemma cpio_fields_in:
  assumes "off + 110 \<le> length a"
  shows "\<exists>f. cpio_fields a off = Inr f \<and> (\<forall>n s m. f = Some (n, s, m) \<longrightarrow> n \<noteq> 0)"
  using assms hex32_in [of "off + 94" a] hex32_in [of "off + 54" a] hex32_in [of "off + 14" a]
  by (simp add: cpio_fields_def bytes_at_def split: option.splits)

definition found_result :: "cpio_reader \<Rightarrow> found \<Rightarrow> (int \<times> cpio_entry option \<times> cpio_reader) res" where
  "found_result r x =
     Inr (case x of Malformed \<Rightarrow> (- 1, None, r) | Trailer \<Rightarrow> (0, None, r\<lparr>ar_finished := True\<rparr>)
        | Entry e n \<Rightarrow> (1, Some e, r\<lparr>ar_offset := of_nat n\<rparr>))"

lemma take_entry_found:
  assumes "unat (ar_size r) \<le> length a" and h: "unat (ar_offset r) + 110 \<le> unat (ar_size r)"
  shows "cpio_take_entry a r f = found_result r (entry_found a (unat (ar_size r)) (unat (ar_offset r)) f)"
proof -
  obtain nsz fsz m where f: "f = (nsz, fsz, m)" by (cases f)
  let ?off = "ucast (ar_offset r) :: u64" and ?size = "ucast (ar_size r) :: u64"
  have o: "unat (?off + 110) = unat (ar_offset r) + 110"
    using h exceeds_iff [of ?size ?off 110] by (intro unat_name_start(2)) (simp add: unat_ucast_32_64)
  have l: "ucast nsz > ?size - (?off + 110) \<longleftrightarrow> unat (ar_size r) < unat (ar_offset r) + 110 + unat nsz"
    using h exceeds_iff [of ?size "?off + 110" "ucast nsz"] by (auto simp: o word_less_nat_alt unat_ucast_32_64)
  show ?thesis
  proof (cases "unat (ar_size r) < unat (ar_offset r) + 110 + unat nsz")
    case True
    then show ?thesis using l by (simp add: cpio_take_entry_def f found_result_def entry_found_def Let_def)
  next
    case False
    define name where "name = take (unat nsz) (drop (unat (ar_offset r) + 110) a)"
    have b: "bytes_at a (unat (ar_offset r) + 110) (unat nsz) = Inr name"
      using assms(1) False by (simp add: bytes_at_def name_def)
    have tr: "nsz = 11 \<and> name = cpio_trailer @ [0] \<longleftrightarrow> name = cpio_trailer @ [0]"
    proof -
      have "length name = unat nsz" using False assms(1) by (simp add: name_def)
      moreover have "length (cpio_trailer @ [0]) = 11" by (simp add: cpio_trailer_def)
      ultimately show ?thesis by (auto simp: word_unat_eq_iff)
    qed
    let ?d = "align4 (?off + 110 + ucast nsz)"
    have d: "unat ?d = up4 (unat (ar_offset r) + 110 + unat nsz)"
      using False unat_align_sum [of "?off + 110" "ucast nsz" "ar_size r"] by (simp add: o unat_ucast_32_64)
    let ?n = "up4 (unat ?d + unat fsz)"
    have x: "(?d > ?size \<or> ucast fsz > ?size - ?d) \<longleftrightarrow> unat (ar_size r) < unat ?d + unat fsz"
      using exceeds_iff [of ?size ?d "ucast fsz"] by (simp add: unat_ucast_32_64)
    have n: "align4 (?d + ucast fsz) > ?size \<longleftrightarrow> unat (ar_size r) < ?n" "ucast (align4 (?d + ucast fsz)) = (of_nat ?n :: u32)"
      if "\<not> unat (ar_size r) < unat ?d + unat fsz"
    proof -
      have "unat (align4 (?d + ucast fsz)) = ?n"
        using that unat_align_sum [of ?d "ucast fsz" "ar_size r"] by (simp add: unat_ucast_32_64)
      then show "align4 (?d + ucast fsz) > ?size \<longleftrightarrow> unat (ar_size r) < ?n" "ucast (align4 (?d + ucast fsz)) = (of_nat ?n :: u32)"
        by (simp_all add: word_less_nat_alt unat_ucast_32_64) (metis of_nat_unat)
    qed
    show ?thesis
    proof (cases "unat (ar_size r) < unat ?d + unat fsz")
      case True
      then have "unat (ar_size r) < ?n" using up4_bounds(1) [of "unat ?d + unat fsz"] by simp
      then show ?thesis using True False l x
        by (simp add: cpio_take_entry_def f found_result_def entry_found_def Let_def b o d name_def [symmetric])
    next
      case fits: False
      show ?thesis using fits False l x n [OF fits] tr
        by (simp add: cpio_take_entry_def f found_result_def entry_found_def Let_def b o d name_def [symmetric])
    qed
  qed
qed

lemma cpio_next_entry_at:
  assumes r: "ar_archive r = Some (base, a)" "\<not> ar_finished r" "unat (ar_size r) \<le> length a"
  shows "cpio_reader_next r = found_result r (entry_at a (unat (ar_size r)) (unat (ar_offset r)))"
proof (cases "unat (ar_size r) < unat (ar_offset r) + 110")
  case True
  then show ?thesis using r exceeds_iff [of "ucast (ar_size r)" "ucast (ar_offset r)" 110]
    by (simp add: entry_at_def cpio_reader_next_def Let_def found_result_def unat_ucast_32_64)
next
  case False
  then obtain f where f: "cpio_fields a (unat (ar_offset r)) = Inr f"
    using cpio_fields_in [of "unat (ar_offset r)" a] r(3) by auto
  show ?thesis using False r f exceeds_iff [of "ucast (ar_size r)" "ucast (ar_offset r)" 110] take_entry_found [OF r(3)]
    by (cases f) (simp_all add: entry_at_def cpio_reader_next_def Let_def found_result_def unat_ucast_32_64)
qed
section \<open>The writer\<close>

definition pad4 :: "nat \<Rightarrow> nat" where
  "pad4 n = nat (int (n + 3) AND NOT 3)"

definition hex_char :: "nat \<Rightarrow> u8" where
  "hex_char d = (if d < 10 then of_nat (48 + d) else of_nat (55 + d))"

fun hex_digits :: "nat \<Rightarrow> u8 list" where
  "hex_digits n = (if n < 16 then [hex_char n] else hex_digits (n div 16) @ [hex_char (n mod 16)])"

declare hex_digits.simps [simp del]

text \<open>The format \<open>:08X\<close>: at least eight upper case digits.\<close>

definition fmt_08X :: "nat \<Rightarrow> u8 list" where
  "fmt_08X n = replicate (8 - length (hex_digits n)) 48 @ hex_digits n"

definition zeros8 :: "u8 list" where
  "zeros8 = replicate 8 48"

definition newc_header :: "u8 list \<Rightarrow> nat \<Rightarrow> nat \<Rightarrow> nat \<Rightarrow> u8 list option" where
  "newc_header name sz mtime ino =
     (let hdr = cpio_magic @ fmt_08X ino @ fmt_08X 33188 @ zeros8 @ zeros8 @ fmt_08X 1 @ fmt_08X mtime @ fmt_08X sz @
            zeros8 @ zeros8 @ zeros8 @ zeros8 @ fmt_08X (length name + 1) @ zeros8
      in if length hdr = 110 then Some hdr else None)"

definition write_entry :: "u8 list \<Rightarrow> u8 list \<Rightarrow> u8 list \<Rightarrow> nat \<Rightarrow> nat \<Rightarrow> u8 list option" where
  "write_entry f name data mtime ino =
     (case newc_header name (length data) mtime ino of
        None \<Rightarrow> None
      | Some hdr \<Rightarrow>
          let name_pad = pad4 (length hdr + length name + 1) - (length hdr + length name + 1);
              data_pad = pad4 (length data) - length data
          in Some (f @ hdr @ name @ [0] @ replicate name_pad 0 @ data @ replicate data_pad 0))"

definition write_trailer :: "u8 list \<Rightarrow> nat \<Rightarrow> nat \<Rightarrow> u8 list option" where
  "write_trailer f mtime ino = write_entry f cpio_trailer [] mtime ino"

text \<open>
  The loop of \<open>main\<close> over the files, followed by the trailer.  Reading the input
  files and the clock is outside the model: an entry has its name, its contents, the time
  and the inode number that go into its header.
\<close>

fun write_entries :: "u8 list \<Rightarrow> (u8 list \<times> u8 list \<times> nat \<times> nat) list \<Rightarrow> u8 list option" where
  "write_entries f [] = Some f"
| "write_entries f ((name, data, mtime, ino) # es) =
     (case write_entry f name data mtime ino of None \<Rightarrow> None | Some g \<Rightarrow> write_entries g es)"

definition write_archive :: "(u8 list \<times> u8 list \<times> nat \<times> nat) list \<Rightarrow> nat \<Rightarrow> nat \<Rightarrow> u8 list option" where
  "write_archive es mtime ino = (case write_entries [] es of None \<Rightarrow> None | Some f \<Rightarrow> write_trailer f mtime ino)"


subsection \<open>Entries of an archive\<close>

definition entry_name :: "u8 list \<Rightarrow> cpio_entry \<Rightarrow> u8 list" where
  "entry_name a e = takeWhile (\<lambda>c. c \<noteq> 0) (entry_string a e)"

definition entry_data :: "u8 list \<Rightarrow> cpio_entry \<Rightarrow> u8 list" where
  "entry_data a e = take (unat (ce_size e)) (drop (ce_data e) a)"

lemma entry_at_Entry:
  assumes "entry_at a sz off = Entry e n" "sz \<le> length a"
  shows "ce_name e = off + 110" "ce_name e + length (entry_name a e) < ce_data e"
    "ce_data e + unat (ce_size e) \<le> n" "n \<le> sz" "cstring (entry_string a e) (entry_name a e)"
proof -
  from assms(1) obtain nsz fsz m where h: "off + 110 \<le> sz" and c: "cpio_fields a off = Inr (Some (nsz, fsz, m))"
    and f: "entry_found a sz off (nsz, fsz, m) = Entry e n"
    by (auto simp: entry_at_def split: if_splits sum.splits option.splits)
  define name where "name = take (unat nsz) (drop (off + 110) a)"
  have nz: "unat nsz \<noteq> 0" using cpio_fields_in [of off a] c h assms(2) by (auto simp: unat_eq_0)
  have g: "off + 110 + unat nsz \<le> sz" "last name = 0" "0 \<notin> set (butlast name)" "n \<le> sz"
    "e = \<lparr>ce_name = off + 110, ce_data = up4 (off + 110 + unat nsz), ce_size = fsz, ce_mode = m\<rparr>"
    "n = up4 (up4 (off + 110 + unat nsz) + unat fsz)"
    using f by (auto simp: entry_found_def Let_def name_def split: if_splits)
  have len: "length name = unat nsz" using g(1) assms(2) by (simp add: name_def)
  then have nm: "name = butlast name @ [0]" using nz g(2) append_butlast_last_id [of name] by fastforce
  have "entry_string a e = name @ drop (unat nsz) (drop (off + 110) a)"
    unfolding name_def entry_string_def g(5) by (simp del: drop_drop)
  then have s: "entry_string a e = butlast name @ 0 # drop (unat nsz) (drop (off + 110) a)" using nm by simp
  have en: "entry_name a e = butlast name" unfolding entry_name_def s using g(3) by (subst takeWhile_append2) auto
  show "ce_name e = off + 110" "n \<le> sz" using g(4) by (simp_all add: g(5))
  show "ce_name e + length (entry_name a e) < ce_data e"
    unfolding en using up4_bounds(1) [of "off + 110 + unat nsz"] nz by (simp add: len g(5))
  show "ce_data e + unat (ce_size e) \<le> n" using up4_bounds(1) [of "ce_data e + unat (ce_size e)"] unfolding g(6) by (simp add: g(5))
  show "cstring (entry_string a e) (entry_name a e)" unfolding cstring_def s en using g(3) by blast
qed

lemma entry_at_next:
  assumes "entry_at a sz off = Entry e n"
  shows "off < n" "n \<le> sz"
proof -
  have "off < up4 (up4 (off + 110 + x) + y)" for x y
    using up4_bounds(1) [of "off + 110 + x"] up4_bounds(1) [of "up4 (off + 110 + x) + y"] by linarith
  then show "off < n" "n \<le> sz" using assms
    by (auto simp: entry_at_def entry_found_def Let_def split: if_splits sum.splits option.splits)
qed

function walk :: "u8 list \<Rightarrow> nat \<Rightarrow> nat \<Rightarrow> cpio_entry list \<times> int" where
  "walk a sz off =
     (case entry_at a sz off of
        Malformed \<Rightarrow> ([], - 1)
      | Trailer \<Rightarrow> ([], 0)
      | Entry e n \<Rightarrow> let (es, c) = walk a sz n in (e # es, c))"
  by pat_completeness auto
termination
proof (relation "measure (\<lambda>(a, sz, off). sz - off)")
  show "((a, sz, n), a, sz, off) \<in> measure (\<lambda>(a, sz, off). sz - off)" if "entry_at a sz off = Entry e n" for a sz off e n
    using entry_at_next [OF that] by simp
qed simp

declare walk.simps [simp del]

lemma walk_eqs:
  "entry_at a sz off = Malformed \<Longrightarrow> walk a sz off = ([], - 1)"
  "entry_at a sz off = Trailer \<Longrightarrow> walk a sz off = ([], 0)"
  "entry_at a sz off = Entry e n \<Longrightarrow> walk a sz off = (e # fst (walk a sz n), snd (walk a sz n))"
  by (subst walk.simps, simp split: prod.splits)+

text \<open>Name and data of an entry lie in the archive, and the name is terminated.\<close>

definition entry_ok :: "u8 list \<Rightarrow> nat \<Rightarrow> cpio_entry \<Rightarrow> bool" where
  "entry_ok a sz e \<longleftrightarrow> cstring (entry_string a e) (entry_name a e) \<and>
     ce_name e + length (entry_name a e) < ce_data e \<and> ce_data e + unat (ce_size e) \<le> sz"

lemma entry_at_ok: "entry_at a sz off = Entry e n \<Longrightarrow> sz \<le> length a \<Longrightarrow> entry_ok a sz e"
  using entry_at_Entry [of a sz off e n] by (simp add: entry_ok_def)

lemma walk_entry_ok: "sz \<le> length a \<Longrightarrow> e \<in> set (fst (walk a sz off)) \<Longrightarrow> entry_ok a sz e"
proof (induction a sz off rule: walk.induct)
  case (1 a sz off)
  show ?case
  proof (cases "entry_at a sz off")
    case (Entry x n)
    then show ?thesis using 1 entry_at_ok [OF Entry] by (auto simp: walk_eqs(3))
  qed (use 1(3) in \<open>simp_all add: walk_eqs\<close>)
qed

text \<open>The loop of the callers goes through the entries of the walk.\<close>

fun each_entry :: "(cpio_entry \<Rightarrow> 's \<Rightarrow> ('r + 's) res) \<Rightarrow> cpio_entry list \<times> int \<Rightarrow> 's \<Rightarrow> ('r + int \<times> 's) res" where
  "each_entry body ([], c) s = Inr (Inr (c, s))"
| "each_entry body (e # es, c) s =
     (case body e s of Inl x \<Rightarrow> Inl x | Inr (Inl v) \<Rightarrow> Inr (Inl v) | Inr (Inr t) \<Rightarrow> each_entry body (es, c) t)"

lemma cpio_while_walk:
  assumes "ar_archive r = Some (base, a)" "\<not> ar_finished r" "unat (ar_size r) \<le> length a"
  shows "cpio_while body r s = each_entry body (walk a (unat (ar_size r)) (unat (ar_offset r))) s"
  using assms
proof (induction body r s rule: cpio_while.induct)
  case (1 body r s)
  note nx = cpio_next_entry_at [OF 1(2,3,4)]
  show ?case
  proof (cases "entry_at a (unat (ar_size r)) (unat (ar_offset r))")
    case (Entry e n)
    have u: "unat (of_nat n :: u32) = n"
      using entry_at_next(2) [OF Entry] unsigned_less [of "ar_size r", where ?'a = nat] by (simp add: unat_of_nat)
    have nx1: "cpio_reader_next r = Inr (1, Some e, r\<lparr>ar_offset := of_nat n\<rparr>)" using nx Entry by (simp add: found_result_def)
    have IH: "cpio_while body (r\<lparr>ar_offset := of_nat n\<rparr>) t = each_entry body (walk a (unat (ar_size r)) n) t"
      if "body e s = Inr (Inr t)" for t
      using 1(1) [OF nx1] that 1(2-4) u by simp
    show ?thesis
      by (subst cpio_while.simps) (use nx1 walk_eqs(3) [OF Entry] IH in \<open>simp split: sum.splits\<close>)
  qed (subst cpio_while.simps, simp add: nx found_result_def walk_eqs)+
qed

section \<open>Reading what the writer wrote\<close>

lemma hex32_loop_append:
  "hex32_loop (s @ t) v = (case hex32_loop s v of None \<Rightarrow> None | Some w \<Rightarrow> hex32_loop t w)"
  by (induction s arbitrary: v) (auto split: option.splits)

lemma hex_digit_char:
  assumes "d < 16"
  shows "hex_digit (hex_char d) = Some (of_nat d)"
proof -
  have "\<forall>d\<in>set [0..<16]. hex_digit (hex_char d) = Some (of_nat d)"
    by (simp add: upt_rec hex_digit_def hex_char_def)
  then show ?thesis using assms by simp
qed

lemma push_bit_or_digit:
  assumes "d < 16"
  shows "push_bit 4 (of_nat m) OR of_nat d = (of_nat (m * 16 + d) :: u32)"
proof -
  have "push_bit 4 m AND d = 0"
  proof (rule bit_eqI)
    fix k
    have "d = take_bit 4 d" using assms by (simp add: take_bit_nat_eq_self)
    then have "bit d k \<Longrightarrow> k < 4" by (metis bit_take_bit_iff)
    then show "bit (push_bit 4 m AND d) k \<longleftrightarrow> bit (0 :: nat) k" by (auto simp: bit_and_iff bit_push_bit_iff)
  qed
  then have "m * 16 + d = push_bit 4 m OR d"
    using disjunctive_add_eq_or [of "push_bit 4 m" d] by (simp add: push_bit_eq_mult)
  then show ?thesis by (simp add: of_nat_or_eq of_nat_push_bit del: of_nat_add of_nat_mult)
qed

lemma hex32_loop_digits: "hex32_loop (hex_digits n) 0 = Some (of_nat n)"
proof (induction n rule: hex_digits.induct)
  case (1 n)
  show ?case
  proof (cases "n < 16")
    case True
    then show ?thesis by (subst hex_digits.simps) (simp add: hex_digit_char)
  next
    case False
    then show ?thesis using 1 push_bit_or_digit [of "n mod 16" "n div 16"]
      by (subst hex_digits.simps) (simp add: hex32_loop_append hex_digit_char)
  qed
qed

lemma hex32_loop_zeros: "hex32_loop (replicate k 48 @ s) 0 = hex32_loop s 0"
  by (induction k) (simp_all add: hex_digit_def)

lemma hex32_fmt: "hex32_loop (fmt_08X n) 0 = Some (of_nat n)"
  by (simp add: fmt_08X_def hex32_loop_zeros hex32_loop_digits)

lemma hex_digits_not_Nil: "hex_digits n \<noteq> []"
  by (subst hex_digits.simps) simp

lemma length_hex_digits: "length (hex_digits n) \<le> Suc k \<longleftrightarrow> n < 16 ^ Suc k"
proof (induction k arbitrary: n)
  case 0
  show ?case by (subst hex_digits.simps) (auto simp: Suc_le_eq hex_digits_not_Nil)
next
  case (Suc k)
  show ?case
  proof (cases "n < 16")
    case True
    moreover have "(16 :: nat) \<le> 16 ^ Suc (Suc k)" by simp
    ultimately show ?thesis by (subst hex_digits.simps) (simp del: power_Suc)
  next
    case False
    then show ?thesis using Suc.IH [of "n div 16"]
      by (subst hex_digits.simps) (simp add: less_mult_imp_div_less div_less_iff_less_mult mult.commute)
  qed
qed

lemma length_fmt: "length (fmt_08X n) \<ge> 8" "length (fmt_08X n) = 8 \<longleftrightarrow> n < 4294967296"
  using length_hex_digits [of n 7] by (auto simp: fmt_08X_def)

lemma pad4_up4: "pad4 n = up4 n"
proof -
  have m: "(3 :: int) = mask 2" by (simp add: mask_eq_exp_minus_1)
  let ?k = "int (n + 3)"
  have "?k - take_bit 2 ?k = ?k AND NOT (take_bit 2 ?k)"
    by (intro disjunctive_diff_eq_and_not bit_eqI) (auto simp: bit_simps)
  also have "\<dots> = ?k AND NOT (mask 2)"
    by (intro bit_eqI) (auto simp: bit_simps)
  finally have "?k AND NOT (mask 2) = int ((n + 3) - (n + 3) mod 4)"
    by (simp add: take_bit_eq_mod zmod_int of_nat_diff)
  then show ?thesis by (simp only: pad4_def m up4_def align_down_nat nat_int)
qed

lemma unat_of_nat_u32: "n < 4294967296 \<Longrightarrow> unat (of_nat n :: u32) = n"
  by (simp add: unat_of_nat)

lemma newc_header_Some:
  assumes "newc_header name sz mtime ino = Some hdr"
  shows "length hdr = 110" "sz < 4294967296" "length name + 1 < 4294967296" "take 6 hdr = cpio_magic"
    "take 8 (drop 14 hdr) = fmt_08X 33188" "take 8 (drop 54 hdr) = fmt_08X sz"
    "take 8 (drop 94 hdr) = fmt_08X (length name + 1)"
proof -
  let ?h = "cpio_magic @ fmt_08X ino @ fmt_08X 33188 @ zeros8 @ zeros8 @ fmt_08X 1 @ fmt_08X mtime @ fmt_08X sz @
            zeros8 @ zeros8 @ zeros8 @ zeros8 @ fmt_08X (length name + 1) @ zeros8"
  have h: "hdr = ?h" "length ?h = 110" using assms by (simp_all add: newc_header_def Let_def split: if_splits)
  have z: "length cpio_magic = 6" "length zeros8 = 8" by (simp_all add: cpio_magic_def zeros8_def)
  have f: "length (fmt_08X 33188) = 8" "length (fmt_08X 1) = 8" by (simp_all add: length_fmt(2))
  have l: "length (fmt_08X ino) = 8" "length (fmt_08X mtime) = 8" "length (fmt_08X sz) = 8" "length (fmt_08X (length name + 1)) = 8"
    using h(2) length_fmt(1) [of ino] length_fmt(1) [of mtime] length_fmt(1) [of sz] length_fmt(1) [of "length name + 1"] z f
    unfolding length_append by linarith+
  show "length hdr = 110" using h by simp
  show "sz < 4294967296" "length name + 1 < 4294967296" using l length_fmt(2) by blast+
  show "take 6 hdr = cpio_magic" "take 8 (drop 14 hdr) = fmt_08X 33188" "take 8 (drop 54 hdr) = fmt_08X sz"
    "take 8 (drop 94 hdr) = fmt_08X (length name + 1)"
    unfolding h(1) using z f l by simp_all
qed

lemma take_drop_inside:
  "p + n \<le> length xs \<Longrightarrow> take n (drop (length pre + p) (pre @ xs @ post)) = take n (drop p xs)"
  by simp

lemma cpio_fields_written:
  assumes "newc_header name sz mtime ino = Some hdr"
  shows "cpio_fields (pre @ hdr @ post) (length pre) = Inr (Some (of_nat (length name + 1), of_nat sz, 33188))"
proof -
  note h = newc_header_Some [OF assms]
  let ?a = "pre @ hdr @ post"
  have m: "bytes_at ?a (length pre) 6 = Inr cpio_magic"
    using h(1,4) take_drop_inside [of 0 6 hdr pre post] by (simp add: bytes_at_def)
  have x: "hex32 ?a (length pre + p) = Inr (hex32_loop (take 8 (drop p hdr)) 0)" if "p + 8 \<le> 110" for p
    using h(1) that take_drop_inside [of p 8 hdr pre post] by (simp add: hex32_in)
  have "(of_nat (length name + 1) :: u32) \<noteq> 0"
    using unat_of_nat_u32 [OF h(3)] by auto
  then show ?thesis unfolding cpio_fields_def
    by (simp add: m x h(5-7) hex32_fmt del: of_nat_add of_nat_Suc append_assoc)
qed

lemma written_layout:
  assumes "write_entry f name data mtime ino = Some g" "length f mod 4 = 0"
  obtains hdr np dp where "newc_header name (length data) mtime ino = Some hdr" "length hdr = 110"
    "g = f @ hdr @ name @ [0] @ replicate np 0 @ data @ replicate dp 0"
    "length f + 110 + length name + 1 + np = up4 (length f + 110 + length name + 1)"
    "length g = up4 (up4 (length f + 110 + length name + 1) + length data)"
proof -
  from assms(1) obtain hdr where h: "newc_header name (length data) mtime ino = Some hdr"
    by (auto simp: write_entry_def split: option.splits)
  note h1 = newc_header_Some(1) [OF h]
  let ?n = "110 + length name + 1"
  have g: "g = f @ hdr @ name @ [0] @ replicate (up4 ?n - ?n) 0 @ data @ replicate (up4 (length data) - length data) 0"
    using assms(1) h h1 by (simp add: write_entry_def Let_def pad4_up4)
  have u: "up4 (length f + 110 + length name + 1) = length f + up4 ?n"
    using up4_add [OF assms(2), of ?n] by (simp only: add.assoc)
  moreover have "up4 (length f + up4 ?n + length data) = length f + up4 ?n + up4 (length data)"
    using assms(2) up4_bounds(3) [of ?n] by (intro up4_add) presburger
  ultimately show thesis using that [OF h h1 g] up4_bounds(1) [of ?n] up4_bounds(1) [of "length data"] h1 g by simp
qed

lemma entry_at_written:
  assumes w: "write_entry f name data mtime ino = Some g" "length f mod 4 = 0" "0 \<notin> set name" and a: "a = g @ post"
  shows "entry_at a (length a) (length f) =
    (if name = cpio_trailer then if data = [] then Trailer else Malformed
     else Entry \<lparr>ce_name = length f + 110, ce_data = up4 (length f + 110 + length name + 1), ce_size = of_nat (length data),
       ce_mode = 33188\<rparr> (length g))"
proof -
  from written_layout [OF w(1,2)] obtain hdr np dp where h: "newc_header name (length data) mtime ino = Some hdr" "length hdr = 110"
    and g: "g = f @ hdr @ name @ [0] @ replicate np 0 @ data @ replicate dp 0"
    and l: "length f + 110 + length name + 1 + np = up4 (length f + 110 + length name + 1)"
      "length g = up4 (up4 (length f + 110 + length name + 1) + length data)" .
  have c: "cpio_fields a (length f) = Inr (Some (of_nat (length name + 1), of_nat (length data), 33188))"
    using cpio_fields_written [OF h(1)] by (simp add: a g)
  have u: "unat (of_nat (length name + 1) :: u32) = length name + 1" "unat (of_nat (length data) :: u32) = length data"
    using newc_header_Some(2,3) [OF h(1)] by (simp_all only: unat_of_nat_u32)
  have n: "take (length name + 1) (drop (length f + 110) a) = name @ [0]" using h(2) by (simp add: a g)
  have sz: "length g \<le> length a" "length f + 110 + length name + 1 \<le> length a" using h(2) by (simp_all add: a g)
  have z: "(of_nat (length data) :: u32) = 0 \<longleftrightarrow> data = []" using u(2) by (metis length_0_conv unat_0 unat_eq_0)
  have "entry_found a (length a) (length f) (of_nat (length name + 1), of_nat (length data), 33188) =
    (if name = cpio_trailer then if data = [] then Trailer else Malformed
     else Entry \<lparr>ce_name = length f + 110, ce_data = up4 (length f + 110 + length name + 1), ce_size = of_nat (length data),
       ce_mode = 33188\<rparr> (length g))"
    using sz l(2) w(3) unfolding entry_found_def Let_def prod.case u n
    by (simp add: butlast_append z add.assoc)
  then show ?thesis using c sz by (simp add: entry_at_def)
qed

text \<open>An entry of the archive agrees with the file that was written.\<close>

definition entry_of :: "u8 list \<Rightarrow> cpio_entry \<Rightarrow> u8 list \<times> u8 list \<times> nat \<times> nat \<Rightarrow> bool" where
  "entry_of a e x \<longleftrightarrow> entry_name a e = fst x \<and> entry_data a e = fst (snd x) \<and> ce_mode e = 33188"

definition names_ok :: "(u8 list \<times> u8 list \<times> nat \<times> nat) list \<Rightarrow> bool" where
  "names_ok es \<longleftrightarrow> (\<forall>x\<in>set es. 0 \<notin> set (fst x) \<and> fst x \<noteq> cpio_trailer)"

lemma written_prefix: "write_entry f name data mtime ino = Some g \<Longrightarrow> \<exists>t. g = f @ t"
  by (auto simp: write_entry_def Let_def split: option.splits)

lemma write_entries_prefix: "write_entries f es = Some g \<Longrightarrow> \<exists>t. g = f @ t"
  by (induction f es rule: write_entries.induct) (auto split: option.splits dest!: written_prefix)

lemma written_entry_of:
  assumes w: "write_entry f name data mtime ino = Some g" "length f mod 4 = 0" "0 \<notin> set name" and a: "a = g @ post"
  shows "entry_of a \<lparr>ce_name = length f + 110, ce_data = up4 (length f + 110 + length name + 1), ce_size = of_nat (length data),
       ce_mode = 33188\<rparr> (name, data, t, i)"
proof -
  from written_layout [OF w(1,2)] obtain hdr np dp where h: "newc_header name (length data) mtime ino = Some hdr" "length hdr = 110"
    and g: "g = f @ hdr @ name @ [0] @ replicate np 0 @ data @ replicate dp 0"
    and l: "length f + 110 + length name + 1 + np = up4 (length f + 110 + length name + 1)" .
  have u: "unat (of_nat (length data) :: u32) = length data" using newc_header_Some(2) [OF h(1)] by (rule unat_of_nat_u32)
  have d: "drop (up4 (length f + 110 + length name + 1)) a = data @ replicate dp 0 @ post"
    unfolding l [symmetric] using h(2) by (simp add: a g)
  have n: "drop (length f + 110) a = name @ 0 # replicate np 0 @ data @ replicate dp 0 @ post" using h(2) by (simp add: a g)
  have "takeWhile (\<lambda>c. c \<noteq> 0) (name @ 0 # replicate np 0 @ data @ replicate dp 0 @ post) = name"
    using w(3) by (subst takeWhile_append2) auto
  then show ?thesis using d n u by (simp add: entry_of_def entry_name_def entry_string_def entry_data_def)
qed

lemma length_written_mod: "write_entry f name data mtime ino = Some g \<Longrightarrow> length f mod 4 = 0 \<Longrightarrow> length g mod 4 = 0"
  by (erule (1) written_layout) (simp add: up4_bounds(3))

lemma walk_trailer:
  assumes "write_trailer f mtime ino = Some a" "length f mod 4 = 0"
  shows "walk a (length a) (length f) = ([], 0)"
proof -
  have "0 \<notin> set cpio_trailer" by (simp add: cpio_trailer_def)
  with entry_at_written [OF assms(1) [unfolded write_trailer_def] assms(2), of a "[]"]
  show ?thesis by (simp add: walk_eqs(2))
qed

lemma walk_written:
  assumes "write_entries f es = Some g" "write_trailer g mtime ino = Some a" "length f mod 4 = 0" "names_ok es"
  shows "list_all2 (entry_of a) (fst (walk a (length a) (length f))) es \<and> snd (walk a (length a) (length f)) = 0"
  using assms
proof (induction f es rule: write_entries.induct)
  case (1 f)
  then show ?case using walk_trailer [of f] by simp
next
  case (2 f name data mt i es)
  then obtain g1 where g1: "write_entry f name data mt i = Some g1" "write_entries g1 es = Some g"
    by (auto split: option.splits)
  obtain p q where "g = g1 @ p" "a = g @ q"
    using write_entries_prefix [OF g1(2)] written_prefix [OF 2(3) [unfolded write_trailer_def]] by auto
  then have a: "a = g1 @ p @ q" by simp
  have nm: "0 \<notin> set name" "name \<noteq> cpio_trailer" "names_ok es" using 2(5) by (auto simp: names_ok_def)
  note e = entry_at_written [OF g1(1) 2(4) nm(1) a] and of = written_entry_of [OF g1(1) 2(4) nm(1) a]
  note IH = 2(1) [OF g1 2(3) length_written_mod [OF g1(1) 2(4)] nm(3)]
  show ?case using IH of walk_eqs(3) [OF e [unfolded if_not_P [OF nm(2)]]] by simp
qed

lemma walk_archive:
  assumes "write_archive es mtime ino = Some a" "names_ok es"
  shows "list_all2 (entry_of a) (fst (walk a (length a) 0)) es" "snd (walk a (length a) 0) = 0"
  using assms walk_written [of "[]" es] by (auto simp: write_archive_def split: option.splits)

text \<open>The writer succeeds if the numbers of the header have at most eight digits.\<close>

lemma write_entry_defined:
  assumes "mtime < 4294967296" "ino < 4294967296" "length data < 4294967296" "length name + 1 < 4294967296" "length f mod 4 = 0"
  shows "\<exists>g. write_entry f name data mtime ino = Some g \<and> length g = up4 (up4 (length f + 110 + length name + 1) + length data)"
proof -
  have "length (fmt_08X n) = 8" if "n \<in> {33188, 1, ino, mtime, length data, length name + 1}" for n
    using that assms(1-4) by (subst length_fmt(2)) auto
  then obtain hdr where "newc_header name (length data) mtime ino = Some hdr"
    by (simp add: newc_header_def Let_def cpio_magic_def zeros8_def)
  then obtain g where g: "write_entry f name data mtime ino = Some g" by (simp add: write_entry_def Let_def)
  show ?thesis by (rule written_layout [OF g assms(5)]) (use g in blast)
qed

text \<open>A written archive is accepted by the reader.\<close>

definition reader_of :: "u64 \<Rightarrow> u8 list \<Rightarrow> cpio_reader" where
  "reader_of base a = \<lparr>ar_archive = Some (base, a), ar_size = of_nat (length a), ar_offset = 0, ar_finished = False\<rparr>"

lemma archive_start:
  assumes "write_archive es mtime ino = Some a"
  shows "take 6 a = cpio_magic" "111 \<le> length a"
proof -
  obtain f where f: "write_entries [] es = Some f" "write_trailer f mtime ino = Some a"
    using assms by (auto simp: write_archive_def split: option.splits)
  obtain name data mt i g t where g: "write_entry [] name data mt i = Some g" "a = g @ t"
  proof (cases es)
    case Nil
    then show thesis using that [of cpio_trailer "[]" mtime ino a "[]"] f by (simp add: write_trailer_def)
  next
    case (Cons x xs)
    obtain name data mt i where x: "x = (name, data, mt, i)" by (cases x)
    then obtain g where g: "write_entry [] name data mt i = Some g" "write_entries g xs = Some f"
      using f(1) Cons by (auto split: option.splits)
    then show thesis
      using that [OF g(1)] write_entries_prefix [OF g(2)] written_prefix [OF f(2) [unfolded write_trailer_def]] by auto
  qed
  then show "take 6 a = cpio_magic" "111 \<le> length a"
    using newc_header_Some(1,4) [of name "length data" mt i] by (auto simp: write_entry_def Let_def split: option.splits)
qed

lemma cpio_reader_init_archive:
  assumes "write_archive es mtime ino = Some a" "length a < 4294967296" "unat base + length a < 18446744073709551616"
  shows "cpio_reader_init (Some (base, a)) (of_nat (length a)) r = Inr (0, reader_of base a)"
proof -
  note st = archive_start [OF assms(1)] and u = unat_of_nat_u32 [OF assms(2)]
  have "\<not> (of_nat (length a) :: u32) < 111" using st(2) by (simp add: word_less_nat_alt u)
  moreover have "\<not> base > - 1 - ucast (of_nat (length a) :: u32)"
    using assms(3) by (simp add: word_less_nat_alt unat_minus_one_sub unat_ucast_32_64 u)
  ultimately show ?thesis using st by (simp add: cpio_reader_init_def bytes_at_def reader_of_def)
qed

section \<open>Properties\<close>

lemma each_find_body:
  assumes "\<And>e. e \<in> set (fst w) \<Longrightarrow> cstring (entry_string a e) (entry_name a e)" "cstring nm s"
  shows "each_entry (find_body nm a) w () =
    Inr (case find (\<lambda>e. entry_name a e = s) (fst w) of Some e \<Rightarrow> Inl e | None \<Rightarrow> Inr (snd w, ()))"
  using assms(1)
proof (induction "find_body nm a" w "()" rule: each_entry.induct)
  case (2 e es c)
  then have "cstring (entry_string a e) (entry_name a e)" by simp
  then obtain v where "strcmp nm (entry_string a e) = Some v" "v = 0 \<longleftrightarrow> s = entry_name a e"
    using assms(2) strcmp_lexicographic by blast
  then show ?case using 2 by (auto simp: find_body_def split: option.split)
qed simp

text \<open>A reader whose cursor and size lie in the archive.\<close>

definition reader_ok :: "cpio_reader \<Rightarrow> bool" where
  "reader_ok r \<longleftrightarrow> (\<forall>base a. ar_archive r = Some (base, a) \<longrightarrow>
     unat (ar_size r) \<le> length a \<and> unat (ar_offset r) \<le> unat (ar_size r))"

lemma cpio_find_spec:
  assumes "ar_archive r = Some (base, a)" "unat (ar_size r) \<le> length a" "cstring nm s"
  shows "cpio_find (Some nm) r =
    Inr (case find (\<lambda>e. entry_name a e = s) (fst (walk a (unat (ar_size r)) 0)) of
           Some e \<Rightarrow> (1, Some e) | None \<Rightarrow> (snd (walk a (unat (ar_size r)) 0), None))"
proof -
  let ?w = "walk a (unat (ar_size r)) 0"
  have "each_entry (find_body nm a) ?w () =
    Inr (case find (\<lambda>e. entry_name a e = s) (fst ?w) of Some e \<Rightarrow> Inl e | None \<Rightarrow> Inr (snd ?w, ()))"
    using walk_entry_ok [OF assms(2)] by (intro each_find_body [OF _ assms(3)]) (simp add: entry_ok_def)
  then show ?thesis using assms cpio_while_walk [of "r\<lparr>ar_offset := 0, ar_finished := False\<rparr>" base a "find_body nm a" "()"]
    by (simp add: cpio_find_def split: option.splits)
qed

text \<open>
  (C32) The reader never reads outside the archive, whatever the archive contains: a
  step returns, keeps size and archive, and leaves the cursor in the archive.  An entry it returns
  has its terminated name and its data inside the archive, and the cursor has moved on.
\<close>
theorem cpio_reader_next_safe:
  assumes "reader_ok r" "ar_archive r = Some (base, a)"
  shows "\<exists>ret e r'. cpio_reader_next r = Inr (ret, e, r') \<and> reader_ok r' \<and>
    ar_archive r' = ar_archive r \<and> ar_size r' = ar_size r \<and>
    (case e of None \<Rightarrow> ret = 0 \<or> ret = - 1
     | Some e \<Rightarrow> ret = 1 \<and> entry_ok a (unat (ar_size r)) e \<and> unat (ar_offset r) < unat (ar_offset r'))"
proof (cases "ar_finished r")
  case True
  then show ?thesis using assms by (simp add: cpio_reader_next_def)
next
  case False
  have s: "unat (ar_size r) \<le> length a" using assms by (auto simp: reader_ok_def)
  note nx = cpio_next_entry_at [OF assms(2) False s]
  show ?thesis
  proof (cases "entry_at a (unat (ar_size r)) (unat (ar_offset r))")
    case (Entry e n)
    note n = entry_at_next [OF Entry]
    have "unat (of_nat n :: u32) = n"
      using n(2) unsigned_less [of "ar_size r", where ?'a = nat] by (intro unat_of_nat_u32) simp
    then show ?thesis using nx n assms entry_at_ok [OF Entry s] by (simp add: Entry found_result_def reader_ok_def)
  qed (use nx assms in \<open>simp_all add: found_result_def reader_ok_def\<close>)
qed

text \<open>
  (C33) The lookup by name ends and returns on every archive, well formed or not: its result is
  the first entry with this name among those in front of the trailer or the first
  malformed entry; without one it is 0 or -1 depending on which of the two ends the archive.
\<close>
theorem cpio_find_returns:
  assumes "reader_ok r" "ar_archive r = Some (base, a)" "cstring nm s"
  shows "\<exists>es c. (c = 0 \<or> c = - 1) \<and> (\<forall>e\<in>set es. entry_ok a (unat (ar_size r)) e) \<and> walk a (unat (ar_size r)) 0 = (es, c) \<and>
    cpio_find (Some nm) r =
      Inr (case find (\<lambda>e. entry_name a e = s) es of Some e \<Rightarrow> (1, Some e) | None \<Rightarrow> (c, None))"
proof -
  have s: "unat (ar_size r) \<le> length a" using assms by (auto simp: reader_ok_def)
  have "snd (walk a sz off) = 0 \<or> snd (walk a sz off) = - 1" for sz off
    by (induction a sz off rule: walk.induct) (subst (1 2) walk.simps, auto split: found.splits prod.splits)
  then show ?thesis using cpio_find_spec [OF assms(2) s assms(3)] walk_entry_ok [OF s]
    by (intro exI [of _ "fst (walk a (unat (ar_size r)) 0)"] exI [of _ "snd (walk a (unat (ar_size r)) 0)"]) auto
qed

text \<open>
  (C34) Round trip: in an archive written by the script, the kernel finds a file by its name
  and sees the contents that were written, the first ones if the name occurs twice; a name that was not written is not found.
\<close>
theorem cpio_roundtrip:
  assumes "write_archive es mtime ino = Some a" "names_ok es" "length a < 4294967296"
    "unat base + length a < 18446744073709551616" "0 \<notin> set s"
  shows "\<exists>r. cpio_init (Some (base, a)) (of_nat (length a)) r0 = Inr (0, r) \<and>
    (case map_of (map (\<lambda>x. (fst x, fst (snd x))) es) s of
       None \<Rightarrow> cpio_find (Some (s @ [0])) r = Inr (0, None)
     | Some data \<Rightarrow> \<exists>e. cpio_find (Some (s @ [0])) r = Inr (1, Some e) \<and> entry_data a e = data)"
proof -
  have f: "case map_of (map (\<lambda>x. (fst x, fst (snd x))) es) s of
      None \<Rightarrow> find (\<lambda>e. entry_name a e = s) xs = None
    | Some data \<Rightarrow> \<exists>e. find (\<lambda>e. entry_name a e = s) xs = Some e \<and> entry_data a e = data" if "list_all2 (entry_of a) xs es" for xs
    using that by (induction rule: list_all2_induct) (auto simp: entry_of_def split: option.splits)
  have "cstring (s @ [0]) s" using assms(5) by (simp add: cstring_def)
  then have "cpio_find (Some (s @ [0])) (reader_of base a) =
    Inr (case find (\<lambda>e. entry_name a e = s) (fst (walk a (length a) 0)) of Some e \<Rightarrow> (1, Some e) | None \<Rightarrow> (0, None))"
    using cpio_find_spec [of "reader_of base a" base a] unat_of_nat_u32 [OF assms(3)] walk_archive(2) [OF assms(1,2)]
    by (simp add: reader_of_def split: option.split)
  then show ?thesis using cpio_reader_init_archive [OF assms(1,3,4)] f [OF walk_archive(1) [OF assms(1,2)]]
    by (auto simp: cpio_init_def split: option.splits)
qed

text \<open>An archive with one file of three bytes.\<close>

definition archive_example :: "u8 list" where
  "archive_example = the (write_archive [([97], [7, 8, 9], 0, 1)] 0 2)"

lemma archive_example_simps:
  "write_archive [([97], [7, 8, 9], 0, 1)] 0 2 = Some archive_example" "length archive_example = 240"
  "names_ok [([97], [7, 8, 9], 0, 1)]"
proof -
  obtain f where f: "write_entry [] [97] [7, 8, 9] 0 1 = Some f" "length f = 116"
    using write_entry_defined [of 0 1 "[7, 8, 9]" "[97]" "[]"] by (auto simp: up4_def)
  then obtain a where a: "write_entry f cpio_trailer [] 0 2 = Some a" "length a = 240"
    using write_entry_defined [of 0 2 "[]" cpio_trailer f] by (auto simp: cpio_trailer_def up4_def)
  show "write_archive [([97], [7, 8, 9], 0, 1)] 0 2 = Some archive_example" "length archive_example = 240"
    using f(1) a by (simp_all add: archive_example_def write_archive_def write_trailer_def)
qed (simp add: names_ok_def cpio_trailer_def)

lemma reader_example:
  "reader_ok (reader_of 4096 archive_example)" "ar_archive (reader_of 4096 archive_example) = Some (4096, archive_example)"
  by (simp_all add: reader_ok_def reader_of_def archive_example_simps)

theorem cpio_reader_next_safe_witness:
  "\<exists>ret e r'. cpio_reader_next (reader_of 4096 archive_example) = Inr (ret, e, r') \<and> reader_ok r'"
  using cpio_reader_next_safe [OF reader_example] by blast

theorem cpio_find_returns_witness:
  "\<exists>x. cpio_find (Some [98, 0]) (reader_of 4096 archive_example) = Inr x"
proof -
  have "cstring [98, 0] [98]" by (simp add: cstring_def)
  from cpio_find_returns [OF reader_example this] show ?thesis by blast
qed

theorem cpio_roundtrip_witness:
  "\<exists>r e. cpio_init (Some (4096, archive_example)) 240 (reader_of 0 []) = Inr (0, r) \<and>
     cpio_find (Some [97, 0]) r = Inr (1, Some e) \<and> entry_data archive_example e = [7, 8, 9]"
  using cpio_roundtrip [OF archive_example_simps(1,3), of 4096 "[97]" "reader_of 0 []"] by (auto simp: archive_example_simps(2))

end
