(* ===== verification/Boot_Files.thy ===== *)
theory Boot_Files
  imports Paths Cpio "HOL-Library.List_Lexorder" "HOL-Library.Multiset"
begin

text \<open>
  The file collections the kernel boots from (\<open>kernel/boot_files.c\<close>): a list of boot
  modules or an archive in memory, both looked up by a normalised path.  The archive is
  built by \<open>script/build_initrd.py\<close>, whose checks and order of writing are part of the model.

  A path is the byte string in front of its terminator, \<open>None\<close> a null pointer.  A
  function that returns 0 or -2 gives an option; the lookups return a file or the error
  code -1 or -2.  Pointers to result objects are never null.
\<close>

section \<open>Normalised paths\<close>

abbreviation (input) BOOT_FILE_PATH_MAX :: nat where "BOOT_FILE_PATH_MAX \<equiv> 256"

abbreviation (input) COLON :: u8 where "COLON \<equiv> 58"

abbreviation (input) DOT :: u8 where "DOT \<equiv> 46"

lemma component_shorter:
  assumes "path \<noteq> []"
  shows "length (dropWhile (\<lambda>c. c \<noteq> SLASH) (dropWhile (\<lambda>c. c = SLASH) path)) < length path"
proof (cases "dropWhile (\<lambda>c. c = SLASH) path")
  case Nil
  then show ?thesis using assms by (simp del: dropWhile_eq_Nil_conv)
next
  case (Cons c p)
  then have "c \<noteq> SLASH" using hd_dropWhile [of "\<lambda>c. c = SLASH" path] by auto
  then have "length (dropWhile (\<lambda>c. c \<noteq> SLASH) (c # p)) \<le> length p" using length_dropWhile_le [of _ p] by simp
  then show ?thesis using Cons length_dropWhile_le [of "\<lambda>c. c = SLASH" path] by simp
qed

function normalize_loop :: "u8 list \<Rightarrow> u8 list \<Rightarrow> u8 list option" where
  "normalize_loop path out =
     (if path = [] then Some out
      else let start = dropWhile (\<lambda>c. c = SLASH) path;
               comp = takeWhile (\<lambda>c. c \<noteq> SLASH) start;
               rest = dropWhile (\<lambda>c. c \<noteq> SLASH) start in
        if COLON \<in> set comp then None
        else if comp = [] \<or> comp = [DOT] then normalize_loop rest out
        else if comp = [DOT, DOT] then None
        else if length comp \<ge> BOOT_FILE_PATH_MAX - length out - 1 then None
        else normalize_loop rest (out @ SLASH # comp))"
  by pat_completeness auto
termination
  by (relation "measure (\<lambda>(path, out). length path)") (auto intro: component_shorter)

declare normalize_loop.simps [simp del]

definition boot_file_normalize :: "u8 list option \<Rightarrow> u8 list option" where
  "boot_file_normalize path =
     (case path of
        None \<Rightarrow> None
      | Some p \<Rightarrow> (case normalize_loop p [] of None \<Rightarrow> None | Some out \<Rightarrow> if out \<noteq> [] then Some out else None))"

section \<open>File collections\<close>

record boot_module =
  bm_address :: u64
  bm_size :: u64
  bm_path :: "u8 list option"

datatype boot_files =
  BOOT_FILES_MODULES "boot_module list option"
| BOOT_FILES_CPIO "(u64 \<times> u8 list) option" u32

record boot_file_set =
  bs_label :: "u8 list"
  bs_files :: boot_files

record boot_file =
  bf_data :: u64
  bf_size :: u64
  bf_path :: "u8 list"
  bf_source :: boot_file_set

definition valid_view :: "u64 \<Rightarrow> u64 \<Rightarrow> bool" where
  "valid_view data sz \<longleftrightarrow> data \<noteq> 0 \<and> sz \<le> 0x7fffffff \<and> data \<le> - 1 - sz"

fun modules_valid :: "boot_module list \<Rightarrow> bool" where
  "modules_valid [] = True"
| "modules_valid (m # ms) =
     (if \<not> valid_view (bm_address m) (bm_size m) \<or> boot_file_normalize (bm_path m) = None then False else modules_valid ms)"

definition boot_files_from_modules :: "u8 list option \<Rightarrow> boot_module list option \<Rightarrow> boot_file_set option" where
  "boot_files_from_modules label modules =
     (case (label, modules) of
        (Some l, Some ms) \<Rightarrow>
          if modules_valid ms then Some \<lparr>bs_label = l, bs_files = BOOT_FILES_MODULES (Some ms)\<rparr> else None
      | _ \<Rightarrow> None)"

text \<open>The string a name pointer into the archive denotes.\<close>

definition string_at :: "u8 list \<Rightarrow> nat \<Rightarrow> u8 list res" where
  "string_at a p = (if 0 \<in> set (drop p a) then Inr (takeWhile (\<lambda>c. c \<noteq> 0) (drop p a)) else Inl Undefined)"

abbreviation (input) S_IFMT :: u32 where "S_IFMT \<equiv> 0xF000"

abbreviation (input) S_IFDIR :: u32 where "S_IFDIR \<equiv> 0x4000"

abbreviation (input) S_IFREG :: u32 where "S_IFREG \<equiv> 0x8000"

definition check_entry :: "u8 list \<Rightarrow> cpio_entry \<Rightarrow> unit \<Rightarrow> (unit + unit) res" where
  "check_entry a e s =
     (if ce_mode e AND S_IFMT = S_IFDIR then Inr (Inr ())
      else if ce_mode e AND S_IFMT \<noteq> S_IFREG then Inr (Inl ())
      else bind_res (string_at a (ce_name e)) (\<lambda>name.
        Inr (if boot_file_normalize (Some name) = None then Inl () else Inr ())))"

text \<open>The cursor on the stack of the callers, which \<open>cpio_reader_init\<close> overwrites.\<close>

definition local_reader :: cpio_reader where
  "local_reader = \<lparr>ar_archive = None, ar_size = 0, ar_offset = 0, ar_finished = False\<rparr>"

definition boot_files_from_cpio :: "u8 list option \<Rightarrow> (u64 \<times> u8 list) option \<Rightarrow> u32 \<Rightarrow> boot_file_set option res" where
  "boot_files_from_cpio label data sz =
     (case (label, data) of
        (Some l, Some (base, a)) \<Rightarrow>
          if \<not> valid_view base (ucast sz) then Inr None
          else bind_res (cpio_reader_init data sz local_reader) (\<lambda>(ret, reader).
            if ret \<noteq> 0 then Inr None
            else bind_res (cpio_while (check_entry a) reader ()) (\<lambda>x.
              case x of
                Inl _ \<Rightarrow> Inr None
              | Inr (ret, _) \<Rightarrow>
                  Inr (if ret \<noteq> 0 then None else Some \<lparr>bs_label = l, bs_files = BOOT_FILES_CPIO data sz\<rparr>)))
      | _ \<Rightarrow> Inr None)"

section \<open>Lookup\<close>

text \<open>The loops over modules and entries; their state is what has been found so far.\<close>

fun lookup_modules :: "u8 list \<Rightarrow> boot_module list \<Rightarrow> (u64 \<times> u64) option \<Rightarrow> (u64 \<times> u64) option option" where
  "lookup_modules wanted [] found = Some found"
| "lookup_modules wanted (m # ms) found =
     (case boot_file_normalize (bm_path m) of
        None \<Rightarrow> None
      | Some normalized \<Rightarrow>
          if wanted \<noteq> normalized then lookup_modules wanted ms found
          else if found \<noteq> None \<or> \<not> valid_view (bm_address m) (bm_size m) then None
          else lookup_modules wanted ms (Some (bm_address m, bm_size m)))"

definition lookup_entry :: "u8 list \<Rightarrow> u64 \<Rightarrow> u8 list \<Rightarrow> cpio_entry \<Rightarrow> (u64 \<times> u64) option \<Rightarrow> (unit + (u64 \<times> u64) option) res" where
  "lookup_entry wanted base a e found =
     (if ce_mode e AND S_IFMT = S_IFDIR then Inr (Inr found)
      else if ce_mode e AND S_IFMT \<noteq> S_IFREG then Inr (Inl ())
      else bind_res (string_at a (ce_name e)) (\<lambda>name.
        case boot_file_normalize (Some name) of
          None \<Rightarrow> Inr (Inl ())
        | Some normalized \<Rightarrow>
            if wanted \<noteq> normalized then Inr (Inr found)
            else if found \<noteq> None then Inr (Inl ())
            else Inr (Inr (Some (base + of_nat (ce_data e), ucast (ce_size e))))))"

text \<open>The search in one collection: \<open>None\<close> for an invalid collection, else what was found.\<close>

definition search_files :: "u8 list \<Rightarrow> boot_files \<Rightarrow> (u64 \<times> u64) option option res" where
  "search_files wanted fs =
     (case fs of
        BOOT_FILES_MODULES ms \<Rightarrow> Inr (case ms of None \<Rightarrow> None | Some ms \<Rightarrow> lookup_modules wanted ms None)
      | BOOT_FILES_CPIO data sz \<Rightarrow>
          bind_res (cpio_reader_init data sz local_reader) (\<lambda>(ret, reader).
            case data of
              None \<Rightarrow> Inr None
            | Some (base, a) \<Rightarrow>
                if ret \<noteq> 0 then Inr None
                else bind_res (cpio_while (lookup_entry wanted base a) reader None) (\<lambda>x.
                  Inr (case x of Inl _ \<Rightarrow> None | Inr (ret, found) \<Rightarrow> if ret \<noteq> 0 then None else Some found))))"

definition boot_file_lookup :: "boot_file_set option \<Rightarrow> u8 list option \<Rightarrow> (int + boot_file) res" where
  "boot_file_lookup fset path =
     (case (fset, boot_file_normalize path) of
        (Some s, Some wanted) \<Rightarrow>
          bind_res (search_files wanted (bs_files s)) (\<lambda>r.
            Inr (case r of
                   None \<Rightarrow> Inl (- 2)
                 | Some None \<Rightarrow> Inl (- 1)
                 | Some (Some (data, sz)) \<Rightarrow> Inr \<lparr>bf_data = data, bf_size = sz, bf_path = wanted, bf_source = s\<rparr>))
      | _ \<Rightarrow> Inr (Inl (- 2)))"

definition boot_file_lookup_in ::
  "boot_file_set option \<Rightarrow> u8 list option \<Rightarrow> u8 list option \<Rightarrow> (int + boot_file) res" where
  "boot_file_lookup_in fset directory name =
     (case (directory, name) of
        (Some d, Some n) \<Rightarrow>
          if SLASH \<in> set n then boot_file_lookup fset name
          else if length d + length n + 2 > BOOT_FILE_PATH_MAX then Inr (Inl (- 2))
          else boot_file_lookup fset (Some (d @ SLASH # n))
      | _ \<Rightarrow> Inr (Inl (- 2)))"

section \<open>Building the archive\<close>

fun join_slash :: "u8 list list \<Rightarrow> u8 list" where
  "join_slash [] = []"
| "join_slash [c] = c"
| "join_slash (c # cs) = c @ SLASH # join_slash cs"

text \<open>\<open>None\<close> is the \<open>ValueError\<close> of the script.\<close>

definition canonical :: "u8 list \<Rightarrow> u8 list option" where
  "canonical name =
     (let parts = split_slash name in
      if COLON \<in> set name \<or> [DOT, DOT] \<in> set parts \<or> 0 \<in> set name then None
      else let n = SLASH # join_slash (filter (\<lambda>p. p \<notin> {[], [DOT]}) parts) in
        if n = [SLASH] \<or> length n \<ge> 256 then None else Some n)"

definition le16 :: "u8 list \<Rightarrow> nat \<Rightarrow> nat" where
  "le16 data p = unat (data ! p) + 256 * unat (data ! (p + 1))"

definition elf_component :: "nat \<Rightarrow> u8 list \<Rightarrow> bool" where
  "elf_component machine data \<longleftrightarrow>
     length data \<ge> 64 \<and> take 7 data = [0x7F, 0x45, 0x4C, 0x46, 2, 1, 1] \<and>
     le16 data 18 = machine \<and> le16 data 16 \<in> {1, 2} \<and> le16 data 52 = 64"

fun add_components :: "nat \<Rightarrow> (u8 list \<times> u8 list) list \<Rightarrow> (u8 list \<times> u8 list) list \<Rightarrow> (u8 list \<times> u8 list) list option" where
  "add_components machine [] entries = Some entries"
| "add_components machine ((name, data) # cs) entries =
     (case canonical name of
        None \<Rightarrow> None
      | Some n \<Rightarrow>
          if n \<in> fst ` set entries \<or> \<not> elf_component machine data then None
          else add_components machine cs (entries @ [(n, data)]))"

text \<open>\<open>/conf/task.conf\<close>\<close>

definition conf_path :: "u8 list" where
  "conf_path = [47, 99, 111, 110, 102, 47, 116, 97, 115, 107, 46, 99, 111, 110, 102]"

definition numbered :: "nat \<Rightarrow> (u8 list \<times> u8 list) list \<Rightarrow> (u8 list \<times> u8 list \<times> nat \<times> nat) list" where
  "numbered epoch entries =
     map (\<lambda>(ino, name, data). (dropWhile (\<lambda>c. c = SLASH) name, data, epoch, ino)) (zip [1..<length entries + 1] entries)"

text \<open>
  The files are given by their contents; the external validator is an argument.
\<close>

definition build :: "(u8 list \<Rightarrow> bool) \<Rightarrow> nat \<Rightarrow> nat \<Rightarrow> u8 list \<Rightarrow> (u8 list \<times> u8 list) list \<Rightarrow> u8 list option" where
  "build validator machine epoch config components =
     (case add_components machine components [(conf_path, config)] of
        None \<Rightarrow> None
      | Some entries \<Rightarrow>
          if epoch > 0xffffffff then None
          else case write_archive (numbered epoch (sort_key fst entries)) epoch (length entries + 1) of
                 None \<Rightarrow> None
               | Some a \<Rightarrow> if validator a then Some a else None)"

section \<open>The normal form of a path\<close>

lemma filter_split_slash:
  assumes "\<not> P []"
  defines "start p \<equiv> dropWhile (\<lambda>c. c = SLASH) p"
  shows "filter P (split_slash p) =
    (let piece = takeWhile (\<lambda>c. c \<noteq> SLASH) (start p) in
     (if P piece then [piece] else []) @ filter P (split_slash (dropWhile (\<lambda>c. c \<noteq> SLASH) (start p))))"
proof -
  have "filter P (split_slash p) = filter P (split_slash (start p))"
    unfolding start_def using assms(1) by (induction p) simp_all
  also have "\<dots> = (let piece = takeWhile (\<lambda>c. c \<noteq> SLASH) (start p) in
     (if P piece then [piece] else []) @ filter P (split_slash (dropWhile (\<lambda>c. c \<noteq> SLASH) (start p))))"
  proof (cases "dropWhile (\<lambda>c. c \<noteq> SLASH) (start p)")
    case Nil
    then show ?thesis using assms(1) by (subst split_slash_takeWhile) (simp add: Let_def del: dropWhile_eq_Nil_conv)
  next
    case (Cons c q)
    then have "c = SLASH" using hd_dropWhile [of "\<lambda>c. c \<noteq> SLASH" "start p"] by auto
    then show ?thesis using Cons assms(1) by (subst split_slash_takeWhile) (simp add: Let_def)
  qed
  finally show ?thesis .
qed

definition kept :: "u8 list \<Rightarrow> u8 list list" where
  "kept p = filter (\<lambda>c. c \<notin> {[], [DOT]}) (split_slash p)"

definition forbidden :: "u8 list \<Rightarrow> bool" where
  "forbidden p \<longleftrightarrow> COLON \<in> set p \<or> [DOT, DOT] \<in> set (split_slash p)"

definition rooted :: "u8 list list \<Rightarrow> u8 list" where
  "rooted cs = concat (map ((#) SLASH) cs)"

text \<open>One round of the loop.\<close>

lemma normalize_step:
  fixes p :: "u8 list"
  defines "start \<equiv> dropWhile (\<lambda>c. c = SLASH) p"
  defines "piece \<equiv> takeWhile (\<lambda>c. c \<noteq> SLASH) start" and "rest \<equiv> dropWhile (\<lambda>c. c \<noteq> SLASH) start"
  shows "kept p = (if piece = [] \<or> piece = [DOT] then [] else [piece]) @ kept rest"
    "forbidden p \<longleftrightarrow> COLON \<in> set piece \<or> piece = [DOT, DOT] \<or> forbidden rest"
proof -
  show "kept p = (if piece = [] \<or> piece = [DOT] then [] else [piece]) @ kept rest"
    unfolding kept_def piece_def rest_def start_def by (subst filter_split_slash) (simp_all add: Let_def)
  have "COLON \<in> set p \<longleftrightarrow> COLON \<in> set start"
    unfolding start_def by (induction p) auto
  also have "\<dots> \<longleftrightarrow> COLON \<in> set piece \<or> COLON \<in> set rest"
    using takeWhile_dropWhile_id [of "\<lambda>c. c \<noteq> SLASH" start] set_append [of piece rest] by (simp add: piece_def rest_def)
  finally have c: "COLON \<in> set p \<longleftrightarrow> COLON \<in> set piece \<or> COLON \<in> set rest" .
  have "filter ((=) [DOT, DOT]) (split_slash p) = (if [DOT, DOT] = piece then [piece] else []) @ filter ((=) [DOT, DOT]) (split_slash rest)"
    unfolding piece_def rest_def start_def by (subst filter_split_slash) (simp_all add: Let_def)
  moreover have "[DOT, DOT] \<in> set xs \<longleftrightarrow> filter ((=) [DOT, DOT]) xs \<noteq> []" for xs :: "u8 list list"
    by (auto simp: filter_empty_conv)
  ultimately have "[DOT, DOT] \<in> set (split_slash p) \<longleftrightarrow> piece = [DOT, DOT] \<or> [DOT, DOT] \<in> set (split_slash rest)" by simp
  with c show "forbidden p \<longleftrightarrow> COLON \<in> set piece \<or> piece = [DOT, DOT] \<or> forbidden rest" unfolding forbidden_def by blast
qed

lemma normalize_loop_spec:
  "length out \<le> 255 \<Longrightarrow> normalize_loop p out =
     (if forbidden p \<or> length (out @ rooted (kept p)) \<ge> 256 then None else Some (out @ rooted (kept p)))"
proof (induction p out rule: normalize_loop.induct)
  case (1 p out)
  show ?case
  proof (cases "p = []")
    case True
    then show ?thesis using 1 by (subst normalize_loop.simps) (simp add: forbidden_def kept_def rooted_def)
  next
    case False
    define start piece rest where d: "start = dropWhile (\<lambda>c. c = SLASH) p" "piece = takeWhile (\<lambda>c. c \<noteq> SLASH) start"
      "rest = dropWhile (\<lambda>c. c \<noteq> SLASH) start"
    have s: "normalize_loop p out =
       (if COLON \<in> set piece then None
        else if piece = [] \<or> piece = [DOT] then normalize_loop rest out
        else if piece = [DOT, DOT] then None
        else if length piece \<ge> 256 - length out - 1 then None
        else normalize_loop rest (out @ SLASH # piece))"
      using False by (subst normalize_loop.simps) (simp add: d Let_def)
    note st = normalize_step [of p, folded d(1), folded d(2,3)]
    note IH = "1.IH" [OF False d]
    show ?thesis
    proof (cases "COLON \<in> set piece \<or> piece = [DOT, DOT]")
      case True
      then show ?thesis using s st(2) by auto
    next
      case ok: False
      show ?thesis
      proof (cases "piece = [] \<or> piece = [DOT]")
        case True
        then show ?thesis using s st ok IH(1) 1(3) by (simp add: rooted_def)
      next
        case False
        then show ?thesis using s st ok IH(2) 1(3) by (auto simp: rooted_def)
      qed
    qed
  qed
qed

lemma join_slash_rooted: "cs \<noteq> [] \<Longrightarrow> SLASH # join_slash cs = rooted cs"
  by (induction cs rule: join_slash.induct) (simp_all add: rooted_def)

lemma canonical_eq: "canonical p = (if forbidden p \<or> 0 \<in> set p \<or> kept p = [] \<or> length (rooted (kept p)) \<ge> 256 then None else Some (rooted (kept p)))"
proof -
  have ne: "join_slash cs \<noteq> []" if "cs \<noteq> []" "[] \<notin> set cs" for cs
    using that by (induction cs rule: join_slash.induct) simp_all
  have "[] \<notin> set (kept p)" by (simp add: kept_def)
  then show ?thesis using ne [of "kept p"] join_slash_rooted [of "kept p"]
    unfolding canonical_def Let_def kept_def [symmetric] forbidden_def by (cases "kept p = []") auto
qed

lemma rooted_Nil_iff: "rooted cs = [] \<longleftrightarrow> cs = []"
  by (cases cs) (simp_all add: rooted_def)

lemma normalize_canonical: "0 \<notin> set p \<Longrightarrow> boot_file_normalize (Some p) = canonical p"
  by (simp add: boot_file_normalize_def normalize_loop_spec canonical_eq rooted_Nil_iff)

text \<open>Canonical paths are rooted lists of components and their own normal form.\<close>

definition component_ok :: "u8 list \<Rightarrow> bool" where
  "component_ok c \<longleftrightarrow> SLASH \<notin> set c \<and> c \<noteq> [] \<and> c \<noteq> [DOT]"

lemma split_slash_parts: "c \<in> set (split_slash p) \<Longrightarrow> SLASH \<notin> set c \<and> set c \<subseteq> set p"
proof (induction p arbitrary: c)
  case (Cons x p)
  have "split_slash p \<noteq> []" by (subst split_slash_takeWhile) simp
  then have "hd (split_slash p) \<in> set (split_slash p)" "set (tl (split_slash p)) \<subseteq> set (split_slash p)"
    by (auto dest: list.set_sel)
  then show ?case using Cons.prems Cons.IH [of c] Cons.IH [of "hd (split_slash p)"] by (auto split: if_splits)
qed simp

lemma kept_ok: "c \<in> set (kept p) \<Longrightarrow> component_ok c \<and> set c \<subseteq> set p"
  using split_slash_parts [of c p] by (auto simp: kept_def component_ok_def)

lemma strip_slash:
  "kept (dropWhile (\<lambda>c. c = SLASH) p) = kept p" "forbidden (dropWhile (\<lambda>c. c = SLASH) p) = forbidden p"
  using normalize_step [of "dropWhile (\<lambda>c. c = SLASH) p"] normalize_step [of p] by (simp_all add: dropWhile_idem)

lemma rooted_parts:
  assumes "component_ok c"
  shows "dropWhile (\<lambda>c. c = SLASH) (rooted (c # cs)) = c @ rooted cs"
    "takeWhile (\<lambda>c. c \<noteq> SLASH) (c @ rooted cs) = c" "dropWhile (\<lambda>c. c \<noteq> SLASH) (c @ rooted cs) = rooted cs"
proof -
  have r: "rooted cs = [] \<or> (\<exists>q. rooted cs = SLASH # q)" by (cases cs) (simp_all add: rooted_def)
  show "dropWhile (\<lambda>c. c = SLASH) (rooted (c # cs)) = c @ rooted cs"
    using assms by (cases c) (auto simp: rooted_def component_ok_def)
  have "\<forall>x\<in>set c. x \<noteq> SLASH" using assms(1) by (auto simp: component_ok_def)
  then show "takeWhile (\<lambda>c. c \<noteq> SLASH) (c @ rooted cs) = c" "dropWhile (\<lambda>c. c \<noteq> SLASH) (c @ rooted cs) = rooted cs"
    using r by (auto simp: takeWhile_append2 dropWhile_append2)
qed

lemma kept_rooted:
  "\<forall>c\<in>set cs. component_ok c \<Longrightarrow>
     kept (rooted cs) = cs \<and> (forbidden (rooted cs) \<longleftrightarrow> (\<exists>c\<in>set cs. COLON \<in> set c \<or> c = [DOT, DOT]))"
proof (induction cs)
  case Nil
  show ?case by (simp add: rooted_def kept_def forbidden_def)
next
  case (Cons c cs)
  have c: "component_ok c" "\<forall>c\<in>set cs. component_ok c" using Cons.prems by simp_all
  note r = rooted_parts [OF c(1), of cs] and st = normalize_step [of "rooted (c # cs)"]
  have "kept (rooted (c # cs)) = c # cs" using st(1) c Cons.IH by (simp add: r component_ok_def)
  moreover have "forbidden (rooted (c # cs)) \<longleftrightarrow> COLON \<in> set c \<or> c = [DOT, DOT] \<or> (\<exists>c\<in>set cs. COLON \<in> set c \<or> c = [DOT, DOT])"
    using st(2) c Cons.IH by (simp add: r)
  ultimately show ?case by simp
qed

lemma canonical_strip:
  assumes "canonical p = Some n"
  shows "canonical (dropWhile (\<lambda>c. c = SLASH) n) = Some n" "0 \<notin> set n" "n = SLASH # dropWhile (\<lambda>c. c = SLASH) n"
proof -
  let ?cs = "kept p"
  have p: "\<not> forbidden p" "0 \<notin> set p" "?cs \<noteq> []" "length (rooted ?cs) < 256" "n = rooted ?cs"
    using assms by (auto simp: canonical_eq split: if_splits)
  have cs: "\<forall>c\<in>set ?cs. component_ok c" using kept_ok by blast
  have "\<not> (\<exists>c\<in>set ?cs. COLON \<in> set c \<or> c = [DOT, DOT])"
    using p(1) kept_ok [of _ p] by (auto simp: forbidden_def kept_def)
  then have k: "kept n = ?cs" "\<not> forbidden n" unfolding p(5) using kept_rooted [OF cs] by auto
  show z: "0 \<notin> set n" unfolding p(5) rooted_def using p(2) kept_ok [of _ p] by auto
  then have "0 \<notin> set (dropWhile (\<lambda>c. c = SLASH) n)" using set_dropWhileD by fast
  then show "canonical (dropWhile (\<lambda>c. c = SLASH) n) = Some n"
    using k p(3,4,5) by (simp add: canonical_eq strip_slash)
  obtain c cs where ccs: "?cs = c # cs" using p(3) by (cases ?cs) auto
  then show "n = SLASH # dropWhile (\<lambda>c. c = SLASH) n"
    using rooted_parts(1) [of c cs] cs by (simp add: p(5) rooted_def)
qed

section \<open>Lookup in an archive\<close>

lemma string_at_entry:
  assumes "entry_ok a sz e"
  shows "string_at a (ce_name e) = Inr (entry_name a e)"
proof -
  have "0 \<in> set (drop (ce_name e) a)" using assms by (auto simp: entry_ok_def cstring_def entry_string_def)
  then show ?thesis by (simp add: string_at_def entry_name_def entry_string_def)
qed

text \<open>The files of an archive with their normal forms.\<close>

definition normal :: "u8 list \<times> u8 list \<times> nat \<times> nat \<Rightarrow> u8 list option" where
  "normal x = boot_file_normalize (Some (fst x))"

lemma check_entries:
  assumes "list_all2 (entry_of a) xs es" "\<forall>e\<in>set xs. entry_ok a sz e" "\<forall>x\<in>set es. normal x \<noteq> None"
  shows "each_entry (check_entry a) (xs, c) () = Inr (Inr (c, ()))"
  using assms
proof (induction rule: list_all2_induct)
  case (Cons e xs x es)
  then have "check_entry a e () = Inr (Inr ())"
    using string_at_entry [of a sz e] by (auto simp: check_entry_def entry_of_def normal_def)
  then show ?case using Cons by simp
qed simp

lemma lookup_entries:
  assumes "list_all2 (entry_of a) xs es" "\<forall>e\<in>set xs. entry_ok a sz e" "\<forall>x\<in>set es. normal x \<noteq> None"
    "distinct (map normal es)" "found = None \<or> Some w \<notin> normal ` set es"
  shows "\<exists>res. each_entry (lookup_entry w base a) (xs, c) found = Inr (Inr (c, res)) \<and>
    (if Some w \<in> normal ` set es
     then \<exists>x\<in>set es. \<exists>e\<in>set xs. normal x = Some w \<and> entry_of a e x \<and> res = Some (base + of_nat (ce_data e), ucast (ce_size e))
     else res = found)"
  using assms
proof (induction arbitrary: found rule: list_all2_induct)
  case (Cons e xs x es)
  have s: "string_at a (ce_name e) = Inr (fst x)" using Cons(1,4) string_at_entry [of a sz e] by (simp add: entry_of_def)
  obtain n where n: "normal x = Some n" using Cons(5) by auto
  have ok: "\<forall>e\<in>set xs. entry_ok a sz e" "\<forall>x\<in>set es. normal x \<noteq> None" "distinct (map normal es)" using Cons(4-6) by simp_all
  have l: "lookup_entry w base a e f = (if w \<noteq> n then Inr (Inr f) else if f \<noteq> None then Inr (Inl ())
      else Inr (Inr (Some (base + of_nat (ce_data e), ucast (ce_size e)))))" for f
    using s n Cons(1) by (simp add: lookup_entry_def entry_of_def normal_def)
  show ?case
  proof (cases "w = n")
    case True
    then have f: "found = None" "Some w \<notin> normal ` set es" using Cons(6,7) n by auto
    have "lookup_entry w base a e found = Inr (Inr (Some (base + of_nat (ce_data e), ucast (ce_size e))))"
      using l [of found] True f(1) by simp
    then show ?thesis using Cons.IH [OF ok disjI2 [OF f(2)]] f True n Cons(1) by auto
  next
    case False
    then have "found = None \<or> Some w \<notin> normal ` set es" using Cons(7) by auto
    from Cons.IH [OF ok this] obtain res where "each_entry (lookup_entry w base a) (xs, c) found = Inr (Inr (c, res))"
      "if Some w \<in> normal ` set es
       then \<exists>x\<in>set es. \<exists>e\<in>set xs. normal x = Some w \<and> entry_of a e x \<and> res = Some (base + of_nat (ce_data e), ucast (ce_size e))
       else res = found" by blast
    then show ?thesis using False n l [of found] by (intro exI [of _ res]) (auto split: if_splits)
  qed
qed simp

text \<open>The bytes of a file that was found in an archive.\<close>

definition file_bytes :: "u64 \<Rightarrow> u8 list \<Rightarrow> boot_file \<Rightarrow> u8 list" where
  "file_bytes base a f = take (unat (bf_size f)) (drop (unat (bf_data f - base)) a)"

lemma file_bytes_entry:
  assumes "entry_ok a (length a) e" "entry_of a e x" "length a < 4294967296"
    "bf_data f = base + of_nat (ce_data e)" "bf_size f = ucast (ce_size e)"
  shows "file_bytes base a f = fst (snd x)"
  using assms by (simp add: file_bytes_def entry_of_def entry_data_def entry_ok_def unat_ucast_32_64)

text \<open>What the two operations on a written archive do.\<close>

definition archive_set :: "u8 list \<Rightarrow> u64 \<Rightarrow> u8 list \<Rightarrow> boot_file_set" where
  "archive_set label base a = \<lparr>bs_label = label, bs_files = BOOT_FILES_CPIO (Some (base, a)) (of_nat (length a))\<rparr>"

lemma archive_walk:
  assumes "write_archive es mtime ino = Some a" "names_ok es" "length a < 4294967296"
  obtains xs where "list_all2 (entry_of a) xs es" "\<forall>e\<in>set xs. entry_ok a (length a) e"
    "\<And>body s. cpio_while (body :: cpio_entry \<Rightarrow> 's \<Rightarrow> ('r + 's) res) (reader_of base a) s = each_entry body (xs, 0) s"
proof -
  let ?w = "walk a (length a) 0"
  have w: "?w = (fst ?w, 0)" using walk_archive(2) [OF assms(1,2)] by (cases ?w) simp
  have "cpio_while body (reader_of base a) s = each_entry body (fst ?w, 0) s" for body :: "cpio_entry \<Rightarrow> 's \<Rightarrow> ('r + 's) res" and s
    using cpio_while_walk [of "reader_of base a" base a body s] unat_of_nat_u32 [OF assms(3)] w by (simp add: reader_of_def)
  then show thesis using that walk_archive(1) [OF assms(1,2)] walk_entry_ok [of "length a" a _ 0] by blast
qed

lemma from_cpio_archive:
  assumes w: "write_archive es mtime ino = Some a" "names_ok es" "length a \<le> 0x7fffffff" "base \<noteq> 0"
    "unat base + length a < 18446744073709551616" and n: "\<forall>x\<in>set es. normal x \<noteq> None"
  shows "boot_files_from_cpio (Some label) (Some (base, a)) (of_nat (length a)) = Inr (Some (archive_set label base a))"
proof -
  have len: "length a < 4294967296" using w(3) by simp
  note u = unat_of_nat_u32 [OF len]
  obtain xs where xs: "list_all2 (entry_of a) xs es" "\<forall>e\<in>set xs. entry_ok a (length a) e"
    "cpio_while (check_entry a) (reader_of base a) () = each_entry (check_entry a) (xs, 0) ()"
    using archive_walk [OF w(1,2) len] by metis
  have "valid_view base (ucast (of_nat (length a) :: u32))"
    using w(3-5) by (simp add: valid_view_def word_le_nat_alt unat_minus_one_sub unat_ucast_32_64 u)
  then show ?thesis using xs(3) check_entries [OF xs(1,2) n] cpio_reader_init_archive [OF w(1) len w(5)]
    by (simp add: boot_files_from_cpio_def archive_set_def)
qed

lemma lookup_archive:
  assumes w: "write_archive es mtime ino = Some a" "names_ok es" "length a \<le> 0x7fffffff"
    "unat base + length a < 18446744073709551616"
    and n: "\<forall>x\<in>set es. normal x \<noteq> None" "distinct (map normal es)" and p: "boot_file_normalize (Some p) = Some q"
  shows "case map_of (map (\<lambda>x. (normal x, fst (snd x))) es) (Some q) of
       None \<Rightarrow> boot_file_lookup (Some (archive_set label base a)) (Some p) = Inr (Inl (- 1))
     | Some data \<Rightarrow> \<exists>f. boot_file_lookup (Some (archive_set label base a)) (Some p) = Inr (Inr f) \<and> bf_path f = q \<and> file_bytes base a f = data"
proof -
  have len: "length a < 4294967296" using w(3) by simp
  obtain xs where xs: "list_all2 (entry_of a) xs es" "\<forall>e\<in>set xs. entry_ok a (length a) e"
    "cpio_while (lookup_entry q base a) (reader_of base a) None = each_entry (lookup_entry q base a) (xs, 0) None"
    using archive_walk [OF w(1,2) len] by metis
  obtain res where r: "each_entry (lookup_entry q base a) (xs, 0) None = Inr (Inr (0, res))"
    and res: "if Some q \<in> normal ` set es
     then \<exists>x\<in>set es. \<exists>e\<in>set xs. normal x = Some q \<and> entry_of a e x \<and> res = Some (base + of_nat (ce_data e), ucast (ce_size e))
     else res = None"
    using lookup_entries [OF xs(1,2) n, of None q base 0] by auto
  have s: "search_files q (bs_files (archive_set label base a)) = Inr (Some res)"
    using xs(3) r cpio_reader_init_archive [OF w(1) len w(4)] by (simp add: search_files_def archive_set_def)
  show ?thesis
  proof (cases "Some q \<in> normal ` set es")
    case True
    then obtain x e where x: "x \<in> set es" "e \<in> set xs" "normal x = Some q" "entry_of a e x"
      "res = Some (base + of_nat (ce_data e), ucast (ce_size e))" using res by auto
    have "map_of (map (\<lambda>x. (normal x, fst (snd x))) es) (Some q) = Some (fst (snd x))"
      using n(2) x(1,3) by (intro map_of_is_SomeI) (auto simp: comp_def image_iff intro!: bexI [of _ x])
    then show ?thesis using s p x xs(2) file_bytes_entry [OF _ x(4) len] by (auto simp: boot_file_lookup_def)
  next
    case False
    then have "map_of (map (\<lambda>x. (normal x, fst (snd x))) es) (Some q) = None" by (auto simp: map_of_eq_None_iff)
    then show ?thesis using s p res False by (simp add: boot_file_lookup_def)
  qed
qed

section \<open>The archive the build script writes\<close>

lemma add_components_Some:
  "add_components machine cs entries = Some out \<Longrightarrow>
     out = entries @ map (\<lambda>(n, d). (the (canonical n), d)) cs \<and> (\<forall>c\<in>set cs. canonical (fst c) \<noteq> None) \<and>
     (distinct (map fst entries) \<longrightarrow> distinct (map fst out))"
proof (induction machine cs entries rule: add_components.induct)
  case (2 machine name data cs entries)
  from 2(2) obtain n where n: "canonical name = Some n" "\<not> (n \<in> fst ` set entries \<or> \<not> elf_component machine data)"
    "add_components machine cs (entries @ [(n, data)]) = Some out"
    by (auto split: option.splits if_splits)
  note IH = 2(1) [OF n]
  have "distinct (map fst entries) \<Longrightarrow> distinct (map fst (entries @ [(n, data)]))" using n(2) by simp
  then have "distinct (map fst entries) \<longrightarrow> distinct (map fst out)" using IH by blast
  then show ?case using IH n(1) by simp
qed simp

lemma conf_path_canonical: "canonical conf_path = Some conf_path"
  by (simp add: canonical_def conf_path_def Let_def)

text \<open>The numbered entries have the names of the list as their normal forms.\<close>

definition canonical_names :: "(u8 list \<times> u8 list) list \<Rightarrow> bool" where
  "canonical_names es \<longleftrightarrow> (\<forall>x\<in>set es. \<exists>p. canonical p = Some (fst x))"

lemma numbered_map:
  "map (\<lambda>x. (fst x, fst (snd x))) (numbered epoch es) = map (\<lambda>(n, d). (dropWhile (\<lambda>c. c = SLASH) n, d)) es"
proof -
  have "map (\<lambda>x. (fst x, fst (snd x))) (numbered epoch es) =
    map (\<lambda>(n, d). (dropWhile (\<lambda>c. c = SLASH) n, d)) (map snd (zip [1..<length es + 1] es))"
    by (simp add: numbered_def case_prod_unfold del: map_snd_zip)
  also have "map snd (zip [1..<length es + 1] es) = es" by (rule map_snd_zip) (simp only: length_upt diff_add_inverse2)
  finally show ?thesis .
qed

lemma normal_numbered:
  assumes "canonical_names es"
  shows "map (\<lambda>x. (normal x, fst (snd x))) (numbered epoch es) = map (\<lambda>(n, d). (Some n, d)) es"
proof -
  have e: "boot_file_normalize (Some (dropWhile (\<lambda>c. c = SLASH) n)) = Some n" if "canonical p = Some n" for p n
  proof -
    have "0 \<notin> set (dropWhile (\<lambda>c. c = SLASH) n)" using canonical_strip(2) [OF that] set_dropWhileD by fast
    then show ?thesis using canonical_strip(1) [OF that] by (simp add: normalize_canonical)
  qed
  have "map (\<lambda>x. (normal x, fst (snd x))) (numbered epoch es) =
    map (\<lambda>(n, d). (boot_file_normalize (Some n), d)) (map (\<lambda>x. (fst x, fst (snd x))) (numbered epoch es))"
    by (simp add: normal_def)
  also have "\<dots> = map (\<lambda>(n, d). (Some n, d)) es"
    unfolding numbered_map using assms e by (auto simp: canonical_names_def)
  finally show ?thesis .
qed

lemma normal_numbered_ok:
  assumes "canonical_names es" "distinct (map fst es)" "SLASH # cpio_trailer \<notin> fst ` set es"
  shows "\<forall>x\<in>set (numbered epoch es). normal x \<noteq> None" "distinct (map normal (numbered epoch es))" "names_ok (numbered epoch es)"
proof -
  have m: "map normal (numbered epoch es) = map Some (map fst es)"
    using arg_cong [OF normal_numbered [OF assms(1)], of "map fst"] by (simp add: comp_def case_prod_unfold)
  then have "normal ` set (numbered epoch es) = Some ` set (map fst es)" by (metis list.set_map)
  then show "\<forall>x\<in>set (numbered epoch es). normal x \<noteq> None" by force
  show "distinct (map normal (numbered epoch es))" unfolding m using assms(2) by (simp add: distinct_map del: map_map)
  have "fst ` set (numbered epoch es) = (\<lambda>x. dropWhile (\<lambda>c. c = SLASH) (fst x)) ` set es"
    using arg_cong [OF numbered_map [of epoch es], of "\<lambda>xs. fst ` set xs"] by (simp add: image_image case_prod_unfold)
  moreover have "0 \<notin> set n \<and> n \<noteq> cpio_trailer" if "n \<in> (\<lambda>x. dropWhile (\<lambda>c. c = SLASH) (fst x)) ` set es" for n
  proof -
    from that obtain x where x: "x \<in> set es" "n = dropWhile (\<lambda>c. c = SLASH) (fst x)" by blast
    then obtain p where p: "canonical p = Some (fst x)" using assms(1) unfolding canonical_names_def by blast
    have "0 \<notin> set n" using canonical_strip(2) [OF p] set_dropWhileD [of 0 _ "fst x"] x(2) by blast
    moreover have "fst x = SLASH # n" using canonical_strip(3) [OF p] x(2) by simp
    ultimately show ?thesis using assms(3) x(1) image_eqI [of "fst x" fst x "set es"] by auto
  qed
  ultimately show "names_ok (numbered epoch es)" unfolding names_ok_def by blast
qed

text \<open>The entries behind an archive that was built.\<close>

lemma build_Some:
  assumes "build validator machine epoch config comps = Some a" "\<forall>c\<in>set comps. canonical (fst c) \<noteq> Some (SLASH # cpio_trailer)"
  defines "entries \<equiv> (conf_path, config) # map (\<lambda>(n, d). (the (canonical n), d)) comps"
  shows "write_archive (numbered epoch (sort_key fst entries)) epoch (length entries + 1) = Some a"
    "canonical_names (sort_key fst entries)" "distinct (map fst (sort_key fst entries))"
    "SLASH # cpio_trailer \<notin> fst ` set (sort_key fst entries)"
    "map_of (sort_key fst entries) = map_of entries"
proof -
  obtain out where o: "add_components machine comps [(conf_path, config)] = Some out"
    and w: "write_archive (numbered epoch (sort_key fst out)) epoch (length out + 1) = Some a"
    using assms(1) by (auto simp: build_def split: option.splits if_splits)
  have c: "out = entries" "\<forall>c\<in>set comps. canonical (fst c) \<noteq> None" "distinct (map fst entries)"
    using add_components_Some [OF o] unfolding entries_def by (simp, simp, metis append_Cons append_Nil distinct_singleton list.simps(9,8))
  show "write_archive (numbered epoch (sort_key fst entries)) epoch (length entries + 1) = Some a" using w c(1) by simp
  have cn: "\<exists>p. canonical p = Some (fst x) \<and> (p = conf_path \<or> p \<in> fst ` set comps)" if x: "x \<in> set entries" for x
  proof (cases "x = (conf_path, config)")
    case True
    then show ?thesis using conf_path_canonical by auto
  next
    case False
    then obtain n d where n: "(n, d) \<in> set comps" "x = (the (canonical n), d)" using x by (auto simp: entries_def)
    then obtain m where "canonical n = Some m" using c(2) by fastforce
    then show ?thesis using n by (intro exI [of _ n]) (auto intro: image_eqI [of _ fst "(n, d)"])
  qed
  then show "canonical_names (sort_key fst entries)" unfolding canonical_names_def set_sort by blast
  have ms: "mset (map fst (sort_key fst entries)) = mset (map fst entries)" by (simp only: mset_map mset_sort)
  show d: "distinct (map fst (sort_key fst entries))" using c(3) mset_eq_imp_distinct_iff [OF ms] by simp
  show "SLASH # cpio_trailer \<notin> fst ` set (sort_key fst entries)"
  proof
    assume "SLASH # cpio_trailer \<in> fst ` set (sort_key fst entries)"
    then obtain x where x: "x \<in> set entries" "fst x = SLASH # cpio_trailer" unfolding set_sort by auto
    then obtain p where "canonical p = Some (SLASH # cpio_trailer)" "p = conf_path \<or> p \<in> fst ` set comps" using cn by metis
    moreover have "conf_path \<noteq> SLASH # cpio_trailer" by (simp add: conf_path_def cpio_trailer_def)
    ultimately show False using assms(2) conf_path_canonical by auto
  qed
  show "map_of (sort_key fst entries) = map_of entries"
    by (rule map_of_eqI) (use c(3) d in \<open>auto simp: map_of_eq_Some_iff\<close>)
qed

section \<open>Properties\<close>

text \<open>
  (C39) The kernel and the build script agree on paths: for every string, the
  normalisation of the kernel fails exactly if the script rejects the path, and otherwise
  gives the same canonical path, which fits into the buffer with its terminator.
\<close>
theorem normalize_equals_canonical:
  assumes "0 \<notin> set p"
  shows "boot_file_normalize (Some p) = canonical p \<and>
    (\<forall>n. boot_file_normalize (Some p) = Some n \<longrightarrow> length n < BOOT_FILE_PATH_MAX \<and> boot_file_normalize (Some n) = Some n)"
proof -
  have "length n < 256 \<and> boot_file_normalize (Some n) = Some n" if "canonical p = Some n" for n
  proof -
    note c = canonical_strip [OF that]
    have "canonical n = canonical (dropWhile (\<lambda>c. c = SLASH) n)"
      using c(2) set_dropWhileD [of 0 _ n] by (auto simp: canonical_eq strip_slash)
    then show ?thesis using that c(1,2) by (auto simp: normalize_canonical canonical_eq split: if_splits)
  qed
  then show ?thesis using assms by (simp add: normalize_canonical)
qed

theorem normalize_equals_canonical_witness:
  "boot_file_normalize (Some [47, 47, 97, 47, 46, 47, 98]) = Some [47, 97, 47, 98]"
proof -
  have "canonical [47, 47, 97, 47, 46, 47, 98] = Some [47, 97, 47, 98]" by (simp add: canonical_def Let_def)
  then show ?thesis using normalize_equals_canonical [of "[47, 47, 97, 47, 46, 47, 98]"] by simp
qed

text \<open>
  (C31) The kernel finds in the initial ramdisk what the build script has put there: an
  archive from the script is accepted, the lookup of a path returns the configuration or
  the component with this canonical path and exactly its bytes, and reports a path that
  was not written as missing and a path that is not valid as invalid.
\<close>
theorem initrd_lookup:
  assumes "build validator machine epoch config comps = Some a"
    "\<forall>c\<in>set comps. canonical (fst c) \<noteq> Some (SLASH # cpio_trailer)"
    "length a \<le> 0x7fffffff" "base \<noteq> 0" "unat base + length a < 18446744073709551616" "0 \<notin> set path"
  shows "\<exists>fset. boot_files_from_cpio (Some label) (Some (base, a)) (of_nat (length a)) = Inr (Some fset) \<and>
    (case canonical path of
       None \<Rightarrow> boot_file_lookup (Some fset) (Some path) = Inr (Inl (- 2))
     | Some n \<Rightarrow>
         (case map_of ((conf_path, config) # map (\<lambda>(n, d). (the (canonical n), d)) comps) n of
            None \<Rightarrow> boot_file_lookup (Some fset) (Some path) = Inr (Inl (- 1))
          | Some data \<Rightarrow> \<exists>f. boot_file_lookup (Some fset) (Some path) = Inr (Inr f) \<and> bf_path f = n \<and> file_bytes base a f = data))"
proof -
  let ?e = "(conf_path, config) # map (\<lambda>(n, d). (the (canonical n), d)) comps"
  let ?es = "numbered epoch (sort_key fst ?e)"
  note b = build_Some [OF assms(1,2)]
  note ok = normal_numbered_ok [OF b(2-4), of epoch]
  have m: "map_of (map (\<lambda>x. (normal x, fst (snd x))) ?es) (Some n) = map_of ?e n" for n
  proof -
    have "map_of (map (\<lambda>(n, d). (Some n, d)) xs) (Some n) = map_of xs n" for xs :: "(u8 list \<times> u8 list) list"
      by (induction xs) auto
    then show ?thesis unfolding normal_numbered [OF b(2)] b(5) [symmetric] .
  qed
  show ?thesis
  proof (intro exI [of _ "archive_set label base a"] conjI)
    show "boot_files_from_cpio (Some label) (Some (base, a)) (of_nat (length a)) = Inr (Some (archive_set label base a))"
      by (rule from_cpio_archive [OF b(1) ok(3) assms(3-5) ok(1)])
    show "case canonical path of
       None \<Rightarrow> boot_file_lookup (Some (archive_set label base a)) (Some path) = Inr (Inl (- 2))
     | Some n \<Rightarrow>
         (case map_of ?e n of
            None \<Rightarrow> boot_file_lookup (Some (archive_set label base a)) (Some path) = Inr (Inl (- 1))
          | Some data \<Rightarrow> \<exists>f. boot_file_lookup (Some (archive_set label base a)) (Some path) = Inr (Inr f) \<and>
              bf_path f = n \<and> file_bytes base a f = data)"
    proof (cases "canonical path")
      case None
      then show ?thesis using assms(6) by (simp add: boot_file_lookup_def normalize_canonical)
    next
      case (Some n)
      then have "boot_file_normalize (Some path) = Some n" using assms(6) by (simp add: normalize_canonical)
      from lookup_archive [OF b(1) ok(3) assms(3,5) ok(1,2) this] show ?thesis unfolding m Some option.case .
    qed
  qed
qed

text \<open>A ramdisk with a configuration of three bytes and no components.\<close>

definition initrd_example :: "u8 list" where
  "initrd_example = the (build (\<lambda>_. True) 62 0 [7, 8, 9] [])"

lemma initrd_example_simps:
  "build (\<lambda>_. True) 62 0 [7, 8, 9] [] = Some initrd_example" "length initrd_example = 256"
proof -
  have p: "dropWhile (\<lambda>c. c = SLASH) conf_path = tl conf_path" "length conf_path = 15" by (simp_all add: conf_path_def)
  obtain f where f: "write_entry [] (tl conf_path) [7, 8, 9] 0 1 = Some f" "length f = 132"
    using write_entry_defined [of 0 1 "[7, 8, 9]" "tl conf_path" "[]"] by (auto simp: up4_def p(2))
  then obtain a where a: "write_entry f cpio_trailer [] 0 2 = Some a" "length a = 256"
    using write_entry_defined [of 0 2 "[]" cpio_trailer f] by (auto simp: cpio_trailer_def up4_def)
  show "build (\<lambda>_. True) 62 0 [7, 8, 9] [] = Some initrd_example" "length initrd_example = 256"
    using f(1) a(1) [unfolded numeral_2_eq_2] a(2) by (simp_all add: initrd_example_def build_def write_archive_def write_trailer_def numbered_def p(1))
qed

theorem initrd_lookup_witness:
  "\<exists>fset f. boot_files_from_cpio (Some [98]) (Some (4096, initrd_example)) 256 = Inr (Some fset) \<and>
     boot_file_lookup (Some fset) (Some conf_path) = Inr (Inr f) \<and> file_bytes 4096 initrd_example f = [7, 8, 9]"
proof -
  have "0 \<notin> set conf_path" by (simp add: conf_path_def)
  then show ?thesis
    using initrd_lookup [OF initrd_example_simps(1), of 4096 conf_path "[98]"] initrd_example_simps(2)
    by (auto simp: conf_path_canonical)
qed

end
