(* ===== verification/Task_Conf.thy ===== *)
theory Task_Conf
  imports Printf Boot_Files Kheap_Contract
begin

text \<open>
  The start configuration (\<open>kernel/task_parser.c\<close>, \<open>kernel/task_conf.c\<close>): a text with one task
  per line, comments and directives.  A cursor \<open>p\<close> with its limit \<open>end\<close> is the rest of the
  text; a parser that returns 0 or -1 gives an option with the value and the rest.

  Records are blocks of the kernel heap.  A list of records is the list of its nodes in
  order, each with the address of its block.  Arrays of characters hold the characters in
  front of the terminator.  The pointers \<open>kv_keys\<close> and \<open>kv_values\<close> into \<open>kv_buf\<close> are the
  strings they point to; \<open>module\<close> and \<open>name\<close>, which point into \<open>info\<close>, likewise, and
  \<open>None\<close> is a null pointer.
\<close>

section \<open>Tokens\<close>

definition TAB :: char where "TAB = CHR 0x09"
definition NL :: char where "NL = CHR 0x0A"
definition CR :: char where "CR = CHR 0x0D"
definition NUL :: char where "NUL = CHR 0x00"

definition is_line_end :: "char \<Rightarrow> bool" where
  "is_line_end c \<longleftrightarrow> c = NL \<or> c = CR \<or> c = NUL"

definition is_space :: "char \<Rightarrow> bool" where
  "is_space c \<longleftrightarrow> c = CHR '' '' \<or> c = TAB"

fun skip_spaces :: "string \<Rightarrow> string" where
  "skip_spaces [] = []"
| "skip_spaces (c # cs) = (if is_space c then skip_spaces cs else c # cs)"

fun skip_line :: "string \<Rightarrow> string" where
  "skip_line [] = []"
| "skip_line (c # cs) = (if c \<noteq> NL then skip_line cs else cs)"

fun dec_loop :: "string \<Rightarrow> int \<Rightarrow> (int \<times> string) option" where
  "dec_loop [] val = Some (val, [])"
| "dec_loop (c # cs) val =
     (if is_digit c then
        let digit = of_char c - 48 in
        if val > (0x7fffffff - digit) div 10 then None else dec_loop cs (val * 10 + digit)
      else Some (val, c # cs))"

definition parse_dec :: "string \<Rightarrow> (int \<times> string) option" where
  "parse_dec p =
     (let start = skip_spaces p in
      if start = [] then None
      else case dec_loop start 0 of
          None \<Rightarrow> None
        | Some (val, rest) \<Rightarrow> if rest = start then None else Some (val, rest))"

definition hex_value :: "char \<Rightarrow> u32 option" where
  "hex_value c =
     (if is_digit c then Some (of_char c - 48)
      else if 97 \<le> (of_char c :: int) \<and> (of_char c :: int) \<le> 102 then Some (of_char c - 97 + 10)
      else if 65 \<le> (of_char c :: int) \<and> (of_char c :: int) \<le> 70 then Some (of_char c - 65 + 10)
      else None)"

fun hex_loop :: "string \<Rightarrow> u64 \<Rightarrow> (u64 \<times> string) option" where
  "hex_loop [] val = Some (val, [])"
| "hex_loop (c # cs) val =
     (case hex_value c of
        None \<Rightarrow> Some (val, c # cs)
      | Some digit \<Rightarrow>
          if val > (- 1 - ucast digit) div 16 then None else hex_loop cs (val * 16 + ucast digit))"

definition parse_hex :: "string \<Rightarrow> (u64 \<times> string) option" where
  "parse_hex p =
     (let p1 = skip_spaces p in
      if p1 = [] then None
      else let start = (if length p1 \<ge> 2 \<and> p1 ! 0 = CHR ''0'' \<and> (p1 ! 1 = CHR ''x'' \<or> p1 ! 1 = CHR ''X'')
                        then drop 2 p1 else p1)
        in case hex_loop start 0 of
             None \<Rightarrow> None
           | Some (val, rest) \<Rightarrow> if rest = start then None else Some (val, rest))"

text \<open>The copy of a token, with the number of places that are left in the buffer.\<close>

fun token_loop :: "nat \<Rightarrow> string \<Rightarrow> string \<Rightarrow> string \<times> string" where
  "token_loop room dest [] = (dest, [])"
| "token_loop room dest (c # cs) =
     (if \<not> is_space c \<and> \<not> is_line_end c \<and> room \<noteq> 0 then token_loop (room - 1) (dest @ [c]) cs
      else (dest, c # cs))"

definition parse_string :: "nat \<Rightarrow> string \<Rightarrow> (string \<times> string) option" where
  "parse_string max_len p =
     (let start = skip_spaces p in
      if start = [] then None
      else let (dest, rest) = token_loop (max_len - 1) [] start in
        if dest = [] \<or> rest \<noteq> [] \<and> \<not> is_space (hd rest) \<and> \<not> is_line_end (hd rest) then None
        else Some (dest, rest))"

text \<open>The split of a token at its first equals sign.\<close>

definition split_eq :: "string \<Rightarrow> (string \<times> string) option" where
  "split_eq token =
     (if CHR ''='' \<in> set token
      then Some (takeWhile (\<lambda>c. c \<noteq> CHR ''='') token, tl (dropWhile (\<lambda>c. c \<noteq> CHR ''='') token))
      else None)"

section \<open>Arguments\<close>

text \<open>
  The characters of a token: up to the closing quote, to the end of the line, or to the next blank.
\<close>

definition in_token :: "bool \<Rightarrow> char \<Rightarrow> bool" where
  "in_token quote c \<longleftrightarrow> \<not> is_line_end c \<and> (if quote then c \<noteq> CHR ''\"'' else \<not> is_space c)"

text \<open>One token: its characters and the text behind it.\<close>

definition next_token :: "string \<Rightarrow> string \<times> string" where
  "next_token p =
     (let quote = (hd p = CHR ''\"'');
          start = (if quote then tl p else p);
          token = takeWhile (in_token quote) start;
          rest = dropWhile (in_token quote) start
      in (token, if quote \<and> rest \<noteq> [] \<and> hd rest = CHR ''\"'' then tl rest else rest))"

record task_args =
  ta_pos :: string
  ta_kv :: "(string \<times> string) list"
  ta_kv_used :: nat

definition add_token :: "nat \<Rightarrow> nat \<Rightarrow> nat \<Rightarrow> string \<Rightarrow> task_args \<Rightarrow> task_args" where
  "add_token pos_max kv_max kv_cap token a =
     (case split_eq token of
        Some (key, val) \<Rightarrow>
          if length (ta_kv a) < kv_cap \<and> ta_kv_used a + length key + 1 + length val + 1 \<le> kv_max - 1
          then a\<lparr>ta_kv := ta_kv a @ [(key, val)], ta_kv_used := ta_kv_used a + length key + 1 + length val + 1\<rparr>
          else a
      | None \<Rightarrow>
          if length (ta_pos a) + length token + 1 \<le> pos_max - 1
          then a\<lparr>ta_pos := ta_pos a @ (if ta_pos a \<noteq> [] then '' '' else []) @ token\<rparr>
          else a)"

lemma skip_spaces_length: "length (skip_spaces p) \<le> length p"
  by (induction p) auto

lemma skip_spaces_hd: "skip_spaces p \<noteq> [] \<Longrightarrow> \<not> is_space (hd (skip_spaces p))"
  by (induction p) auto

lemma next_token_length:
  assumes "p \<noteq> []" "\<not> is_space (hd p)" "\<not> is_line_end (hd p)"
  shows "length (snd (next_token p)) < length p"
proof -
  obtain c cs where p: "p = c # cs" using assms(1) by (cases p) auto
  have d: "length (dropWhile P cs) \<le> length cs" for P by (rule length_dropWhile_le)
  then have "length (tl (dropWhile P cs)) \<le> length cs" for P by (simp add: le_diff_conv le_SucI)
  then show ?thesis using assms p d by (auto simp: next_token_def Let_def in_token_def le_imp_less_Suc)
qed

function args_loop :: "nat \<Rightarrow> nat \<Rightarrow> nat \<Rightarrow> string \<Rightarrow> task_args \<Rightarrow> string \<times> task_args" where
  "args_loop pos_max kv_max kv_cap p a =
     (if p = [] \<or> is_line_end (hd p) then (p, a)
      else let p1 = skip_spaces p in
        if p1 = [] \<or> is_line_end (hd p1) then (p1, a)
        else let (token, rest) = next_token p1
          in args_loop pos_max kv_max kv_cap rest (add_token pos_max kv_max kv_cap token a))"
  by pat_completeness auto

termination
proof (relation "measure (\<lambda>(_, _, _, p, _). length p)", simp)
  fix pos_max kv_max kv_cap :: nat and p p1 token rest :: string and x and a :: task_args
  assume p: "p1 = skip_spaces p" "\<not> (p1 = [] \<or> is_line_end (hd p1))" "x = next_token p1" "(token, rest) = x"
  then have "length rest < length p1" using next_token_length [of p1] skip_spaces_hd [of p] by (metis snd_conv)
  then show "((pos_max, kv_max, kv_cap, rest, add_token pos_max kv_max kv_cap token a), pos_max, kv_max, kv_cap, p, a)
      \<in> measure (\<lambda>(_, _, _, p, _). length p)"
    using skip_spaces_length [of p] p(1) by simp
qed

declare args_loop.simps [simp del]

definition parse_args :: "nat \<Rightarrow> nat \<Rightarrow> nat \<Rightarrow> string \<Rightarrow> string \<times> task_args" where
  "parse_args pos_max kv_max kv_cap p = args_loop pos_max kv_max kv_cap p \<lparr>ta_pos = [], ta_kv = [], ta_kv_used = 0\<rparr>"

section \<open>Configurations\<close>

record task =
  t_cpu_id :: int
  t_module :: string
  t_name :: "string option"
  t_type :: int
  t_magic :: u64
  t_args :: task_args

record selftest_directive =
  d_name :: string
  d_kvs :: "(string \<times> string) list"
  d_module_id :: int

datatype task_conf_purpose = TASK_CONF_BASE | TASK_CONF_TEST | TASK_CONF_RECOVERY | TASK_CONF_COMPAT

text \<open>\<open>tc_heap\<close> is the kernel heap the records live in.\<close>

record task_conf =
  tc_tasks :: "(u64 \<times> task) list"
  tc_directives :: "(u64 \<times> selftest_directive) list"
  tc_files :: "boot_file_set option"
  tc_purpose :: task_conf_purpose
  tc_module_missing_panic :: bool
  tc_initialized :: bool
  tc_parsed :: bool
  tc_tests_started :: bool
  tc_started_cpus :: u64
  tc_config_path :: "u8 list"
  tc_heap :: kheap

text \<open>The sizes of the two structures.\<close>

abbreviation (input) TASK_SIZE :: u64 where "TASK_SIZE \<equiv> 920"

abbreviation (input) DIRECTIVE_SIZE :: u64 where "DIRECTIVE_SIZE \<equiv> 568"

abbreviation (input) SELFTEST_MAX_KV :: nat where "SELFTEST_MAX_KV \<equiv> 8"

definition task_conf_add_directive_ctx :: "u64 \<Rightarrow> selftest_directive \<Rightarrow> task_conf \<Rightarrow> (int \<times> task_conf) res" where
  "task_conf_add_directive_ctx tid d conf =
     (if \<not> tc_initialized conf \<or> tc_purpose conf \<noteq> TASK_CONF_TEST \<and> tc_purpose conf \<noteq> TASK_CONF_COMPAT then Inr (- 1, conf)
      else bind_res (kmalloc tid DIRECTIVE_SIZE (tc_heap conf)) (\<lambda>(p, h).
        if p = 0 then Inr (- 1, conf\<lparr>tc_heap := h\<rparr>)
        else Inr (0, conf\<lparr>tc_heap := h, tc_directives := tc_directives conf @ [(p, d)]\<rparr>)))"

lemma token_loop_length: "length (fst (token_loop room dest p)) + length (snd (token_loop room dest p)) = length dest + length p"
  by (induction room dest p rule: token_loop.induct) auto

lemma parse_string_length:
  assumes "parse_string max_len p = Some (s, rest)"
  shows "length rest < length p"
proof -
  let ?l = "token_loop (max_len - 1) [] (skip_spaces p)"
  have "fst ?l \<noteq> []" "rest = snd ?l" using assms by (auto simp: parse_string_def Let_def split: prod.splits if_splits)
  then show ?thesis using token_loop_length [of "max_len - 1" "[]" "skip_spaces p"] skip_spaces_length [of p]
    by (cases "fst ?l") auto
qed

text \<open>The key and value pairs of a directive; \<open>None\<close> is the error.\<close>

function kv_loop :: "string \<Rightarrow> (string \<times> string) list \<Rightarrow> ((string \<times> string) list \<times> string) option" where
  "kv_loop p kvs =
     (let p1 = skip_spaces p in
      if p1 = [] \<or> is_line_end (hd p1) \<or> hd p1 = CHR ''#'' then Some (kvs, p1)
      else case parse_string 64 p1 of
          None \<Rightarrow> None
        | Some (token, rest) \<Rightarrow>
            (case split_eq token of
               None \<Rightarrow> None
             | Some (key, val) \<Rightarrow>
                 if length kvs \<ge> SELFTEST_MAX_KV then None
                 else kv_loop rest (kvs @ [(take 31 key, take 31 val)])))"
  by pat_completeness auto

termination
  by (relation "measure (\<lambda>(p, _). length p)")
    (auto dest!: parse_string_length intro: order.strict_trans2 [OF _ skip_spaces_length])

declare kv_loop.simps [simp del]

text \<open>
  The directives return the rest of the text, \<open>None\<close> for an error, and the configuration.
\<close>

definition parse_test_directive :: "u64 \<Rightarrow> string \<Rightarrow> task_conf \<Rightarrow> (string option \<times> task_conf) res" where
  "parse_test_directive tid p conf =
     (case parse_string 32 p of
        None \<Rightarrow> Inr (None, conf)
      | Some (name, p1) \<Rightarrow>
          (case kv_loop p1 [] of
             None \<Rightarrow> Inr (None, conf)
           | Some (kvs, p2) \<Rightarrow>
               bind_res (task_conf_add_directive_ctx tid \<lparr>d_name = name, d_kvs = kvs, d_module_id = - 1\<rparr> conf)
                 (\<lambda>(ret, conf1). Inr (if ret \<noteq> 0 then None else Some p2, conf1))))"

definition parse_directive :: "u64 \<Rightarrow> string \<Rightarrow> task_conf \<Rightarrow> (string option \<times> task_conf) res" where
  "parse_directive tid p conf =
     (case parse_string 32 p of
        None \<Rightarrow> Inr (None, conf)
      | Some (name, p1) \<Rightarrow>
          if name = ''@version'' then
            (case parse_string 32 p1 of
               None \<Rightarrow> Inr (None, conf)
             | Some (val, p2) \<Rightarrow>
                 if val \<noteq> ''1'' then Inr (None, conf)
                 else let p3 = skip_spaces p2 in
                   if p3 \<noteq> [] \<and> \<not> is_line_end (hd p3) \<and> hd p3 \<noteq> CHR ''#'' then Inr (None, conf)
                   else Inr (Some p3, conf))
          else if name = ''@test'' then parse_test_directive tid p1 conf
          else if name = ''@module_missing'' then
            (case parse_string 16 p1 of
               None \<Rightarrow> Inr (None, conf)
             | Some (val, p2) \<Rightarrow>
                 if val = ''panic'' then Inr (Some p2, conf\<lparr>tc_module_missing_panic := True\<rparr>)
                 else if val = ''skip'' then Inr (Some p2, conf\<lparr>tc_module_missing_panic := False\<rparr>)
                 else Inr (None, conf))
          else Inr (None, conf))"

definition separate_name :: "string \<Rightarrow> string \<times> string option" where
  "separate_name info =
     (let module = takeWhile (\<lambda>c. c \<noteq> CHR '':'') info; rest = dropWhile (\<lambda>c. c \<noteq> CHR '':'') info
      in (module, if rest \<noteq> [] then Some (tl rest) else None))"

text \<open>The fields of a task line.\<close>

definition parse_task :: "string \<Rightarrow> (task \<times> string) option" where
  "parse_task p =
     (case parse_dec p of
        None \<Rightarrow> None
      | Some (cpu_id, p1) \<Rightarrow>
          (case parse_string 64 p1 of
             None \<Rightarrow> None
           | Some (info, p2) \<Rightarrow>
               let (module, name) = separate_name info in
               (case parse_dec p2 of
                  None \<Rightarrow> None
                | Some (type, p3) \<Rightarrow>
                    (case parse_hex p3 of
                       None \<Rightarrow> None
                     | Some (magic, p4) \<Rightarrow>
                         let (p5, args) = parse_args 256 256 16 p4
                         in Some (\<lparr>t_cpu_id = cpu_id, t_module = module, t_name = name, t_type = type,
                                   t_magic = magic, t_args = args\<rparr>, p5)))))"

lemma skip_line_length: "length (skip_line p) \<le> length p"
  by (induction p) auto

lemma dec_loop_length: "dec_loop p val = Some (v, rest) \<Longrightarrow> length rest \<le> length p"
  by (induction p val rule: dec_loop.induct) (auto simp: Let_def split: if_splits)

lemma hex_loop_length: "hex_loop p val = Some (v, rest) \<Longrightarrow> length rest \<le> length p"
  by (induction p val rule: hex_loop.induct) (auto split: if_splits option.splits)

lemma dec_loop_suffix: "dec_loop p val = Some (v, rest) \<Longrightarrow> \<exists>ds. p = ds @ rest"
  by (induction p val rule: dec_loop.induct) (auto simp: Let_def split: if_splits)

lemma parse_dec_length:
  assumes "parse_dec p = Some (v, rest)"
  shows "length rest < length p"
proof -
  have d: "dec_loop (skip_spaces p) 0 = Some (v, rest)" "rest \<noteq> skip_spaces p"
    using assms by (auto simp: parse_dec_def Let_def split: if_splits option.splits)
  then obtain ds where "skip_spaces p = ds @ rest" "ds \<noteq> []" using dec_loop_suffix by fastforce
  then show ?thesis using skip_spaces_length [of p] by (cases ds) auto
qed

lemma parse_hex_length:
  assumes "parse_hex p = Some (v, rest)"
  shows "length rest \<le> length p"
proof -
  have "length rest \<le> length (skip_spaces p)"
    using assms by (auto simp: parse_hex_def Let_def dest!: hex_loop_length split: if_splits option.splits)
  then show ?thesis using skip_spaces_length [of p] by simp
qed

lemma args_loop_length: "length (fst (args_loop pm km kc p a)) \<le> length p"
proof (induction pm km kc p a rule: args_loop.induct)
  case (1 pm km kc p a)
  let ?p1 = "skip_spaces p"
  obtain token rest where t: "next_token ?p1 = (token, rest)" by fastforce
  show ?case
  proof (cases "p = [] \<or> is_line_end (hd p) \<or> ?p1 = [] \<or> is_line_end (hd ?p1)")
    case True
    then show ?thesis using skip_spaces_length [of p] by (subst args_loop.simps) (auto simp: Let_def)
  next
    case False
    then have "length rest < length ?p1" using next_token_length [of ?p1] skip_spaces_hd [of p] t by simp
    moreover have "length (fst (args_loop pm km kc rest (add_token pm km kc token a))) \<le> length rest"
      using "1.IH" [OF _ refl _ t [symmetric] refl] False by simp
    ultimately show ?thesis using False t skip_spaces_length [of p] by (subst args_loop.simps) (simp add: Let_def)
  qed
qed

lemma parse_task_length:
  assumes "parse_task p = Some (t, rest)"
  shows "length rest < length p"
proof -
  obtain cpu p1 info p2 type p3 magic p4 where
    p: "parse_dec p = Some (cpu, p1)" "parse_string 64 p1 = Some (info, p2)" "parse_dec p2 = Some (type, p3)"
       "parse_hex p3 = Some (magic, p4)" "rest = fst (parse_args 256 256 16 p4)"
    using assms by (auto simp: parse_task_def Let_def split: option.splits prod.splits)
  have "length rest \<le> length p4" using p(5) args_loop_length by (simp add: parse_args_def)
  then show ?thesis using parse_dec_length [OF p(1)] parse_string_length [OF p(2)] parse_dec_length [OF p(3)]
    parse_hex_length [OF p(4)] by linarith
qed

lemma kv_loop_length: "kv_loop p kvs = Some (kvs', rest) \<Longrightarrow> length rest \<le> length p"
proof (induction p kvs rule: kv_loop.induct)
  case (1 p kvs)
  let ?p1 = "skip_spaces p"
  show ?case
  proof (cases "?p1 = [] \<or> is_line_end (hd ?p1) \<or> hd ?p1 = CHR ''#''")
    case True
    then show ?thesis using "1.prems" skip_spaces_length [of p] by (subst (asm) kv_loop.simps) (auto simp: Let_def)
  next
    case False
    then obtain token q key val where q: "parse_string 64 ?p1 = Some (token, q)" "split_eq token = Some (key, val)"
      "\<not> length kvs \<ge> SELFTEST_MAX_KV" "kv_loop q (kvs @ [(take 31 key, take 31 val)]) = Some (kvs', rest)"
      using "1.prems" by (subst (asm) kv_loop.simps) (auto simp: Let_def split: option.splits if_splits)
    then show ?thesis using "1.IH" [OF refl False q(1) refl q(2) refl q(3,4)] parse_string_length [OF q(1)] skip_spaces_length [of p] by simp
  qed
qed

lemma parse_directive_length:
  assumes "parse_directive tid p conf = Inr (Some rest, conf')"
  shows "length rest < length p"
proof -
  obtain name p1 where n: "parse_string 32 p = Some (name, p1)"
    using assms by (auto simp: parse_directive_def split: option.splits)
  have t: "length rest < length p1" if "parse_test_directive tid p1 conf = Inr (Some rest, conf')"
    using that by (auto simp: parse_test_directive_def elim!: bind_res_InrE dest!: parse_string_length kv_loop_length
      split: option.splits if_splits)
  have "length rest < length p1"
  proof (cases "name = ''@version''")
    case True
    then obtain v p2 where "parse_string 32 p1 = Some (v, p2)" "rest = skip_spaces p2"
      using assms n by (simp add: parse_directive_def Let_def split: option.splits if_splits prod.splits)
    then show ?thesis using parse_string_length [of 32 p1 v p2] skip_spaces_length [of p2] by simp
  next
    case v: False
    show ?thesis
    proof (cases "name = ''@test''")
      case True
      then show ?thesis using assms n v t by (simp add: parse_directive_def)
    next
      case False
      then obtain v where "parse_string 16 p1 = Some (v, rest)"
        using assms n v by (simp add: parse_directive_def split: option.splits if_splits prod.splits)
      then show ?thesis by (rule parse_string_length)
    qed
  qed
  then show ?thesis using parse_string_length [OF n] by simp
qed

lemma skip_line_shorter: "p \<noteq> [] \<Longrightarrow> length (skip_line p) < length p"
  using skip_line_length [of "tl p"] by (cases p) (auto simp: le_imp_less_Suc)

function conf_loop :: "u64 \<Rightarrow> string \<Rightarrow> task_conf \<Rightarrow> (int \<times> task_conf) res" where
  "conf_loop tid p conf =
     (let p1 = skip_spaces p in
      if p1 = [] then Inr (0, conf)
      else if is_line_end (hd p1) then conf_loop tid (tl p1) conf
      else if hd p1 = CHR ''#'' then conf_loop tid (skip_line p1) conf
      else if hd p1 = CHR ''@'' then
        bind_res (parse_directive tid p1 conf) (\<lambda>(r, conf1).
          case r of None \<Rightarrow> Inr (- 1, conf1) | Some rest \<Rightarrow> conf_loop tid (skip_line rest) conf1)
      else
        bind_res (kmalloc tid TASK_SIZE (tc_heap conf)) (\<lambda>(a, h).
          if a = 0 then Inr (- 1, conf\<lparr>tc_heap := h\<rparr>)
          else case parse_task p1 of
              None \<Rightarrow> bind_res (kfree a h) (\<lambda>h1. Inr (- 1, conf\<lparr>tc_heap := h1\<rparr>))
            | Some (t, rest) \<Rightarrow>
                conf_loop tid (skip_line rest) (conf\<lparr>tc_heap := h, tc_tasks := tc_tasks conf @ [(a, t)]\<rparr>)))"
  by pat_completeness auto

termination
proof (relation "measure (\<lambda>(_, p, _). length p)", goal_cases)
  case (2 tid p conf p1)
  then show ?case using skip_spaces_length [of p] by (cases "skip_spaces p") auto
next
  case (3 tid p conf p1)
  then show ?case using skip_spaces_length [of p] skip_line_shorter [of p1] by simp
next
  case (4 tid p conf p1 x r conf1 rest)
  then show ?case using skip_spaces_length [of p] skip_line_length [of rest] parse_directive_length [of tid p1 conf rest conf1] by simp
next
  case (5 tid p conf p1 x a h y t rest)
  then show ?case using skip_spaces_length [of p] skip_line_length [of rest] parse_task_length [of p1 t rest] by simp
qed simp

declare conf_loop.simps [simp del]

section \<open>Operations on a configuration\<close>

text \<open>The text of a file in memory.\<close>

definition file_text :: "(u64 \<Rightarrow> u8) \<Rightarrow> boot_file \<Rightarrow> string" where
  "file_text mem f = map (\<lambda>i. char_of (unat (mem (bf_data f + of_nat i)))) [0..<unat (bf_size f)]"

definition task_conf_parse_v1_ctx :: "u64 \<Rightarrow> (u64 \<Rightarrow> u8) \<Rightarrow> boot_file \<Rightarrow> task_conf \<Rightarrow> (int \<times> task_conf) res" where
  "task_conf_parse_v1_ctx tid mem f conf = conf_loop tid (file_text mem f) conf"

definition clear_records :: "task_conf \<Rightarrow> task_conf res" where
  "clear_records conf =
     bind_res (fold_res (\<lambda>v h. kfree (fst v) h) (tc_tasks conf) (tc_heap conf)) (\<lambda>h1.
     bind_res (fold_res (\<lambda>v h. kfree (fst v) h) (tc_directives conf) h1) (\<lambda>h2.
       Inr (conf\<lparr>tc_tasks := [], tc_directives := [], tc_heap := h2\<rparr>)))"

definition zero_conf :: "kheap \<Rightarrow> task_conf" where
  "zero_conf h = \<lparr>tc_tasks = [], tc_directives = [], tc_files = None, tc_purpose = TASK_CONF_BASE,
     tc_module_missing_panic = False, tc_initialized = False, tc_parsed = False, tc_tests_started = False,
     tc_started_cpus = 0, tc_config_path = [], tc_heap = h\<rparr>"

definition task_conf_init_ctx :: "boot_file_set option \<Rightarrow> task_conf_purpose \<Rightarrow> task_conf \<Rightarrow> int \<times> task_conf" where
  "task_conf_init_ctx files purpose conf =
     (if files = None \<or> tc_initialized conf then (- 1, conf)
      else (0, (zero_conf (tc_heap conf))\<lparr>tc_files := files, tc_purpose := purpose, tc_initialized := True\<rparr>))"

definition task_conf_claim_cpu_ctx :: "u32 \<Rightarrow> task_conf \<Rightarrow> int \<times> task_conf" where
  "task_conf_claim_cpu_ctx cpu_id conf =
     (if \<not> tc_initialized conf \<or> \<not> tc_parsed conf \<or> cpu_id \<ge> 64 \<or>
         tc_started_cpus conf AND push_bit (unat cpu_id) 1 \<noteq> 0 then (- 1, conf)
      else (0, conf\<lparr>tc_started_cpus := tc_started_cpus conf OR push_bit (unat cpu_id) 1\<rparr>))"

definition task_conf_destroy_ctx :: "task_conf \<Rightarrow> (int \<times> task_conf) res" where
  "task_conf_destroy_ctx conf =
     (if \<not> tc_initialized conf \<or> tc_started_cpus conf \<noteq> 0 \<or> tc_tests_started conf then Inr (- 1, conf)
      else bind_res (clear_records conf) (\<lambda>conf1. Inr (0, zero_conf (tc_heap conf1))))"

definition task_conf_parse_ctx :: "u64 \<Rightarrow> (u64 \<Rightarrow> u8) \<Rightarrow> boot_file option \<Rightarrow> task_conf \<Rightarrow> (int \<times> task_conf) res" where
  "task_conf_parse_ctx tid mem file conf =
     (case file of
        None \<Rightarrow> Inr (- 1, conf)
      | Some f \<Rightarrow>
          if \<not> tc_initialized conf \<or> tc_parsed conf \<or> Some (bf_source f) \<noteq> tc_files conf \<or> bf_data f = 0 \<or>
             bf_size f = 0 \<or> bf_size f > 0x7fffffff \<or> bf_data f > - 1 - bf_size f then Inr (- 1, conf)
          else bind_res (task_conf_parse_v1_ctx tid mem f conf) (\<lambda>(ret, conf1).
            if ret \<noteq> 0 then
              bind_res (clear_records conf1) (\<lambda>conf2. Inr (- 1, conf2\<lparr>tc_module_missing_panic := False\<rparr>))
            else Inr (0, conf1\<lparr>tc_config_path := bf_path f, tc_parsed := True\<rparr>)))"

definition task_conf_load_ctx :: "u64 \<Rightarrow> (u64 \<Rightarrow> u8) \<Rightarrow> u8 list option \<Rightarrow> task_conf \<Rightarrow> (int \<times> task_conf) res" where
  "task_conf_load_ctx tid mem path conf =
     (if \<not> tc_initialized conf then Inr (- 1, conf)
      else bind_res (boot_file_lookup (tc_files conf) path) (\<lambda>r.
        case r of Inl _ \<Rightarrow> Inr (- 1, conf) | Inr f \<Rightarrow> task_conf_parse_ctx tid mem (Some f) conf))"

definition task_conf_has_ap_tasks_ctx :: "task_conf \<Rightarrow> bool" where
  "task_conf_has_ap_tasks_ctx conf \<longleftrightarrow>
     tc_initialized conf \<and> tc_parsed conf \<and> list_ex (\<lambda>(_, t). t_cpu_id t > 0) (tc_tasks conf)"

definition task_conf_has_directives_ctx :: "task_conf \<Rightarrow> bool" where
  "task_conf_has_directives_ctx conf \<longleftrightarrow> tc_initialized conf \<and> tc_parsed conf \<and> tc_directives conf \<noteq> []"

text \<open>The two functions that work on the default configuration, an argument here.\<close>

definition task_conf_init :: "boot_module list option \<Rightarrow> task_conf \<Rightarrow> task_conf" where
  "task_conf_init modules conf =
     (if tc_initialized conf then conf
      else case boot_files_from_modules (Some (map (\<lambda>c. of_char c) ''compat-boot-files'')) modules of
          None \<Rightarrow> conf
        | Some files \<Rightarrow> snd (task_conf_init_ctx (Some files) TASK_CONF_COMPAT conf))"

definition task_conf_parse_module :: "u64 \<Rightarrow> (u64 \<Rightarrow> u8) \<Rightarrow> boot_module option \<Rightarrow> task_conf \<Rightarrow> (int \<times> task_conf) res" where
  "task_conf_parse_module tid mem module conf =
     (case module of
        None \<Rightarrow> Inr (- 1, conf)
      | Some m \<Rightarrow>
          if \<not> tc_initialized conf then Inr (- 1, conf)
          else bind_res (boot_file_lookup (tc_files conf) (bm_path m)) (\<lambda>r.
            case r of Inl _ \<Rightarrow> Inr (- 1, conf) | Inr f \<Rightarrow> task_conf_parse_ctx tid mem (Some f) conf))"

section \<open>Records and the heap\<close>

text \<open>
  A list of nodes in the heap: distinct live blocks.  \<open>rest_blocks\<close> are the other blocks.
\<close>

definition nodes_live :: "kheap \<Rightarrow> u64 list \<Rightarrow> bool" where
  "nodes_live h ns \<longleftrightarrow> heap_ok h \<and> distinct ns \<and> set ns \<subseteq> dom (heap_blocks h) - {0}"

definition rest_blocks :: "kheap \<Rightarrow> u64 list \<Rightarrow> u64 \<Rightarrow> nat option" where
  "rest_blocks h ns = heap_blocks h |` (- set ns)"

lemma nodes_alloc:
  assumes "nodes_live h ns"
  shows "\<exists>p h'. kmalloc tid n h = Inr (p, h') \<and>
    (if p = 0 then nodes_live h' ns \<and> rest_blocks h' ns = rest_blocks h ns
     else nodes_live h' (p # ns) \<and> rest_blocks h' (p # ns) = rest_blocks h ns)"
proof -
  have ok: "heap_ok h" using assms by (simp add: nodes_live_def)
  obtain p h' where k: "kmalloc tid n h = Inr (p, h')" "heap_ok h'"
    "if p = 0 then heap_blocks h' = heap_blocks h
     else heap_blocks h p = None \<and> (\<exists>c. unat n \<le> c \<and> heap_blocks h' = (heap_blocks h)(p \<mapsto> c))"
    using kh.alloc_spec [OF ok, of tid n] by (elim exE conjE)
  show ?thesis
  proof (cases "p = 0")
    case True
    then have "heap_blocks h' = heap_blocks h" using k(3) by simp
    then have "nodes_live h' ns" "rest_blocks h' ns = rest_blocks h ns" using k(2) assms by (simp_all add: nodes_live_def rest_blocks_def)
    then show ?thesis using k(1) True by simp
  next
    case False
    then obtain c where c: "heap_blocks h p = None" "heap_blocks h' = (heap_blocks h)(p \<mapsto> c)" using k(3) by (simp only: if_False) blast
    then have "p \<notin> set ns" using assms by (auto simp: nodes_live_def)
    moreover have "set ns \<subseteq> dom (heap_blocks h) - {0}" "distinct ns" using assms by (simp_all add: nodes_live_def)
    ultimately have "nodes_live h' (p # ns)" using k(2) c(2) False unfolding nodes_live_def by auto
    moreover have "rest_blocks h' (p # ns) = rest_blocks h ns"
      using c by (auto simp: rest_blocks_def restrict_map_def fun_eq_iff)
    ultimately show ?thesis using k(1) False by simp
  qed
qed

lemma nodes_free:
  assumes "nodes_live h (p # ns)"
  shows "\<exists>h'. kfree p h = Inr h' \<and> nodes_live h' ns \<and> rest_blocks h' ns = rest_blocks h (p # ns)"
proof -
  have ok: "heap_ok h" "p \<in> dom (heap_blocks h)" using assms by (auto simp: nodes_live_def)
  obtain h' where k: "kfree p h = Inr h'" "heap_ok h'" "heap_blocks h' = (heap_blocks h)(p := None)"
    using kh.dealloc_spec [OF ok] by (elim exE conjE)
  have "nodes_live h' ns" using assms k(2,3) by (auto simp: nodes_live_def)
  moreover have "rest_blocks h' ns = rest_blocks h (p # ns)"
    using k(3) by (auto simp: rest_blocks_def restrict_map_def fun_eq_iff)
  ultimately show ?thesis using k(1) by blast
qed

lemma nodes_free_all:
  "nodes_live h (map fst vs @ ms) \<Longrightarrow>
   \<exists>h'. fold_res (\<lambda>v h. kfree (fst v) h) vs h = Inr h' \<and> nodes_live h' ms \<and> rest_blocks h' ms = rest_blocks h (map fst vs @ ms)"
proof (induction vs arbitrary: h)
  case (Cons v vs)
  then have "nodes_live h (fst v # map fst vs @ ms)" by simp
  from nodes_free [OF this] obtain h1 where h1: "kfree (fst v) h = Inr h1" "nodes_live h1 (map fst vs @ ms)"
    "rest_blocks h1 (map fst vs @ ms) = rest_blocks h (map fst (v # vs) @ ms)" by auto
  then show ?case using Cons.IH [OF h1(2)] by auto
qed simp

lemma nodes_perm:
  assumes "mset ns = mset ms"
  shows "nodes_live h ns \<longleftrightarrow> nodes_live h ms" "rest_blocks h ns = rest_blocks h ms"
  using mset_eq_setD [OF assms] mset_eq_imp_distinct_iff [OF assms] by (simp_all add: nodes_live_def rest_blocks_def)

definition record_nodes :: "task_conf \<Rightarrow> u64 list" where
  "record_nodes conf = map fst (tc_tasks conf) @ map fst (tc_directives conf)"

definition records_ok :: "task_conf \<Rightarrow> bool" where
  "records_ok conf \<longleftrightarrow> nodes_live (tc_heap conf) (record_nodes conf)"

definition unowned_blocks :: "task_conf \<Rightarrow> u64 \<Rightarrow> nat option" where
  "unowned_blocks conf = rest_blocks (tc_heap conf) (record_nodes conf)"

text \<open>What parsing leaves alone.\<close>

definition same_setup :: "task_conf \<Rightarrow> task_conf \<Rightarrow> bool" where
  "same_setup conf conf' \<longleftrightarrow> tc_files conf' = tc_files conf \<and> tc_purpose conf' = tc_purpose conf \<and>
     tc_initialized conf' = tc_initialized conf \<and> tc_parsed conf' = tc_parsed conf \<and>
     tc_tests_started conf' = tc_tests_started conf \<and> tc_started_cpus conf' = tc_started_cpus conf"

lemma same_setup_refl [simp]: "same_setup conf conf"
  by (simp add: same_setup_def)

lemma same_setup_trans: "same_setup a b \<Longrightarrow> same_setup b c \<Longrightarrow> same_setup a c"
  by (simp add: same_setup_def)

text \<open>The result of an operation that keeps records and blocks in order.\<close>

definition keeps :: "task_conf \<Rightarrow> task_conf \<Rightarrow> bool" where
  "keeps conf conf' \<longleftrightarrow> records_ok conf' \<and> unowned_blocks conf' = unowned_blocks conf \<and> same_setup conf conf'"

lemma keeps_trans: "keeps a b \<Longrightarrow> keeps b c \<Longrightarrow> keeps a c"
  by (auto simp: keeps_def intro: same_setup_trans)

lemma keeps_self: "records_ok conf \<Longrightarrow> keeps conf conf"
  by (simp add: keeps_def)

lemma alloc_record:
  assumes "records_ok conf"
  shows "\<exists>p h. kmalloc tid n (tc_heap conf) = Inr (p, h) \<and>
    (if p = 0 then keeps conf (conf\<lparr>tc_heap := h\<rparr>)
     else (\<forall>t. keeps conf (conf\<lparr>tc_heap := h, tc_tasks := tc_tasks conf @ [(p, t)]\<rparr>)) \<and>
          (\<forall>d. keeps conf (conf\<lparr>tc_heap := h, tc_directives := tc_directives conf @ [(p, d)]\<rparr>)) \<and>
          (\<exists>h1. kfree p h = Inr h1 \<and> keeps conf (conf\<lparr>tc_heap := h1\<rparr>)))"
proof -
  let ?ns = "record_nodes conf"
  obtain p h where k: "kmalloc tid n (tc_heap conf) = Inr (p, h)"
    "if p = 0 then nodes_live h ?ns \<and> rest_blocks h ?ns = rest_blocks (tc_heap conf) ?ns
     else nodes_live h (p # ?ns) \<and> rest_blocks h (p # ?ns) = rest_blocks (tc_heap conf) ?ns"
    using nodes_alloc [OF assms [unfolded records_ok_def], of tid n] by (elim exE conjE)
  note d = keeps_def records_ok_def unowned_blocks_def same_setup_def
  show ?thesis
  proof (cases "p = 0")
    case True
    then show ?thesis using k by (auto simp: d record_nodes_def)
  next
    case False
    then have l: "nodes_live h (p # ?ns)" "rest_blocks h (p # ?ns) = rest_blocks (tc_heap conf) ?ns" using k(2) by auto
    have "mset (record_nodes (conf\<lparr>tc_heap := h, tc_tasks := tc_tasks conf @ [(p, t)]\<rparr>)) = mset (p # ?ns)"
      "mset (record_nodes (conf\<lparr>tc_heap := h, tc_directives := tc_directives conf @ [(p, e)]\<rparr>)) = mset (p # ?ns)" for t e
      by (simp_all add: record_nodes_def)
    note m = this [THEN nodes_perm(1)] this [THEN nodes_perm(2)]
    obtain h1 where "kfree p h = Inr h1" "nodes_live h1 ?ns" "rest_blocks h1 ?ns = rest_blocks h (p # ?ns)"
      using nodes_free [OF l(1)] by blast
    then show ?thesis using False k(1) l m by (auto simp: d) (auto simp: record_nodes_def)
  qed
qed

section \<open>Field sizes\<close>

definition task_fits :: "task \<Rightarrow> bool" where
  "task_fits t \<longleftrightarrow> 0 \<le> t_cpu_id t \<and> t_cpu_id t \<le> 0x7fffffff \<and> 0 \<le> t_type t \<and> t_type t \<le> 0x7fffffff \<and>
     length (t_module t) + (case t_name t of None \<Rightarrow> 0 | Some n \<Rightarrow> length n + 1) < 64 \<and>
     length (ta_pos (t_args t)) < 256 \<and> length (ta_kv (t_args t)) \<le> 16 \<and>
     (\<Sum>(k, v)\<leftarrow>ta_kv (t_args t). length k + 1 + (length v + 1)) < 256"

definition directive_fits :: "selftest_directive \<Rightarrow> bool" where
  "directive_fits d \<longleftrightarrow> length (d_name d) < 32 \<and> length (d_kvs d) \<le> SELFTEST_MAX_KV \<and>
     (\<forall>(k, v)\<in>set (d_kvs d). length k < 32 \<and> length v < 32)"

definition conf_fits :: "task_conf \<Rightarrow> bool" where
  "conf_fits conf \<longleftrightarrow> (\<forall>t\<in>snd ` set (tc_tasks conf). task_fits t) \<and> (\<forall>d\<in>snd ` set (tc_directives conf). directive_fits d)"

lemma dec_loop_range:
  "dec_loop p val = Some (v, rest) \<Longrightarrow> 0 \<le> val \<Longrightarrow> val \<le> 0x7fffffff \<Longrightarrow> 0 \<le> v \<and> v \<le> 0x7fffffff"
proof (induction p val rule: dec_loop.induct)
  case (2 c cs val)
  show ?case
  proof (cases "is_digit c")
    case True
    let ?d = "of_char c - 48 :: int"
    have d: "0 \<le> ?d" "?d \<le> 9" using True by (auto simp: is_digit_def)
    have n: "\<not> val > (0x7fffffff - ?d) div 10" "dec_loop cs (val * 10 + ?d) = Some (v, rest)"
      using "2.prems"(1) True by (auto simp: Let_def split: if_splits)
    have "(0x7fffffff - ?d) div 10 * 10 \<le> 0x7fffffff - ?d" using div_mult_mod_eq [of "0x7fffffff - ?d" 10] pos_mod_sign [of 10 "0x7fffffff - ?d"] by linarith
    then have "val * 10 + ?d \<le> 0x7fffffff" using n(1) by linarith
    then show ?thesis using "2.IH" [OF True refl n(1) n(2)] d "2.prems"(2) by simp
  next
    case False
    then show ?thesis using "2.prems" by simp
  qed
qed auto

lemma parse_dec_range: "parse_dec p = Some (v, rest) \<Longrightarrow> 0 \<le> v \<and> v \<le> 0x7fffffff"
  using dec_loop_range [of "skip_spaces p" 0 v rest] by (auto simp: parse_dec_def Let_def split: if_splits option.splits)

lemma token_loop_fits: "token_loop room dest p = (s, rest) \<Longrightarrow> length s \<le> length dest + room"
proof (induction room dest p rule: token_loop.induct)
  case (2 room dest c cs)
  then show ?case by (cases room) (auto split: if_splits)
qed simp

lemma parse_string_fits: "parse_string n p = Some (s, rest) \<Longrightarrow> length s \<le> n - 1"
  using token_loop_fits [of "n - 1" "[]" "skip_spaces p"]
  by (auto simp: parse_string_def Let_def split: if_splits prod.splits)

text \<open>The buffers of the arguments, in the invariant of the loop that fills them.\<close>

definition args_fit :: "task_args \<Rightarrow> bool" where
  "args_fit a \<longleftrightarrow> length (ta_pos a) < 256 \<and> length (ta_kv a) \<le> 16 \<and> ta_kv_used a < 256 \<and>
     ta_kv_used a = (\<Sum>(k, v)\<leftarrow>ta_kv a. length k + 1 + (length v + 1))"

lemma add_token_fits: "args_fit a \<Longrightarrow> args_fit (add_token 256 256 16 token a)"
  by (auto simp: args_fit_def add_token_def split: option.splits)

lemma args_loop_fits: "args_fit a \<Longrightarrow> pm = 256 \<Longrightarrow> km = 256 \<Longrightarrow> kc = 16 \<Longrightarrow> args_fit (snd (args_loop pm km kc p a))"
proof (induction pm km kc p a rule: args_loop.induct)
  case (1 pm km kc p a)
  let ?p1 = "skip_spaces p"
  obtain token rest where t: "next_token ?p1 = (token, rest)" by fastforce
  show ?case
  proof (cases "p = [] \<or> is_line_end (hd p) \<or> ?p1 = [] \<or> is_line_end (hd ?p1)")
    case True
    then show ?thesis using "1.prems" by (subst args_loop.simps) (auto simp: Let_def)
  next
    case False
    then have "args_fit (snd (args_loop pm km kc rest (add_token pm km kc token a)))"
      using "1.IH" [OF _ refl _ t [symmetric] refl] "1.prems" add_token_fits by simp
    then show ?thesis using False t by (subst args_loop.simps) (simp add: Let_def)
  qed
qed

lemma separate_name_length:
  "separate_name info = (module, name) \<Longrightarrow> length module + (case name of None \<Rightarrow> 0 | Some n \<Rightarrow> length n + 1) = length info"
proof -
  assume s: "separate_name info = (module, name)"
  have "length info = length (takeWhile (\<lambda>c. c \<noteq> CHR '':'') info) + length (dropWhile (\<lambda>c. c \<noteq> CHR '':'') info)"
    by (metis length_append takeWhile_dropWhile_id)
  then show ?thesis using s by (auto simp: separate_name_def Let_def split: if_splits)
qed

lemma parse_task_fits:
  assumes "parse_task p = Some (t, rest)"
  shows "task_fits t"
proof -
  obtain cpu p1 info p2 type p3 magic p4 where
    p: "parse_dec p = Some (cpu, p1)" "parse_string 64 p1 = Some (info, p2)" "parse_dec p2 = Some (type, p3)"
       "parse_hex p3 = Some (magic, p4)" "t = \<lparr>t_cpu_id = cpu, t_module = fst (separate_name info), t_name = snd (separate_name info),
         t_type = type, t_magic = magic, t_args = snd (parse_args 256 256 16 p4)\<rparr>"
    using assms by (auto simp: parse_task_def Let_def split: option.splits prod.splits)
  have "args_fit (snd (parse_args 256 256 16 p4))"
    unfolding parse_args_def by (rule args_loop_fits) (simp_all add: args_fit_def)
  then show ?thesis using parse_dec_range [OF p(1)] parse_dec_range [OF p(3)] parse_string_fits [OF p(2)]
      separate_name_length [of info "fst (separate_name info)" "snd (separate_name info)"]
    by (simp add: p(5) task_fits_def args_fit_def)
qed

lemma kv_loop_fits:
  assumes "kv_loop p kvs = Some (kvs', rest)" "length kvs \<le> SELFTEST_MAX_KV" "\<forall>(k, v)\<in>set kvs. length k < 32 \<and> length v < 32"
  shows "length kvs' \<le> SELFTEST_MAX_KV \<and> (\<forall>(k, v)\<in>set kvs'. length k < 32 \<and> length v < 32)"
  using assms
proof (induction p kvs rule: kv_loop.induct)
  case (1 p kvs)
  let ?p1 = "skip_spaces p"
  show ?case
  proof (cases "?p1 = [] \<or> is_line_end (hd ?p1) \<or> hd ?p1 = CHR ''#''")
    case True
    then show ?thesis using "1.prems" by (subst (asm) kv_loop.simps) (auto simp: Let_def)
  next
    case False
    then obtain token q key val where q: "parse_string 64 ?p1 = Some (token, q)" "split_eq token = Some (key, val)"
      "\<not> length kvs \<ge> SELFTEST_MAX_KV" "kv_loop q (kvs @ [(take 31 key, take 31 val)]) = Some (kvs', rest)"
      using "1.prems"(1) by (subst (asm) kv_loop.simps) (auto simp: Let_def split: option.splits if_splits)
    have l: "length (kvs @ [(take 31 key, take 31 val)]) \<le> SELFTEST_MAX_KV" using q(3) by simp
    have s: "\<forall>(k, v)\<in>set (kvs @ [(take 31 key, take 31 val)]). length k < 32 \<and> length v < 32"
      using "1.prems"(3) by (simp add: min_less_iff_disj)
    show ?thesis by (rule "1.IH" [OF refl False q(1) refl q(2) refl q(3,4) l s])
  qed
qed

section \<open>Parsing in every case\<close>

lemma add_directive_keeps:
  assumes "records_ok conf"
  shows "\<exists>ret conf'. task_conf_add_directive_ctx tid d conf = Inr (ret, conf') \<and> keeps conf conf' \<and>
    tc_tasks conf' = tc_tasks conf \<and> snd ` set (tc_directives conf') \<subseteq> insert d (snd ` set (tc_directives conf))"
proof -
  obtain p h where k: "kmalloc tid DIRECTIVE_SIZE (tc_heap conf) = Inr (p, h)"
    and c: "if p = 0 then keeps conf (conf\<lparr>tc_heap := h\<rparr>)
     else (\<forall>t. keeps conf (conf\<lparr>tc_heap := h, tc_tasks := tc_tasks conf @ [(p, t)]\<rparr>)) \<and>
          (\<forall>d. keeps conf (conf\<lparr>tc_heap := h, tc_directives := tc_directives conf @ [(p, d)]\<rparr>)) \<and>
          (\<exists>h1. kfree p h = Inr h1 \<and> keeps conf (conf\<lparr>tc_heap := h1\<rparr>))"
    using alloc_record [OF assms, of tid DIRECTIVE_SIZE] by (elim exE conjE)
  show ?thesis
  proof (cases "p = 0")
    case True
    then show ?thesis using k c keeps_self [OF assms] by (auto simp: task_conf_add_directive_ctx_def)
  next
    case False
    then have "keeps conf (conf\<lparr>tc_heap := h, tc_directives := tc_directives conf @ [(p, d)]\<rparr>)" using c by simp
    then show ?thesis using False k keeps_self [OF assms] by (auto simp: task_conf_add_directive_ctx_def)
  qed
qed

text \<open>A directive changes at most the policy for missing modules, unless it is a test.\<close>

lemma parse_directive_cases:
  "(\<exists>r. parse_directive tid p conf = Inr (r, conf)) \<or>
   (\<exists>r b. parse_directive tid p conf = Inr (r, conf\<lparr>tc_module_missing_panic := b\<rparr>)) \<or>
   (\<exists>q. parse_directive tid p conf = parse_test_directive tid q conf)"
proof (cases "parse_string 32 p")
  case (Some x)
  obtain name p1 where x: "x = (name, p1)" by (cases x)
  consider "name = ''@version''" | "name \<noteq> ''@version''" "name = ''@test''" | "name \<noteq> ''@version''" "name \<noteq> ''@test''" by blast
  then show ?thesis
  proof cases
    case 1
    then show ?thesis using Some x by (cases "parse_string 32 p1") (simp_all add: parse_directive_def Let_def split: prod.split)
  next
    case 2
    then show ?thesis using Some x by (auto simp: parse_directive_def)
  next
    case 3
    have "parse_directive tid p conf = (if name = ''@module_missing'' then
            (case parse_string 16 p1 of
               None \<Rightarrow> Inr (None, conf)
             | Some (val, p2) \<Rightarrow>
                 if val = ''panic'' then Inr (Some p2, conf\<lparr>tc_module_missing_panic := True\<rparr>)
                 else if val = ''skip'' then Inr (Some p2, conf\<lparr>tc_module_missing_panic := False\<rparr>)
                 else Inr (None, conf))
          else Inr (None, conf))" using Some x 3 by (simp add: parse_directive_def)
    then show ?thesis by (cases "parse_string 16 p1") (simp_all split: prod.split, blast)
  qed
qed (simp add: parse_directive_def)

lemma parse_directive_keeps:
  assumes "records_ok conf" "conf_fits conf"
  shows "\<exists>r conf'. parse_directive tid p conf = Inr (r, conf') \<and> keeps conf conf' \<and> conf_fits conf'"
proof -
  have t: "\<exists>r conf'. parse_test_directive tid q conf = Inr (r, conf') \<and> keeps conf conf' \<and> conf_fits conf'" for q
  proof (cases "\<exists>name q1 kvs q2. parse_string 32 q = Some (name, q1) \<and> kv_loop q1 [] = Some (kvs, q2)")
    case True
    then obtain name q1 kvs q2 where q: "parse_string 32 q = Some (name, q1)" "kv_loop q1 [] = Some (kvs, q2)" by blast
    let ?d = "\<lparr>d_name = name, d_kvs = kvs, d_module_id = - 1\<rparr>"
    obtain ret conf' where c: "task_conf_add_directive_ctx tid ?d conf = Inr (ret, conf')" "keeps conf conf'"
      "tc_tasks conf' = tc_tasks conf" "snd ` set (tc_directives conf') \<subseteq> insert ?d (snd ` set (tc_directives conf))"
      using add_directive_keeps [OF assms(1), of tid ?d] by blast
    have d: "directive_fits ?d" using parse_string_fits [OF q(1)] kv_loop_fits [OF q(2)] by (simp add: directive_fits_def)
    have "directive_fits e" if "e \<in> snd ` set (tc_directives conf')" for e
      using subsetD [OF c(4) that] d assms(2) unfolding conf_fits_def by blast
    then have "conf_fits conf'" using assms(2) unfolding conf_fits_def c(3) by blast
    then show ?thesis using c(1,2) q by (simp add: parse_test_directive_def)
  next
    case False
    then have "parse_test_directive tid q conf = Inr (None, conf)" by (auto simp: parse_test_directive_def split: option.splits)
    then show ?thesis using assms keeps_self by blast
  qed
  have "keeps conf (conf\<lparr>tc_module_missing_panic := b\<rparr>)" "conf_fits (conf\<lparr>tc_module_missing_panic := b\<rparr>)" for b
    using assms by (simp_all add: keeps_def records_ok_def unowned_blocks_def record_nodes_def same_setup_def conf_fits_def)
  note m = this
  from parse_directive_cases [of tid p conf] show ?thesis
  proof (elim disjE exE)
    show ?thesis if "parse_directive tid p conf = Inr (r, conf)" for r
      using that assms(2) keeps_self [OF assms(1)] by blast
    show ?thesis if "parse_directive tid p conf = Inr (r, conf\<lparr>tc_module_missing_panic := b\<rparr>)" for r b
      using that m by blast
    show ?thesis if "parse_directive tid p conf = parse_test_directive tid q conf" for q
      using t [of q] unfolding that .
  qed
qed

lemma conf_loop_keeps:
  "records_ok conf \<Longrightarrow> conf_fits conf \<Longrightarrow>
   \<exists>ret conf'. conf_loop tid p conf = Inr (ret, conf') \<and> ret \<in> {0, - 1} \<and> keeps conf conf' \<and> conf_fits conf'"
proof (induction tid p conf rule: conf_loop.induct)
  case (1 tid p conf)
  let ?p1 = "skip_spaces p"
  note self = keeps_self [OF "1.prems"(1)]
  consider (stop) "?p1 = []" | (nl) "?p1 \<noteq> []" "is_line_end (hd ?p1)" | (comment) "?p1 \<noteq> []" "\<not> is_line_end (hd ?p1)" "hd ?p1 = CHR ''#''"
    | (directive) "?p1 \<noteq> []" "\<not> is_line_end (hd ?p1)" "hd ?p1 \<noteq> CHR ''#''" "hd ?p1 = CHR ''@''"
    | (line) "?p1 \<noteq> []" "\<not> is_line_end (hd ?p1)" "hd ?p1 \<noteq> CHR ''#''" "hd ?p1 \<noteq> CHR ''@''" by blast
  then show ?case
  proof cases
    case stop
    then show ?thesis using self "1.prems" by (subst conf_loop.simps) (simp add: Let_def)
  next
    case nl
    then show ?thesis using "1.IH"(1) [OF refl nl] "1.prems" by (subst conf_loop.simps) (simp add: Let_def)
  next
    case comment
    then show ?thesis using "1.IH"(2) [OF refl comment] "1.prems" by (subst conf_loop.simps) (simp add: Let_def)
  next
    case directive
    obtain r conf1 where d: "parse_directive tid ?p1 conf = Inr (r, conf1)" "keeps conf conf1" "conf_fits conf1"
      using parse_directive_keeps [OF "1.prems"] by blast
    then have "records_ok conf1" by (simp add: keeps_def)
    then show ?thesis using "1.IH"(3) [OF refl directive d(1) refl, of _] directive d keeps_trans [OF d(2)]
      by (subst conf_loop.simps) (auto simp: Let_def split: option.splits)
  next
    case line
    obtain a h where k: "kmalloc tid TASK_SIZE (tc_heap conf) = Inr (a, h)"
      "if a = 0 then keeps conf (conf\<lparr>tc_heap := h\<rparr>)
       else (\<forall>t. keeps conf (conf\<lparr>tc_heap := h, tc_tasks := tc_tasks conf @ [(a, t)]\<rparr>)) \<and>
          (\<forall>d. keeps conf (conf\<lparr>tc_heap := h, tc_directives := tc_directives conf @ [(a, d)]\<rparr>)) \<and>
          (\<exists>h1. kfree a h = Inr h1 \<and> keeps conf (conf\<lparr>tc_heap := h1\<rparr>))"
      using alloc_record [OF "1.prems"(1), of tid TASK_SIZE] by (elim exE conjE)
    have f: "conf_fits (conf\<lparr>tc_heap := h\<rparr>)" for h using "1.prems"(2) by (simp add: conf_fits_def)
    show ?thesis
    proof (cases "a = 0 \<or> parse_task ?p1 = None")
      case True
      then show ?thesis using line k f by (subst conf_loop.simps) (auto simp: Let_def)
    next
      case False
      then obtain t rest where t: "parse_task ?p1 = Some (t, rest)" "a \<noteq> 0" by auto
      let ?c = "conf\<lparr>tc_heap := h, tc_tasks := tc_tasks conf @ [(a, t)]\<rparr>"
      have kc: "keeps conf ?c" using k(2) t(2) by simp
      moreover have "conf_fits ?c" using parse_task_fits [OF t(1)] "1.prems"(2) by (auto simp: conf_fits_def)
      ultimately obtain ret conf' where "conf_loop tid (skip_line rest) ?c = Inr (ret, conf')" "ret \<in> {0, - 1}" "keeps ?c conf'" "conf_fits conf'"
        using "1.IH"(4) [OF refl line k(1) refl t(2) t(1) refl] by (auto simp: keeps_def)
      then show ?thesis using line k(1) t keeps_trans [OF kc] by (subst conf_loop.simps) (simp add: Let_def)
    qed
  qed
qed

lemma clear_records_spec:
  assumes "records_ok conf"
  shows "\<exists>h. clear_records conf = Inr (conf\<lparr>tc_tasks := [], tc_directives := [], tc_heap := h\<rparr>) \<and>
    heap_ok h \<and> heap_blocks h = unowned_blocks conf"
proof -
  let ?ds = "map fst (tc_directives conf)"
  obtain h1 where h1: "fold_res (\<lambda>v h. kfree (fst v) h) (tc_tasks conf) (tc_heap conf) = Inr h1" "nodes_live h1 ?ds"
    "rest_blocks h1 ?ds = unowned_blocks conf"
    using nodes_free_all [OF assms [unfolded records_ok_def record_nodes_def]] by (auto simp: unowned_blocks_def record_nodes_def)
  have "nodes_live h1 (?ds @ [])" using h1(2) by simp
  from nodes_free_all [OF this] obtain h2 where h2: "fold_res (\<lambda>v h. kfree (fst v) h) (tc_directives conf) h1 = Inr h2"
    "nodes_live h2 []" "rest_blocks h2 [] = rest_blocks h1 (?ds @ [])" by blast
  have "heap_ok h2" using h2(2) by (simp add: nodes_live_def)
  moreover have "heap_blocks h2 = unowned_blocks conf" using h2(3) h1(3) by (simp add: rest_blocks_def restrict_map_def)
  ultimately show ?thesis using h1(1) h2(1) by (intro exI [of _ h2]) (simp add: clear_records_def)
qed

section \<open>Reading back what was written\<close>

lemma digit_char_10: "d < 10 \<Longrightarrow> is_digit (digit_char upper d) \<and> (of_char (digit_char upper d) :: int) = 48 + int d"
proof -
  have "\<forall>upper\<in>set [True, False]. \<forall>d\<in>set [0..<10]. is_digit (digit_char upper d) \<and> (of_char (digit_char upper d) :: int) = 48 + int d"
    by code_simp
  then show "d < 10 \<Longrightarrow> is_digit (digit_char upper d) \<and> (of_char (digit_char upper d) :: int) = 48 + int d"
    by (cases upper) auto
qed

lemma digit_char_16: "d < 16 \<Longrightarrow> hex_value (digit_char False d) = Some (of_nat d)"
proof -
  have "\<forall>d\<in>set [0..<16]. hex_value (digit_char False d) = Some (of_nat d)" by code_simp
  then show "d < 16 \<Longrightarrow> hex_value (digit_char False d) = Some (of_nat d)" by simp
qed

lemma number_step: "2 \<le> base \<Longrightarrow> base \<le> n \<Longrightarrow> number base upper n = number base upper (n div base) @ [digit_char upper (n mod base)]"
  by (simp add: number_def nat_digits.simps [of base n])

lemma number_small: "n < base \<Longrightarrow> number base upper n = [digit_char upper n]"
  by (simp add: number_def nat_digits.simps [of base n])

lemma dec_loop_digit:
  assumes "d < 10" "n * 10 + d \<le> 0x7fffffff"
  shows "dec_loop (digit_char False d # cs) (int n) = dec_loop cs (int (n * 10 + d))"
proof -
  have "int n * 10 div 10 \<le> (0x7fffffff - int d) div 10" using assms(2) by (intro zdiv_mono1) simp_all
  then have "\<not> int n > (0x7fffffff - int d) div 10" by simp
  then show ?thesis using digit_char_10 [OF assms(1), of False] by (simp add: Let_def algebra_simps)
qed

lemma dec_loop_number: "n \<le> 0x7fffffff \<Longrightarrow> dec_loop (number 10 False n @ cs) 0 = dec_loop cs (int n)"
proof (induction n arbitrary: cs rule: less_induct)
  case (less n)
  show ?case
  proof (cases "n < 10")
    case True
    then show ?thesis using dec_loop_digit [of n 0 cs] by (simp add: number_small)
  next
    case False
    then have "dec_loop (number 10 False n @ cs) 0 = dec_loop (digit_char False (n mod 10) # cs) (int (n div 10))"
      using less.IH [of "n div 10" "digit_char False (n mod 10) # cs"] less.prems by (simp add: number_step)
    also have "\<dots> = dec_loop cs (int n)" using dec_loop_digit [of "n mod 10" "n div 10" cs] less.prems by simp
    finally show ?thesis .
  qed
qed

lemma hex_loop_digit:
  assumes "d < 16" "n * 16 + d < 2 ^ 64"
  shows "hex_loop (digit_char False d # cs) (of_nat n) = hex_loop cs (of_nat (n * 16 + d))"
proof -
  have n: "n < 2 ^ 60" using assms(2) by simp
  have d: "(ucast (of_nat d :: u32) :: u64) = of_nat d"
    using assms(1) by (simp add: word_unat_eq_iff unsigned_of_nat take_bit_nat_eq_self)
  have "unat (- 1 - of_nat d :: u64) = 2 ^ 64 - 1 - d"
    using assms(1) unat_sub [OF word_n1_ge, of "of_nat d :: u64"]
    by (simp add: unsigned_of_nat take_bit_nat_eq_self unsigned_minus_1_eq_mask mask_eq_exp_minus_1)
  then have "unat ((- 1 - of_nat d :: u64) div 16) = (2 ^ 64 - 1 - d) div 16" by (simp add: unat_div)
  moreover have "unat (of_nat n :: u64) = n" using n by (simp add: unsigned_of_nat take_bit_nat_eq_self)
  moreover have "n \<le> (2 ^ 64 - 1 - d) div 16" using assms(2) by (simp add: less_eq_div_iff_mult_less_eq)
  ultimately have "\<not> (of_nat n :: u64) > (- 1 - of_nat d) div 16" by (simp add: word_less_nat_alt not_less)
  then show ?thesis using digit_char_16 [OF assms(1)] d by (simp add: algebra_simps)
qed

lemma hex_loop_number: "n < 2 ^ 64 \<Longrightarrow> hex_loop (number 16 False n @ cs) 0 = hex_loop cs (of_nat n)"
proof (induction n arbitrary: cs rule: less_induct)
  case (less n)
  show ?case
  proof (cases "n < 16")
    case True
    then show ?thesis using hex_loop_digit [of n 0 cs] by (simp add: number_small)
  next
    case False
    then have "hex_loop (number 16 False n @ cs) 0 = hex_loop (digit_char False (n mod 16) # cs) (of_nat (n div 16))"
      using less.IH [of "n div 16" "digit_char False (n mod 16) # cs"] less.prems by (simp add: number_step)
    also have "\<dots> = hex_loop cs (of_nat n)" using hex_loop_digit [of "n mod 16" "n div 16" cs] less.prems by simp
    finally show ?thesis .
  qed
qed

text \<open>
  A task as a line of text: fields separated by a blank or a tab, numbers as \<open>%u\<close> and
  \<open>0x%lx\<close> print them, arguments in quotes if they contain a blank.
\<close>

definition task_info :: "task \<Rightarrow> string" where
  "task_info t = t_module t @ (case t_name t of None \<Rightarrow> [] | Some n \<Rightarrow> CHR '':'' # n)"

definition token_text :: "string \<Rightarrow> string" where
  "token_text w = (if list_ex is_space w then CHR ''\"'' # w @ [CHR ''\"''] else w)"

definition line_text :: "char \<Rightarrow> task \<times> string list \<Rightarrow> string" where
  "line_text sep l = (case l of (t, ws) \<Rightarrow>
     number 10 False (nat (t_cpu_id t)) @ sep # task_info t @ sep # number 10 False (nat (t_type t)) @
     sep # ''0x'' @ number 16 False (unat (t_magic t)) @ concat (map (\<lambda>w. sep # token_text w) ws) @ [NL])"

fun join_blank :: "string list \<Rightarrow> string" where
  "join_blank [] = []"
| "join_blank [w] = w"
| "join_blank (w # ws) = w @ CHR '' '' # join_blank ws"

definition args_of :: "string list \<Rightarrow> task_args" where
  "args_of ws = (let kvs = map (\<lambda>w. the (split_eq w)) (filter (\<lambda>w. CHR ''='' \<in> set w) ws) in
     \<lparr>ta_pos = join_blank (filter (\<lambda>w. CHR ''='' \<notin> set w) ws), ta_kv = kvs,
      ta_kv_used = (\<Sum>(k, v)\<leftarrow>kvs. length k + length v + 2)\<rparr>)"

definition line_ok :: "task \<times> string list \<Rightarrow> bool" where
  "line_ok l = (case l of (t, ws) \<Rightarrow>
     0 \<le> t_cpu_id t \<and> t_cpu_id t \<le> 0x7fffffff \<and> 0 \<le> t_type t \<and> t_type t \<le> 0x7fffffff \<and>
     t_module t \<noteq> [] \<and> CHR '':'' \<notin> set (t_module t) \<and> length (task_info t) < 64 \<and>
     (\<forall>c\<in>set (task_info t). \<not> is_space c \<and> \<not> is_line_end c) \<and>
     (\<forall>w\<in>set ws. w \<noteq> [] \<and> CHR ''\"'' \<notin> set w \<and> (\<forall>c\<in>set w. \<not> is_line_end c)) \<and>
     t_args t = args_of ws \<and> length (ta_pos (args_of ws)) < 255 \<and> length (ta_kv (args_of ws)) \<le> 16 \<and> ta_kv_used (args_of ws) < 256)"

lemma join_blank_snoc: "join_blank (ws @ [w]) = (if ws = [] then w else join_blank ws @ CHR '' '' # w)"
proof (induction ws rule: join_blank.induct)
  case (3 w1 w2 ws)
  then show ?case by simp
qed simp_all

lemma join_blank_Nil: "\<forall>w\<in>set ws. w \<noteq> [] \<Longrightarrow> join_blank ws = [] \<longleftrightarrow> ws = []"
  by (cases ws rule: join_blank.cases) auto

lemma join_blank_length: "length (join_blank ws) \<le> length (join_blank (ws @ vs))"
proof (induction vs rule: rev_induct)
  case (snoc v vs)
  then show ?case using join_blank_snoc [of "ws @ vs" v] by (auto split: if_splits)
qed simp

lemma args_of_length:
  "length (ta_pos (args_of ws)) \<le> length (ta_pos (args_of (ws @ vs)))"
  "length (ta_kv (args_of ws)) \<le> length (ta_kv (args_of (ws @ vs)))"
  "ta_kv_used (args_of ws) \<le> ta_kv_used (args_of (ws @ vs))"
  using join_blank_length by (simp_all add: args_of_def Let_def)

lemma add_token_args_of:
  assumes "\<forall>v\<in>set ws. v \<noteq> []" "length (ta_pos (args_of (ws @ [w]))) < 255" "length (ta_kv (args_of (ws @ [w]))) \<le> 16"
    "ta_kv_used (args_of (ws @ [w])) < 256"
  shows "add_token 256 256 16 w (args_of ws) = args_of (ws @ [w])"
proof (cases "CHR ''='' \<in> set w")
  case True
  then obtain k v where "split_eq w = Some (k, v)" by (simp add: split_eq_def)
  then show ?thesis using assms(3,4) True by (simp add: add_token_def args_of_def Let_def)
next
  case False
  let ?ps = "filter (\<lambda>w. CHR ''='' \<notin> set w) ws"
  have e: "join_blank ?ps = [] \<longleftrightarrow> ?ps = []" using assms(1) by (intro join_blank_Nil) auto
  have "split_eq w = None" using False by (simp add: split_eq_def)
  moreover have "length (join_blank ?ps) + length w + 1 \<le> 255"
    using assms(2) False by (simp add: args_of_def Let_def join_blank_snoc split: if_splits)
  ultimately show ?thesis using False e by (simp add: add_token_def args_of_def Let_def join_blank_snoc)
qed

lemma takeWhile_stop: "(\<forall>c\<in>set w. P c) \<Longrightarrow> q \<noteq> [] \<Longrightarrow> \<not> P (hd q) \<Longrightarrow> takeWhile P (w @ q) = w \<and> dropWhile P (w @ q) = q"
  by (cases q) (simp_all add: takeWhile_append2 dropWhile_append2)

lemma skip_spaces_id: "p = [] \<or> \<not> is_space (hd p) \<Longrightarrow> skip_spaces p = p"
  by (cases p) auto

lemma next_token_text:
  assumes "w \<noteq> []" "CHR ''\"'' \<notin> set w" "\<forall>c\<in>set w. \<not> is_line_end c" "q \<noteq> []" "is_space (hd q) \<or> is_line_end (hd q)"
  shows "next_token (token_text w @ q) = (w, q)" "skip_spaces (token_text w @ q) = token_text w @ q"
    "token_text w @ q \<noteq> []" "\<not> is_line_end (hd (token_text w @ q))"
proof -
  have b: "is_space (CHR ''\"'') = False" "is_line_end (CHR ''\"'') = False" by code_simp+
  obtain c cs where w: "w = c # cs" using assms(1) by (cases w) auto
  show "next_token (token_text w @ q) = (w, q)"
  proof (cases "list_ex is_space w")
    case True
    have "takeWhile (in_token True) (w @ CHR ''\"'' # q) = w \<and> dropWhile (in_token True) (w @ CHR ''\"'' # q) = CHR ''\"'' # q"
      using assms(2,3) b by (intro takeWhile_stop) (auto simp: in_token_def)
    moreover have "\<not> in_token True CHR ''\"''" by (simp add: in_token_def)
    ultimately show ?thesis using True by (simp add: next_token_def token_text_def Let_def)
  next
    case False
    have "takeWhile (in_token False) (w @ q) = w \<and> dropWhile (in_token False) (w @ q) = q"
      using assms(3-5) False by (intro takeWhile_stop) (auto simp: in_token_def list_ex_iff)
    moreover have "hd (w @ q) \<noteq> CHR ''\"''" using assms(2) w by auto
    ultimately show ?thesis using False by (simp add: next_token_def token_text_def Let_def)
  qed
  show "skip_spaces (token_text w @ q) = token_text w @ q"
    using b w by (intro skip_spaces_id) (auto simp: token_text_def)
  show "token_text w @ q \<noteq> []" "\<not> is_line_end (hd (token_text w @ q))" using b w assms(3) by (auto simp: token_text_def)
qed

lemma args_loop_tokens:
  assumes "is_space sep" "\<forall>w\<in>set (vs @ ws). w \<noteq> [] \<and> CHR ''\"'' \<notin> set w \<and> (\<forall>c\<in>set w. \<not> is_line_end c)"
    "length (ta_pos (args_of (vs @ ws))) < 255" "length (ta_kv (args_of (vs @ ws))) \<le> 16" "ta_kv_used (args_of (vs @ ws)) < 256"
  shows "args_loop 256 256 16 (concat (map (\<lambda>w. sep # token_text w) ws) @ NL # rest) (args_of vs) = (NL # rest, args_of (vs @ ws))"
  using assms(2-)
proof (induction ws arbitrary: vs)
  case Nil
  have "is_line_end NL" by (simp add: is_line_end_def)
  then show ?case by (subst args_loop.simps) simp
next
  case (Cons w ws)
  let ?q = "concat (map (\<lambda>w. sep # token_text w) ws) @ NL # rest"
  have q: "?q \<noteq> []" "is_space (hd ?q) \<or> is_line_end (hd ?q)"
    using assms(1) by (auto simp: is_line_end_def hd_append) (cases ws; simp)
  have w: "w \<noteq> []" "CHR ''\"'' \<notin> set w" "\<forall>c\<in>set w. \<not> is_line_end c" using Cons.prems(1) by auto
  note n = next_token_text [OF w q]
  have "\<not> is_line_end sep" using assms(1) by (auto simp: is_space_def is_line_end_def TAB_def NL_def CR_def NUL_def)
  then have "args_loop 256 256 16 ((sep # token_text w) @ ?q) (args_of vs) = args_loop 256 256 16 ?q (add_token 256 256 16 w (args_of vs))"
    using assms(1) n by (subst args_loop.simps) (simp add: Let_def)
  moreover have "add_token 256 256 16 w (args_of vs) = args_of (vs @ [w])"
    using Cons.prems args_of_length [of "vs @ [w]" ws] by (intro add_token_args_of) auto
  moreover have "args_loop 256 256 16 ?q (args_of (vs @ [w])) = (NL # rest, args_of ((vs @ [w]) @ ws))"
    using Cons.prems by (intro Cons.IH) auto
  ultimately show ?case by simp
qed

lemma token_loop_word:
  "\<forall>c\<in>set s. \<not> is_space c \<and> \<not> is_line_end c \<Longrightarrow> length s \<le> room \<Longrightarrow> q \<noteq> [] \<Longrightarrow> is_space (hd q) \<or> is_line_end (hd q) \<Longrightarrow>
   token_loop room dest (s @ q) = (dest @ s, q)"
proof (induction s arbitrary: room dest)
  case Nil
  then show ?case by (cases q) auto
qed auto

lemma parse_string_word:
  assumes "s \<noteq> []" "\<forall>c\<in>set s. \<not> is_space c \<and> \<not> is_line_end c" "length s < n" "q \<noteq> []" "is_space (hd q) \<or> is_line_end (hd q)"
  shows "parse_string n (s @ q) = Some (s, q)" "is_space sep \<Longrightarrow> parse_string n (sep # s @ q) = Some (s, q)"
proof -
  have "skip_spaces (s @ q) = s @ q" using assms(1,2) by (simp add: skip_spaces_id)
  moreover have "token_loop (n - 1) [] (s @ q) = (s, q)" using token_loop_word [of s "n - 1" q "[]"] assms by simp
  ultimately show "parse_string n (s @ q) = Some (s, q)" "is_space sep \<Longrightarrow> parse_string n (sep # s @ q) = Some (s, q)"
    using assms(1,5) by (auto simp: parse_string_def Let_def)
qed

lemma number_chars:
  assumes "base \<in> {10, 16}"
  shows "number base False n \<noteq> []" "\<forall>c\<in>set (number base False n). \<not> is_space c \<and> \<not> is_line_end c \<and> c \<noteq> CHR ''#'' \<and> c \<noteq> CHR ''@''"
proof -
  show "number base False n \<noteq> []" by (simp add: number_def)
  have "\<forall>d\<in>set [0..<16]. \<not> is_space (digit_char False d) \<and> \<not> is_line_end (digit_char False d) \<and>
      digit_char False d \<noteq> CHR ''#'' \<and> digit_char False d \<noteq> CHR ''@''" by code_simp
  moreover have "d < 16" if "d \<in> set (nat_digits base n)" for d
    using nat_digits_less [of base d n] that assms by auto
  ultimately show "\<forall>c\<in>set (number base False n). \<not> is_space c \<and> \<not> is_line_end c \<and> c \<noteq> CHR ''#'' \<and> c \<noteq> CHR ''@''"
    by (auto simp: number_def)
qed

lemma skip_number: "skip_spaces (number 10 False n @ q) = number 10 False n @ q"
  using number_chars [of 10 n] by (intro skip_spaces_id) (auto simp: hd_append)

lemma blank_no_digit: "is_space c \<Longrightarrow> \<not> is_digit c \<and> hex_value c = None" "\<not> is_digit NL \<and> hex_value NL = None"
proof -
  have "\<forall>c\<in>set [CHR '' '', TAB, NL]. \<not> is_digit c \<and> hex_value c = None" by code_simp
  then show "is_space c \<Longrightarrow> \<not> is_digit c \<and> hex_value c = None" "\<not> is_digit NL \<and> hex_value NL = None"
    by (auto simp: is_space_def)
qed

lemma parse_dec_number:
  assumes "n \<le> 0x7fffffff" "q \<noteq> []" "is_space (hd q)"
  shows "parse_dec (number 10 False n @ q) = Some (int n, q)" "is_space sep \<Longrightarrow> parse_dec (sep # number 10 False n @ q) = Some (int n, q)"
proof -
  have "dec_loop q (int n) = Some (int n, q)" using assms(2) blank_no_digit(1) [OF assms(3)] by (cases q) auto
  then have "dec_loop (number 10 False n @ q) 0 = Some (int n, q)" using dec_loop_number [OF assms(1)] by simp
  moreover have "number 10 False n @ q \<noteq> []" "number 10 False n @ q \<noteq> q" using number_chars(1) [of 10 n] by auto
  ultimately show "parse_dec (number 10 False n @ q) = Some (int n, q)" "is_space sep \<Longrightarrow> parse_dec (sep # number 10 False n @ q) = Some (int n, q)"
    using skip_number [of n q] by (auto simp: parse_dec_def Let_def)
qed

lemma parse_hex_number:
  assumes "is_space sep" "q \<noteq> []" "is_space (hd q) \<or> hd q = NL"
  shows "parse_hex (sep # ''0x'' @ number 16 False (unat v) @ q) = Some (v, q)"
proof -
  have v: "unat v < 2 ^ 64" using unsigned_less [of v, where ?'a = nat] by simp
  have "hex_loop q v = Some (v, q)" using assms(2,3) blank_no_digit by (cases q) auto
  then have "hex_loop (number 16 False (unat v) @ q) 0 = Some (v, q)" using hex_loop_number [OF v] by simp
  moreover have "number 16 False (unat v) @ q \<noteq> q" using number_chars(1) [of 16] by auto
  moreover have "skip_spaces (sep # ''0x'' @ number 16 False (unat v) @ q) = ''0x'' @ number 16 False (unat v) @ q"
    using assms(1) by (simp add: is_space_def TAB_def)
  ultimately show ?thesis by (simp add: parse_hex_def Let_def)
qed

lemma separate_info:
  assumes "CHR '':'' \<notin> set (t_module t)"
  shows "separate_name (task_info t) = (t_module t, t_name t)"
proof (cases "t_name t")
  case None
  have "takeWhile (\<lambda>c. c \<noteq> CHR '':'') (t_module t) = t_module t" "dropWhile (\<lambda>c. c \<noteq> CHR '':'') (t_module t) = []"
    using assms by (auto simp: takeWhile_eq_all_conv)
  then show ?thesis using None by (simp add: separate_name_def task_info_def Let_def)
next
  case (Some n)
  have "takeWhile (\<lambda>c. c \<noteq> CHR '':'') (t_module t @ CHR '':'' # n) = t_module t \<and> dropWhile (\<lambda>c. c \<noteq> CHR '':'') (t_module t @ CHR '':'' # n) = CHR '':'' # n"
    using assms by (intro takeWhile_stop) auto
  then show ?thesis using Some by (simp add: separate_name_def task_info_def Let_def)
qed

lemma parse_task_line:
  assumes "is_space sep" "line_ok (t, ws)"
  shows "parse_task (line_text sep (t, ws) @ rest) = Some (t, NL # rest)"
proof -
  let ?args = "concat (map (\<lambda>w. sep # token_text w) ws) @ NL # rest"
  let ?p3 = "sep # ''0x'' @ number 16 False (unat (t_magic t)) @ ?args"
  let ?p2 = "sep # number 10 False (nat (t_type t)) @ ?p3"
  let ?p1 = "sep # task_info t @ ?p2"
  note ok = assms(2) [unfolded line_ok_def prod.case]
  have l: "line_text sep (t, ws) @ rest = number 10 False (nat (t_cpu_id t)) @ ?p1" by (simp add: line_text_def)
  have n: "nat (t_cpu_id t) \<le> 0x7fffffff" "int (nat (t_cpu_id t)) = t_cpu_id t" "nat (t_type t) \<le> 0x7fffffff" "int (nat (t_type t)) = t_type t"
    using ok by (simp_all add: nat_le_iff)
  have "parse_dec (line_text sep (t, ws) @ rest) = Some (t_cpu_id t, ?p1)"
    unfolding l using parse_dec_number(1) [OF n(1), of ?p1] n(2) assms(1) by simp
  moreover have "parse_string 64 ?p1 = Some (task_info t, ?p2)"
    using ok assms(1) by (intro parse_string_word(2)) (auto simp: task_info_def)
  moreover have "parse_dec ?p2 = Some (t_type t, ?p3)"
    using parse_dec_number(2) [OF n(3), of ?p3 sep] n(4) assms(1) by simp
  moreover have "parse_hex ?p3 = Some (t_magic t, ?args)"
    using assms(1) by (intro parse_hex_number) (auto simp: hd_append, cases ws, simp_all)
  moreover have "parse_args 256 256 16 ?args = (NL # rest, t_args t)"
  proof -
    have "args_of [] = \<lparr>ta_pos = [], ta_kv = [], ta_kv_used = 0\<rparr>" by (simp add: args_of_def Let_def)
    moreover have "t_args t = args_of ws" "\<forall>w\<in>set ws. w \<noteq> [] \<and> CHR ''\"'' \<notin> set w \<and> (\<forall>c\<in>set w. \<not> is_line_end c)"
      "length (ta_pos (args_of ws)) < 255" "length (ta_kv (args_of ws)) \<le> 16" "ta_kv_used (args_of ws) < 256" using ok by simp_all
    ultimately show ?thesis using args_loop_tokens [OF assms(1), of "[]" ws rest] by (simp add: parse_args_def)
  qed
  ultimately show ?thesis using separate_info [of t] ok by (simp add: parse_task_def)
qed

text \<open>
  The lines of a configuration file: blank lines, comments, the policy for missing
  modules, test directives and tasks with their arguments.  The version line comes first.
\<close>

datatype conf_item = Blank | Comment string | Missing bool | Test selftest_directive | Line task "string list"

definition version_line :: "char \<Rightarrow> string" where
  "version_line sep = ''@version'' @ sep # ''1'' @ [NL]"

fun item_text :: "char \<Rightarrow> conf_item \<Rightarrow> string" where
  "item_text sep Blank = [NL]"
| "item_text sep (Comment c) = CHR ''#'' # c @ [NL]"
| "item_text sep (Missing b) = ''@module_missing'' @ sep # (if b then ''panic'' else ''skip'') @ [NL]"
| "item_text sep (Test d) = ''@test'' @ sep # d_name d @ concat (map (\<lambda>(k, v). sep # k @ CHR ''='' # v) (d_kvs d)) @ [NL]"
| "item_text sep (Line t ws) = line_text sep (t, ws)"

definition plain :: "string \<Rightarrow> bool" where
  "plain s \<longleftrightarrow> (\<forall>c\<in>set s. \<not> is_space c \<and> \<not> is_line_end c)"

definition kv_ok :: "string \<times> string \<Rightarrow> bool" where
  "kv_ok kv = (case kv of (k, v) \<Rightarrow> plain k \<and> plain v \<and> length k < 32 \<and> length v < 32 \<and> CHR ''='' \<notin> set k \<and> hd (k @ ''='') \<noteq> CHR ''#'')"

definition directive_ok :: "selftest_directive \<Rightarrow> bool" where
  "directive_ok d \<longleftrightarrow> d_name d \<noteq> [] \<and> plain (d_name d) \<and> length (d_name d) < 32 \<and> length (d_kvs d) \<le> SELFTEST_MAX_KV \<and>
     list_all kv_ok (d_kvs d) \<and> d_module_id d = - 1"

text \<open>Test directives are allowed in two kinds of configuration only.\<close>

fun item_ok :: "task_conf_purpose \<Rightarrow> conf_item \<Rightarrow> bool" where
  "item_ok purpose Blank = True"
| "item_ok purpose (Comment c) = (NL \<notin> set c)"
| "item_ok purpose (Missing b) = True"
| "item_ok purpose (Test d) = (directive_ok d \<and> purpose \<in> {TASK_CONF_TEST, TASK_CONF_COMPAT})"
| "item_ok purpose (Line t ws) = line_ok (t, ws)"

text \<open>What the lines ask for: the blocks of the records, the records, and the policy.\<close>

fun is_record :: "conf_item \<Rightarrow> bool" where
  "is_record (Test d) = True"
| "is_record (Line t ws) = True"
| "is_record _ = False"

fun record_size :: "conf_item \<Rightarrow> u64" where
  "record_size (Test d) = DIRECTIVE_SIZE"
| "record_size _ = TASK_SIZE"

definition item_tasks :: "(u64 \<times> conf_item) list \<Rightarrow> (u64 \<times> task) list" where
  "item_tasks rs = concat (map (\<lambda>(p, i). case i of Line t ws \<Rightarrow> [(p, t)] | _ \<Rightarrow> []) rs)"

definition item_directives :: "(u64 \<times> conf_item) list \<Rightarrow> (u64 \<times> selftest_directive) list" where
  "item_directives rs = concat (map (\<lambda>(p, i). case i of Test d \<Rightarrow> [(p, d)] | _ \<Rightarrow> []) rs)"

definition item_policy :: "conf_item list \<Rightarrow> bool \<Rightarrow> bool" where
  "item_policy is b = foldl (\<lambda>b i. case i of Missing b' \<Rightarrow> b' | _ \<Rightarrow> b) b is"

lemma skip_line_to: "NL \<notin> set c \<Longrightarrow> skip_line (c @ NL # q) = q"
  by (induction c) auto

lemma char_facts: "\<not> is_space CHR ''#''" "\<not> is_line_end CHR ''#''" "\<not> is_space CHR ''@''" "\<not> is_line_end CHR ''@''" "\<not> is_space NL" "is_line_end NL"
  "CHR ''#'' \<noteq> NL" "CHR ''@'' \<noteq> NL"
  by code_simp+

lemma conf_loop_blank: "conf_loop tid (NL # q) conf = conf_loop tid q conf"
  using char_facts by (subst conf_loop.simps) simp

lemma conf_loop_comment: "NL \<notin> set c \<Longrightarrow> conf_loop tid (CHR ''#'' # c @ NL # q) conf = conf_loop tid q conf"
  using char_facts skip_line_to [of c q] by (subst conf_loop.simps) simp

lemma conf_loop_directive:
  assumes "parse_directive tid (CHR ''@'' # p) conf = Inr (Some (NL # q), conf')"
  shows "conf_loop tid (CHR ''@'' # p) conf = conf_loop tid q conf'"
  using char_facts assms by (subst conf_loop.simps) simp

lemma plain_words: "plain ''@version''" "plain ''1''" "plain ''@module_missing''" "plain ''panic''" "plain ''skip''" "plain ''@test''"
  by code_simp+

lemmas parse_word = parse_string_word [folded plain_def]

lemma parse_version:
  assumes "is_space sep"
  shows "parse_directive tid (version_line sep @ q) conf = Inr (Some (NL # q), conf)"
proof -
  have "parse_string 32 (''@version'' @ sep # ''1'' @ NL # q) = Some (''@version'', sep # ''1'' @ NL # q)"
    using assms plain_words by (intro parse_word(1)) simp_all
  moreover have "parse_string 32 (sep # ''1'' @ NL # q) = Some (''1'', NL # q)"
    using assms plain_words char_facts by (intro parse_word(2)) simp_all
  ultimately show ?thesis using char_facts by (simp add: parse_directive_def version_line_def)
qed

lemma parse_missing:
  assumes "is_space sep"
  shows "parse_directive tid (item_text sep (Missing b) @ q) conf = Inr (Some (NL # q), conf\<lparr>tc_module_missing_panic := b\<rparr>)"
proof -
  let ?w = "if b then ''panic'' else ''skip''"
  have "parse_string 32 (''@module_missing'' @ sep # ?w @ NL # q) = Some (''@module_missing'', sep # ?w @ NL # q)"
    using assms plain_words by (intro parse_word(1)) simp_all
  moreover have "parse_string 16 (sep # ?w @ NL # q) = Some (?w, NL # q)"
    using assms plain_words char_facts by (intro parse_word(2)) simp_all
  ultimately show ?thesis by (simp add: parse_directive_def)
qed

lemma kv_loop_pairs:
  assumes "is_space sep" "list_all kv_ok kvs" "length acc + length kvs \<le> SELFTEST_MAX_KV"
  shows "kv_loop (concat (map (\<lambda>(k, v). sep # k @ CHR ''='' # v) kvs) @ NL # q) acc = Some (acc @ kvs, NL # q)"
  using assms(2,3)
proof (induction kvs arbitrary: acc)
  case Nil
  then show ?case using char_facts by (subst kv_loop.simps) simp
next
  case (Cons kv kvs)
  obtain k v where kv: "kv = (k, v)" by (cases kv)
  let ?r = "concat (map (\<lambda>(k, v). sep # k @ CHR ''='' # v) kvs) @ NL # q" and ?w = "k @ CHR ''='' # v"
  have ok: "plain k" "plain v" "length k < 32" "length v < 32" "CHR ''='' \<notin> set k" "hd (k @ ''='') \<noteq> CHR ''#''"
    using Cons.prems(1) kv by (simp_all add: kv_ok_def)
  have e: "\<not> is_space CHR ''=''" "\<not> is_line_end CHR ''=''" by code_simp+
  have w: "plain ?w" using ok(1,2) e by (auto simp: plain_def)
  have hw: "hd (?w @ ?r) \<noteq> CHR ''#''" "\<not> is_space (hd (?w @ ?r))" "\<not> is_line_end (hd (?w @ ?r))"
    using ok(1,6) e by (cases k; auto simp: plain_def)+
  have s: "skip_spaces (sep # ?w @ ?r) = ?w @ ?r" using assms(1) hw(2) by (simp add: skip_spaces_id)
  have "?r \<noteq> []" "is_space (hd ?r) \<or> is_line_end (hd ?r)"
    using assms(1) char_facts by (cases kvs; auto)+
  then have p: "parse_string 64 (?w @ ?r) = Some (?w, ?r)" using w ok(3,4) by (intro parse_word(1)) simp_all
  have "takeWhile (\<lambda>c. c \<noteq> CHR ''='') ?w = k \<and> dropWhile (\<lambda>c. c \<noteq> CHR ''='') ?w = CHR ''='' # v"
    using ok(5) by (intro takeWhile_stop) auto
  then have sp: "split_eq ?w = Some (k, v)" by (simp add: split_eq_def)
  have "kv_loop (sep # ?w @ ?r) acc = kv_loop ?r (acc @ [(k, v)])"
    using s hw p sp ok(3,4) Cons.prems(2) by (subst kv_loop.simps) (simp add: Let_def)
  also have "\<dots> = Some ((acc @ [(k, v)]) @ kvs, NL # q)" using Cons.prems by (intro Cons.IH) simp_all
  finally show ?case using kv by simp
qed

lemma parse_test:
  assumes "is_space sep" "directive_ok d" "tc_initialized conf" "tc_purpose conf \<in> {TASK_CONF_TEST, TASK_CONF_COMPAT}"
    and "kmalloc tid DIRECTIVE_SIZE (tc_heap conf) = Inr (p, h)" "p \<noteq> 0"
  shows "parse_directive tid (item_text sep (Test d) @ q) conf =
    Inr (Some (NL # q), conf\<lparr>tc_heap := h, tc_directives := tc_directives conf @ [(p, d)]\<rparr>)"
proof -
  let ?kvs = "concat (map (\<lambda>(k, v). sep # k @ CHR ''='' # v) (d_kvs d)) @ NL # q"
  have ok: "d_name d \<noteq> []" "plain (d_name d)" "length (d_name d) < 32" "length (d_kvs d) \<le> SELFTEST_MAX_KV"
    "list_all kv_ok (d_kvs d)" "d_module_id d = - 1" using assms(2) by (simp_all add: directive_ok_def)
  have k: "?kvs \<noteq> []" "is_space (hd ?kvs) \<or> is_line_end (hd ?kvs)" using assms(1) char_facts by (cases "d_kvs d"; auto)+
  have "parse_string 32 (''@test'' @ sep # d_name d @ ?kvs) = Some (''@test'', sep # d_name d @ ?kvs)"
    using assms(1) plain_words by (intro parse_word(1)) simp_all
  moreover have "parse_string 32 (sep # d_name d @ ?kvs) = Some (d_name d, ?kvs)"
    using assms(1) ok(1-3) k by (intro parse_word(2))
  moreover have "kv_loop ?kvs [] = Some (d_kvs d, NL # q)" using kv_loop_pairs [OF assms(1) ok(5), of "[]" q] ok(4) by simp
  moreover have "\<lparr>d_name = d_name d, d_kvs = d_kvs d, d_module_id = - 1\<rparr> = d" using ok(6) by simp
  ultimately show ?thesis using assms(3-6)
    by (auto simp: parse_directive_def parse_test_directive_def task_conf_add_directive_ctx_def)
qed

lemma conf_loop_line:
  assumes "is_space sep" "line_ok (t, ws)" "kmalloc tid TASK_SIZE (tc_heap conf) = Inr (p, h)" "p \<noteq> 0"
  shows "conf_loop tid (line_text sep (t, ws) @ q) conf = conf_loop tid q (conf\<lparr>tc_heap := h, tc_tasks := tc_tasks conf @ [(p, t)]\<rparr>)"
proof -
  let ?num = "number 10 False (nat (t_cpu_id t))"
  define inp where "inp = line_text sep (t, ws) @ q"
  have t: "parse_task inp = Some (t, NL # q)" using parse_task_line [OF assms(1,2)] by (simp add: inp_def)
  obtain r where r: "inp = ?num @ r" by (simp add: inp_def line_text_def)
  have "hd inp \<in> set ?num" "inp \<noteq> []" "skip_spaces inp = inp"
    using number_chars(1) [of 10 "nat (t_cpu_id t)"] skip_number unfolding r by (auto simp: hd_append)
  then have "conf_loop tid inp conf = conf_loop tid q (conf\<lparr>tc_heap := h, tc_tasks := tc_tasks conf @ [(p, t)]\<rparr>)"
    using number_chars(2) [of 10 "nat (t_cpu_id t)"] assms(3,4) t by (subst conf_loop.simps) (simp add: Let_def)
  then show ?thesis by (simp add: inp_def)
qed

lemma conf_loop_items:
  assumes "is_space sep" "\<forall>i\<in>set is. item_ok (tc_purpose conf) i" "tc_initialized conf"
    and "alloc_all (kmalloc tid) (map record_size (filter is_record is)) (tc_heap conf) = Inr (ps, h)" "0 \<notin> set ps"
  shows "conf_loop tid (concat (map (item_text sep) is)) conf = Inr (0, conf\<lparr>tc_heap := h,
    tc_tasks := tc_tasks conf @ item_tasks (zip ps (filter is_record is)),
    tc_directives := tc_directives conf @ item_directives (zip ps (filter is_record is)),
    tc_module_missing_panic := item_policy is (tc_module_missing_panic conf)\<rparr>)"
  using assms(2-)
proof (induction "is" arbitrary: conf ps)
  case Nil
  then show ?case by (subst conf_loop.simps) (simp add: item_tasks_def item_directives_def item_policy_def)
next
  case (Cons i "is")
  let ?q = "concat (map (item_text sep) is)"
  note defs = item_tasks_def item_directives_def item_policy_def
  show ?case
  proof (cases i)
    case Blank
    then show ?thesis using conf_loop_blank [of tid ?q conf] Cons.IH [of conf ps] Cons.prems by (simp add: defs)
  next
    case (Comment c)
    then show ?thesis using conf_loop_comment [of c tid ?q conf] Cons.IH [of conf ps] Cons.prems by (simp add: defs)
  next
    case (Missing b)
    let ?c = "conf\<lparr>tc_module_missing_panic := b\<rparr>"
    have "conf_loop tid (item_text sep i @ ?q) conf = conf_loop tid ?q ?c"
      using conf_loop_directive [of tid _ conf ?q ?c] parse_missing [OF assms(1), of tid b ?q conf] Missing by simp
    then show ?thesis using Cons.IH [of ?c ps] Cons.prems Missing by (simp add: defs)
  next
    case (Test d)
    obtain p h1 qs where k: "kmalloc tid DIRECTIVE_SIZE (tc_heap conf) = Inr (p, h1)" "ps = p # qs"
      "alloc_all (kmalloc tid) (map record_size (filter is_record is)) h1 = Inr (qs, h)"
      using Cons.prems(3) Test by (auto elim!: bind_res_InrE)
    let ?c = "conf\<lparr>tc_heap := h1, tc_directives := tc_directives conf @ [(p, d)]\<rparr>"
    have "parse_directive tid (item_text sep (Test d) @ ?q) conf = Inr (Some (NL # ?q), ?c)"
      using Cons.prems Test k by (intro parse_test [OF assms(1)]) auto
    then have "conf_loop tid (item_text sep i @ ?q) conf = conf_loop tid ?q ?c"
      using conf_loop_directive [of tid _ conf ?q ?c] Test by simp
    then show ?thesis using Cons.IH [of ?c qs] Cons.prems k Test by (simp add: defs)
  next
    case (Line t ws)
    obtain p h1 qs where k: "kmalloc tid TASK_SIZE (tc_heap conf) = Inr (p, h1)" "ps = p # qs"
      "alloc_all (kmalloc tid) (map record_size (filter is_record is)) h1 = Inr (qs, h)"
      using Cons.prems(3) Line by (auto elim!: bind_res_InrE)
    let ?c = "conf\<lparr>tc_heap := h1, tc_tasks := tc_tasks conf @ [(p, t)]\<rparr>"
    have "conf_loop tid (item_text sep i @ ?q) conf = conf_loop tid ?q ?c"
      using conf_loop_line [OF assms(1), of t ws tid conf p h1 ?q] Cons.prems Line k by simp
    then show ?thesis using Cons.IH [of ?c qs] Cons.prems k Line by (simp add: defs)
  qed
qed

section \<open>Properties\<close>

text \<open>
  (C35) A configuration reads back as it was written.  The file starts with the version line;
  then come blank lines, comments, the policy for missing modules, test directives and
  tasks, in any order, with the fields in their ranges, the separator a blank or a tab, and
  arguments that fit their buffers.  Parsing succeeds and appends exactly these tasks and
  directives, in order, each in its own block: for a task the processor, module and entry
  name, type, magic number, the positional arguments joined by blanks and the key and value
  pairs; for a directive its name and pairs.  The last policy line wins.  Memory for the
  records is assumed.
\<close>
theorem task_conf_reads_back:
  assumes "is_space sep" "\<forall>i\<in>set is. item_ok (tc_purpose conf) i"
    and "file_text mem f = version_line sep @ concat (map (item_text sep) is)"
    and "tc_initialized conf" "\<not> tc_parsed conf" "tc_files conf = Some (bf_source f)"
    and "valid_view (bf_data f) (bf_size f)" "bf_size f \<noteq> 0"
    and "alloc_all (kmalloc tid) (map record_size (filter is_record is)) (tc_heap conf) = Inr (ps, h)" "0 \<notin> set ps"
  shows "task_conf_parse_ctx tid mem (Some f) conf = Inr (0, conf\<lparr>tc_heap := h,
    tc_tasks := tc_tasks conf @ item_tasks (zip ps (filter is_record is)),
    tc_directives := tc_directives conf @ item_directives (zip ps (filter is_record is)),
    tc_module_missing_panic := item_policy is (tc_module_missing_panic conf),
    tc_config_path := bf_path f, tc_parsed := True\<rparr>)"
proof -
  have "conf_loop tid (version_line sep @ concat (map (item_text sep) is)) conf = conf_loop tid (concat (map (item_text sep) is)) conf"
    using conf_loop_directive [of tid _ conf] parse_version [OF assms(1), of tid "concat (map (item_text sep) is)" conf]
    by (simp add: version_line_def)
  moreover have "\<not> bf_size f > 0x7fffffff" "\<not> bf_data f > - 1 - bf_size f" "bf_data f \<noteq> 0"
    using assms(7) by (auto simp: valid_view_def not_less)
  ultimately show ?thesis using assms conf_loop_items [OF assms(1,2,4,9,10)]
    by (simp add: task_conf_parse_ctx_def task_conf_parse_v1_ctx_def)
qed

text \<open>
  (C36) Parsing is all or nothing, for any file contents.  It always returns.  If it fails,
  because of the text or for lack of memory, the configuration has no records, is not marked
  as parsed, and the heap has the blocks it had before.  If it succeeds, the configuration is
  marked as parsed, and destroying it before any processor has started frees every record.
\<close>
theorem task_conf_parse_all_or_nothing:
  assumes "tc_tasks conf = []" "tc_directives conf = []" "heap_ok (tc_heap conf)" "tc_started_cpus conf = 0" "\<not> tc_tests_started conf"
  shows "\<exists>ret conf'. task_conf_parse_ctx tid mem fo conf = Inr (ret, conf') \<and>
    (if ret = 0 then tc_parsed conf' \<and>
       (\<exists>conf''. task_conf_destroy_ctx conf' = Inr (0, conf'') \<and> heap_ok (tc_heap conf'') \<and> heap_blocks (tc_heap conf'') = heap_blocks (tc_heap conf))
     else tc_tasks conf' = [] \<and> tc_directives conf' = [] \<and> tc_parsed conf' = tc_parsed conf \<and>
       heap_ok (tc_heap conf') \<and> heap_blocks (tc_heap conf') = heap_blocks (tc_heap conf))"
proof (cases "\<exists>f. fo = Some f \<and> task_conf_parse_ctx tid mem fo conf \<noteq> Inr (- 1, conf)")
  case False
  then have "task_conf_parse_ctx tid mem fo conf = Inr (- 1, conf)"
    by (cases fo) (auto simp: task_conf_parse_ctx_def)
  then show ?thesis using assms by simp
next
  case True
  then obtain f where f: "fo = Some f" "task_conf_parse_ctx tid mem fo conf \<noteq> Inr (- 1, conf)" by blast
  have ok: "records_ok conf" "conf_fits conf" "unowned_blocks conf = heap_blocks (tc_heap conf)"
    using assms(1-3) by (simp_all add: records_ok_def record_nodes_def nodes_live_def conf_fits_def unowned_blocks_def rest_blocks_def restrict_map_def)
  obtain ret c where c: "task_conf_parse_v1_ctx tid mem f conf = Inr (ret, c)" "ret \<in> {0, - 1}" "keeps conf c"
    using conf_loop_keeps [OF ok(1,2)] unfolding task_conf_parse_v1_ctx_def by blast
  have r: "task_conf_parse_ctx tid mem fo conf = (if ret \<noteq> 0
      then bind_res (clear_records c) (\<lambda>c2. Inr (- 1, c2\<lparr>tc_module_missing_panic := False\<rparr>))
      else Inr (0, c\<lparr>tc_config_path := bf_path f, tc_parsed := True\<rparr>))" and i: "tc_initialized conf"
    using f c(1) by (auto simp: task_conf_parse_ctx_def split: if_splits)
  note k = c(3) [unfolded keeps_def same_setup_def]
  show ?thesis
  proof (cases "ret = 0")
    case True
    let ?c = "c\<lparr>tc_config_path := bf_path f, tc_parsed := True\<rparr>"
    have "records_ok ?c" "unowned_blocks ?c = heap_blocks (tc_heap conf)"
      using k ok(3) by (simp_all add: records_ok_def unowned_blocks_def record_nodes_def)
    then show ?thesis using clear_records_spec [of ?c] True r k i assms(4,5)
      by (auto simp: task_conf_destroy_ctx_def zero_conf_def)
  next
    case False
    obtain h where h: "clear_records c = Inr (c\<lparr>tc_tasks := [], tc_directives := [], tc_heap := h\<rparr>)" "heap_ok h"
      "heap_blocks h = unowned_blocks c" using clear_records_spec [of c] k by blast
    let ?c = "c\<lparr>tc_tasks := [], tc_directives := [], tc_heap := h, tc_module_missing_panic := False\<rparr>"
    have "task_conf_parse_ctx tid mem fo conf = Inr (- 1, ?c)" using r h(1) False by simp
    then show ?thesis using h k ok(3) by (intro exI [of _ "- 1"] exI [of _ ?c]) simp
  qed
qed

text \<open>
  (C37) Whatever the text, what a successful parse has stored fits where it is stored: the
  name of a module and its entry in the 64 bytes of \<open>info\<close>, the positional arguments and the
  keys and values, terminators included, in buffers of 256 bytes with at most 16 pairs, the
  names, keys and values of test directives in 32 bytes with at most 8 pairs, and numbers
  that are not negative.
\<close>
theorem task_conf_fields_fit:
  assumes "tc_tasks conf = []" "tc_directives conf = []" "heap_ok (tc_heap conf)"
  shows "\<exists>ret conf'. task_conf_parse_v1_ctx tid mem f conf = Inr (ret, conf') \<and>
    (\<forall>t\<in>snd ` set (tc_tasks conf'). task_fits t) \<and> (\<forall>d\<in>snd ` set (tc_directives conf'). directive_fits d)"
proof -
  have "records_ok conf" "conf_fits conf"
    using assms by (simp_all add: records_ok_def record_nodes_def nodes_live_def conf_fits_def)
  from conf_loop_keeps [OF this, of tid "file_text mem f"] show ?thesis
    unfolding task_conf_parse_v1_ctx_def conf_fits_def by blast
qed

text \<open>
  A file at address 4096: the version line, a comment, the policy, and a task with a name,
  two arguments and one pair.
\<close>

definition task_example :: task where
  "task_example = \<lparr>t_cpu_id = 2, t_module = ''e1000.mo'', t_name = Some ''net'', t_type = 1, t_magic = 0xA,
     t_args = args_of [''fast path'', ''g_idle=1'', ''x'']\<rparr>"

definition items_example :: "conf_item list" where
  "items_example = [Comment ''x'', Missing True, Blank, Line task_example [''fast path'', ''g_idle=1'', ''x'']]"

definition text_example :: string where
  "text_example = ''@version'' @ TAB # ''1'' @ NL # ''#x'' @ NL # ''@module_missing'' @ TAB # ''panic'' @ NL # NL #
     ''2'' @ TAB # ''e1000.mo:net'' @ TAB # ''1'' @ TAB # ''0xa'' @ TAB # CHR ''\"'' # ''fast path'' @
     CHR ''\"'' # TAB # ''g_idle=1'' @ TAB # ''x'' @ [NL]"

definition mem_example :: "u64 \<Rightarrow> u8" where
  "mem_example a = (let i = unat (a - 4096) in if i < length text_example then of_char (text_example ! i) else 0)"

definition set_example :: boot_file_set where
  "set_example = \<lparr>bs_label = [], bs_files = BOOT_FILES_MODULES None\<rparr>"

definition file_example :: boot_file where
  "file_example = \<lparr>bf_data = 4096, bf_size = 81, bf_path = [], bf_source = set_example\<rparr>"

definition conf_example :: task_conf where
  "conf_example = (zero_conf heap_example)\<lparr>tc_files := Some set_example, tc_initialized := True\<rparr>"

lemma text_example_ok:
  "\<forall>i\<in>set items_example. item_ok TASK_CONF_BASE i"
  "version_line TAB @ concat (map (item_text TAB) items_example) = text_example"
  "file_text mem_example file_example = text_example"
  "filter is_record items_example = [Line task_example [''fast path'', ''g_idle=1'', ''x'']]"
  by code_simp+

lemma heap_example_ok2: "heap_ok heap_example"
  using heap_example_inv(1) by (auto simp: heap_ok_def)

lemma heap_example_task: "\<exists>p h. kmalloc 7 TASK_SIZE heap_example = Inr (p, h) \<and> p \<noteq> 0"
proof -
  obtain p h ns where k: "kmalloc 7 TASK_SIZE heap_example = Inr (p, h)"
    "TASK_SIZE \<noteq> 0 \<and> (\<exists>n\<in>set [KHEAP_VBASE]. h_free (kh_hdr heap_example n) \<and>
       unat TASK_SIZE + 63 \<le> unat (h_size (kh_hdr heap_example n))) \<longrightarrow> p \<noteq> 0"
    using kmalloc_spec [OF heap_example_inv(1), of 7 TASK_SIZE] by (elim exE conjE)
  then show ?thesis by (simp add: heap_example_free)
qed

theorem task_conf_reads_back_witness:
  "\<exists>p conf'. task_conf_parse_ctx 7 mem_example (Some file_example) conf_example = Inr (0, conf') \<and> tc_tasks conf' = [(p, task_example)] \<and>
     tc_module_missing_panic conf' \<and> file_text mem_example file_example = text_example"
proof -
  obtain p h where k: "kmalloc 7 TASK_SIZE heap_example = Inr (p, h)" "p \<noteq> 0" using heap_example_task by blast
  have "is_space TAB" by (simp add: is_space_def)
  moreover have "item_policy items_example b" for b by (simp add: item_policy_def items_example_def)
  ultimately show ?thesis
    using task_conf_reads_back [of TAB items_example conf_example mem_example file_example 7 "[p]" h] text_example_ok k
    by (simp add: file_example_def conf_example_def zero_conf_def valid_view_def item_tasks_def)
qed

theorem task_conf_parse_all_or_nothing_witness:
  "\<exists>ret conf'. task_conf_parse_ctx 7 mem_example (Some file_example) conf_example = Inr (ret, conf') \<and>
     heap_ok (tc_heap conf_example)"
  using task_conf_parse_all_or_nothing [of conf_example 7 mem_example "Some file_example"] heap_example_ok2
  by (auto simp: conf_example_def zero_conf_def)

theorem task_conf_fields_fit_witness:
  "\<exists>ret conf'. task_conf_parse_v1_ctx 7 mem_example file_example conf_example = Inr (ret, conf') \<and> heap_ok (tc_heap conf_example)"
  using task_conf_fields_fit [of conf_example 7 mem_example file_example] heap_example_ok2
  by (auto simp: conf_example_def zero_conf_def)

end
