(* ===== verification/Task_Run.thy ===== *)
theory Task_Run
  imports Task_Conf
begin

text \<open>
  Preparing the configured tasks (\<open>kernel/task.c\<close>): the argument vector of a task, the
  arguments of a user task, the lookup of its module, and the initialisation of the
  configuration.  Arguments are strings; the block that holds the argument vector and its
  strings is an address of the heap.  The loop that starts the tasks of a processor is not
  modelled: it hands each task to the loaders of \<open>kernel/elf_loader.c\<close>, which allocate the
  thread and its memory.
\<close>

section \<open>Argument vectors\<close>

abbreviation (input) MAX_ARGS :: nat where "MAX_ARGS \<equiv> 33"

text \<open>The words of the positional arguments; \<open>None\<close> if there are too many.\<close>

function argv_words :: "string \<Rightarrow> string list \<Rightarrow> string list option" where
  "argv_words p argv =
     (let p1 = skip_spaces p in
      if p1 = [] then Some argv
      else if length argv = MAX_ARGS then None
      else argv_words (tl (dropWhile (\<lambda>c. \<not> is_space c) p1)) (argv @ [takeWhile (\<lambda>c. \<not> is_space c) p1]))"
  by pat_completeness auto

termination
proof (relation "measure (\<lambda>(p, _). length p)", simp)
  fix p p1 :: string and argv :: "string list"
  assume p: "p1 = skip_spaces p" "p1 \<noteq> []"
  then obtain c cs where c: "p1 = c # cs" "\<not> is_space c" using skip_spaces_hd [of p] by (cases "skip_spaces p") auto
  have "length (tl (dropWhile (\<lambda>c. \<not> is_space c) p1)) \<le> length cs" using c length_dropWhile_le [of _ cs] by (simp add: le_diff_conv le_SucI)
  then show "((tl (dropWhile (\<lambda>c. \<not> is_space c) p1), argv @ [takeWhile (\<lambda>c. \<not> is_space c) p1]), p, argv) \<in> measure (\<lambda>(p, _). length p)"
    using c skip_spaces_length [of p] p(1) by simp
qed

declare argv_words.simps [simp del]

fun argv_kvs :: "(string \<times> string) list \<Rightarrow> string list \<Rightarrow> string list option" where
  "argv_kvs [] argv = Some argv"
| "argv_kvs ((key, val) # kvs) argv =
     (if length argv = MAX_ARGS then None else argv_kvs kvs (argv @ [key @ CHR ''='' # val]))"

text \<open>A null name is passed to \<open>strlen\<close>.\<close>

definition task_build_argv :: "u64 \<Rightarrow> task \<Rightarrow> kheap \<Rightarrow> ((u64 \<times> string list) option \<times> kheap) res" where
  "task_build_argv tid t h =
     (case t_name t of
        None \<Rightarrow> Inl Undefined
      | Some name \<Rightarrow>
          bind_res (kmalloc tid ((of_nat MAX_ARGS + 1) * 8 + of_nat (length name + 1) + 256 + 256) h) (\<lambda>(argv, h1).
            if argv = 0 then Inr (None, h1)
            else case Option.bind (argv_words (ta_pos (t_args t)) [name]) (argv_kvs (ta_kv (t_args t))) of
                None \<Rightarrow> bind_res (kfree argv h1) (\<lambda>h2. Inr (None, h2))
              | Some args \<Rightarrow> Inr (Some (argv, args), h1)))"

section \<open>Arguments of a user task\<close>

text \<open>A number that starts an argument; a leading zero keeps the default.\<close>

definition user_number :: "string list \<Rightarrow> nat \<Rightarrow> int res" where
  "user_number argv i =
     (if length argv > i \<and> (argv ! i = [] \<or> hd (argv ! i) \<noteq> CHR ''0'')
      then bind_res (number_loop (argv ! i) 0) (\<lambda>(_, n). Inr n)
      else Inr 10)"

text \<open>The strings handed to \<open>create_elf_process\<close>.\<close>

definition user_argv :: "string list \<Rightarrow> string list res" where
  "user_argv argv =
     bind_res (user_number argv 1) (\<lambda>id_val.
     bind_res (user_number argv 2) (\<lambda>code_prefix.
     bind_res (ksprintf False ''id %d'' [VInt (word_of_int id_val)]) (\<lambda>(_, var).
     bind_res (ksprintf False ''%d%d'' [VInt (word_of_int code_prefix), VInt (word_of_int id_val)]) (\<lambda>(_, code).
       Inr [''/bin/user_elf'', the var, the code]))))"

section \<open>Modules and initialisation\<close>

abbreviation (input) TASK_MAX :: int where "TASK_MAX \<equiv> 6"

definition bytes_of :: "string \<Rightarrow> u8 list" where
  "bytes_of s = map of_char s"

definition task_path :: "int \<Rightarrow> string" where
  "task_path type = [''/task/'', ''/task/'', ''/task/'', ''/task/'', ''/data/'', ''/conf/''] ! nat type"

definition find_module :: "task_conf \<Rightarrow> string \<Rightarrow> int \<Rightarrow> (int + boot_file) res" where
  "find_module conf module type =
     (if type < 0 \<or> type \<ge> TASK_MAX \<or> tc_files conf = None then Inr (Inl (- 2))
      else boot_file_lookup_in (tc_files conf) (Some (bytes_of (task_path type))) (Some (bytes_of module)))"

definition task_init_ctx ::
  "u64 \<Rightarrow> (u64 \<Rightarrow> u8) \<Rightarrow> boot_file_set option \<Rightarrow> task_conf_purpose \<Rightarrow> u8 list option \<Rightarrow> task_conf \<Rightarrow> (int \<times> task_conf) res" where
  "task_init_ctx tid mem files purpose config_path conf =
     (let (ret, conf1) = task_conf_init_ctx files purpose conf in
      if ret \<noteq> 0 then Inr (- 1, conf1)
      else bind_res (task_conf_load_ctx tid mem config_path conf1) (\<lambda>(ret2, conf2).
        if ret2 \<noteq> 0 then bind_res (task_conf_destroy_ctx conf2) (\<lambda>(_, conf3). Inr (- 1, conf3))
        else Inr (0, conf2)))"

definition task_init :: "u64 \<Rightarrow> (u64 \<Rightarrow> u8) \<Rightarrow> boot_module list option \<Rightarrow> task_conf \<Rightarrow> (int \<times> task_conf) res" where
  "task_init tid mem modules conf =
     (if tc_initialized conf then Inr (- 1, conf)
      else case boot_files_from_modules (Some (bytes_of ''boot-modules-compat'')) modules of
          None \<Rightarrow> Inr (- 1, conf)
        | Some files \<Rightarrow> task_init_ctx tid mem (Some files) TASK_CONF_COMPAT (Some (bytes_of ''/conf/task.conf'')) conf)"

section \<open>From a line to the arguments\<close>

lemma argv_words_join:
  assumes "\<forall>w\<in>set ws. w \<noteq> [] \<and> (\<forall>c\<in>set w. \<not> is_space c)" "length argv \<le> MAX_ARGS"
  shows "argv_words (join_blank ws) argv = (if length argv + length ws \<le> MAX_ARGS then Some (argv @ ws) else None)"
  using assms
proof (induction ws arbitrary: argv rule: join_blank.induct)
  case 1
  then show ?case by (subst argv_words.simps) simp
next
  case (2 w)
  have s: "skip_spaces w = w" using 2 by (intro skip_spaces_id) (cases w; auto)
  have "dropWhile (\<lambda>c. \<not> is_space c) w = []" "takeWhile (\<lambda>c. \<not> is_space c) w = w" using 2 by simp_all
  note d = this
  have "argv_words w argv = (if length argv = MAX_ARGS then None
      else argv_words (tl (dropWhile (\<lambda>c. \<not> is_space c) w)) (argv @ [takeWhile (\<lambda>c. \<not> is_space c) w]))"
    using 2 s by (subst argv_words.simps) (simp add: Let_def)
  then show ?case using 2 unfolding d by (simp add: argv_words.simps [of "[]"])
next
  case (3 w v vs)
  let ?r = "CHR '' '' # join_blank (v # vs)"
  have s: "skip_spaces (w @ ?r) = w @ ?r" using 3 by (intro skip_spaces_id) (cases w; auto)
  have d: "takeWhile (\<lambda>c. \<not> is_space c) (w @ ?r) = w \<and> dropWhile (\<lambda>c. \<not> is_space c) (w @ ?r) = ?r"
    using 3 by (intro takeWhile_stop) (auto simp: is_space_def)
  have "argv_words (join_blank (w # v # vs)) argv = (if length argv = MAX_ARGS then None else argv_words (join_blank (v # vs)) (argv @ [w]))"
    using s d by (subst argv_words.simps) (simp add: Let_def)
  then show ?case using 3 by auto
qed

lemma argv_kvs_all:
  "length argv \<le> MAX_ARGS \<Longrightarrow> argv_kvs kvs argv =
     (if length argv + length kvs \<le> MAX_ARGS then Some (argv @ map (\<lambda>(k, v). k @ CHR ''='' # v) kvs) else None)"
  by (induction kvs argv rule: argv_kvs.induct) auto

lemma split_eq_join: "CHR ''='' \<in> set w \<Longrightarrow> (case the (split_eq w) of (k, v) \<Rightarrow> k @ CHR ''='' # v) = w"
proof -
  assume m: "CHR ''='' \<in> set w"
  let ?d = "dropWhile (\<lambda>c. c \<noteq> CHR ''='') w"
  have "?d \<noteq> []" using m by auto
  then have "hd ?d = CHR ''=''" using hd_dropWhile [of "\<lambda>c. c \<noteq> CHR ''=''" w] by blast
  then have "?d = CHR ''='' # tl ?d" using \<open>?d \<noteq> []\<close> by (metis list.collapse)
  then show ?thesis using m takeWhile_dropWhile_id [of "\<lambda>c. c \<noteq> CHR ''=''" w] by (simp add: split_eq_def)
qed

section \<open>Properties\<close>

text \<open>
  (C38) What a task line says is what the task receives.  For a task read from a line with
  an entry name and arguments without blanks, the argument vector is the entry name, the
  positional arguments in their order, and the key and value pairs in theirs, each again the
  text of the line; with more than 32 arguments the task is refused and the block is freed.
\<close>
theorem task_line_arguments:
  assumes "line_ok (t, ws)" "t_name t = Some name" "\<forall>w\<in>set ws. \<forall>c\<in>set w. \<not> is_space c"
    and "heap_ok h" "kmalloc tid (785 + of_nat (length name)) h = Inr (p, h1)" "p \<noteq> 0"
  shows "if length ws \<le> 32
    then task_build_argv tid t h =
      Inr (Some (p, name # filter (\<lambda>w. CHR ''='' \<notin> set w) ws @ filter (\<lambda>w. CHR ''='' \<in> set w) ws), h1)
    else \<exists>h2. task_build_argv tid t h = Inr (None, h2) \<and> heap_ok h2 \<and> heap_blocks h2 = heap_blocks h"
proof -
  let ?ps = "filter (\<lambda>w. CHR ''='' \<notin> set w) ws" and ?ks = "filter (\<lambda>w. CHR ''='' \<in> set w) ws"
  note ok = assms(1) [unfolded line_ok_def prod.case]
  have a: "t_args t = args_of ws" "\<forall>w\<in>set ws. w \<noteq> []" using ok by simp_all
  have l: "length ws = length ?ps + length ?ks" using sum_length_filter_compl [of "\<lambda>w. CHR ''='' \<notin> set w" ws] by simp
  have "map (\<lambda>(k, v). k @ CHR ''='' # v) (map (\<lambda>w. the (split_eq w)) ?ks) = ?ks"
    unfolding map_map by (rule map_idI) (auto simp: split_eq_join)
  then have "argv_kvs (ta_kv (t_args t)) argv = (if length argv + length ?ks \<le> MAX_ARGS then Some (argv @ ?ks) else None)"
    if "length argv \<le> MAX_ARGS" for argv
    using argv_kvs_all [OF that, of "ta_kv (t_args t)"] by (simp add: a(1) args_of_def Let_def)
  moreover have "\<forall>w\<in>set ?ps. w \<noteq> [] \<and> (\<forall>c\<in>set w. \<not> is_space c)" using a(2) assms(3) by auto
  from argv_words_join [OF this, of "[name]"]
  have "argv_words (ta_pos (t_args t)) [name] = (if 1 + length ?ps \<le> MAX_ARGS then Some (name # ?ps) else None)"
    by (simp add: a(1) args_of_def Let_def)
  ultimately have b: "Option.bind (argv_words (ta_pos (t_args t)) [name]) (argv_kvs (ta_kv (t_args t))) =
      (if length ws \<le> 32 then Some (name # ?ps @ ?ks) else None)" unfolding l by simp
  have "nodes_live h []" using assms(4) by (simp add: nodes_live_def)
  from nodes_alloc [OF this, of tid "785 + of_nat (length name)"]
  have k: "nodes_live h1 [p]" "rest_blocks h1 [p] = rest_blocks h []" using assms(5,6) by simp_all
  obtain h2 where h2: "kfree p h1 = Inr h2" "nodes_live h2 []" "rest_blocks h2 [] = rest_blocks h1 [p]" using nodes_free [OF k(1)] by blast
  have "heap_ok h2" "heap_blocks h2 = heap_blocks h" using h2(2,3) k(2) by (simp_all add: nodes_live_def rest_blocks_def restrict_map_def)
  then show ?thesis using assms(2,5,6) h2(1) b by (simp add: task_build_argv_def)
qed

text \<open>A task with two arguments and a pair.\<close>

definition run_task :: task where
  "run_task = \<lparr>t_cpu_id = 2, t_module = ''e1000.mo'', t_name = Some ''net'', t_type = 1, t_magic = 0xA,
     t_args = args_of [''fast'', ''g_idle=1'', ''x'']\<rparr>"

lemma run_heap: "\<exists>p h. kmalloc 7 788 heap_example = Inr (p, h) \<and> p \<noteq> 0"
proof -
  obtain p h ns where k: "kmalloc 7 788 heap_example = Inr (p, h)"
    "(788 :: u64) \<noteq> 0 \<and> (\<exists>n\<in>set [KHEAP_VBASE]. h_free (kh_hdr heap_example n) \<and>
       unat (788 :: u64) + 63 \<le> unat (h_size (kh_hdr heap_example n))) \<longrightarrow> p \<noteq> 0"
    using kmalloc_spec [OF heap_example_inv(1), of 7 788] by (elim exE conjE)
  then show ?thesis by (simp add: heap_example_free)
qed

theorem task_line_arguments_witness:
  "\<exists>p h1. task_build_argv 7 run_task heap_example = Inr (Some (p, [''net'', ''fast'', ''x'', ''g_idle=1'']), h1) \<and>
     line_ok (run_task, [''fast'', ''g_idle=1'', ''x''])"
proof -
  obtain p h where k: "kmalloc 7 788 heap_example = Inr (p, h)" "p \<noteq> 0" using run_heap by blast
  have ok: "line_ok (run_task, [''fast'', ''g_idle=1'', ''x''])"
    "\<forall>w\<in>set [''fast'', ''g_idle=1'', ''x'']. \<forall>c\<in>set w. \<not> is_space c" by code_simp+
  have "heap_ok heap_example" using heap_example_ok2 .
  from task_line_arguments [OF ok(1) _ ok(2) this, of "''net''" 7 p h] k ok(1) show ?thesis by (simp add: run_task_def)
qed

end
