(* ===== verification/Spec2Isabelle.thy ===== *)
theory Spec2Isabelle
  imports Pmm_Init Kstring User_Pages Mutex Lafs Task_Run
begin

text \<open>
  A verification development of LaOS, an x86-64 kernel written in C (\<open>kernel/\<close>), together
  with the two Python scripts that build its initial ramdisk (\<open>script/\<close>).  All paths below
  are relative to \<open>src/\<close>.

  \<^bold>\<open>The program.\<close>  The boot loader hands over a memory map and boot files.  The page
  allocator takes the usable memory (\<open>kernel/pmm.c\<close>); page tables (\<open>kernel/vmm.c\<close>) and the
  kernel heap (\<open>kernel/heap.c\<close>) are built on it.  Each processor has a run queue of threads
  (\<open>kernel/arch/x86_64/cpu.c\<close>, \<open>kernel/thread.c\<close>), from which the scheduler
  (\<open>kernel/sched.c\<close>) picks at every tick or voluntary call.  Mutexes with priority
  inheritance (\<open>kernel/mutex.c\<close>) and RCU (\<open>kernel/rcu.c\<close>) synchronise threads.  A thread in
  user mode has a list of regions (\<open>kernel/vma.c\<close>), changed by two system calls and filled
  by page faults.  Files come from the boot modules or the ramdisk
  (\<open>kernel/boot_files.c\<close>, \<open>kernel/cpio.c\<close>) and from a read-only file system on a block
  device (\<open>kernel/lafs.c\<close>).  A configuration file among them says which tasks each
  processor starts (\<open>kernel/task_parser.c\<close>, \<open>kernel/task_conf.c\<close>, \<open>kernel/task.c\<close>).

  \<^bold>\<open>Conventions.\<close>  Machine integers are words of their width, so that overflow is visible.
  A function that can fail returns \<open>'a res\<close>: \<open>Inl\<close> of a panic, of \<open>Diverge\<close> for a loop without
  end, or of \<open>Undefined\<close> for undefined behaviour of C; \<open>Inr\<close> of the result otherwise.  Error
  codes of the sources stay integers or become options.  State is a record that is passed
  on; a section under a lock is one transition.  Loops are recursive functions with a
  termination proof; the few loops that need not end are listed below.
  Messages to the console are dropped.

  \<^bold>\<open>The theories, the sources they model, and what they show.\<close>

  \<^item> \<open>LaOS_Prelude\<close>: integer types, \<open>'a res\<close> with its bind and fold, lemmas on words, lists
    and page arithmetic.  \<open>Paths\<close>: components of paths.
  \<^item> \<open>Pmm\<close> (\<open>kernel/pmm.c\<close>): bitmap, counters, allocation and release.  Allocation is first
    fit, release is its inverse and checks its argument; the counters agree with the bitmap.
    The contract of single pages is the locale \<open>page_provider\<close>.  \<open>Pmm_Init\<close>: the
    initialisation from the boot memory map frees exactly the usable pages.
  \<^item> \<open>Klist\<close> (\<open>kernel/list.h\<close>): the lists at the level of pointers.  Each primitive implements
    an operation on HOL lists, on empty and filled lists alike (locale \<open>intrusive_queue\<close>),
    which is why the other theories use HOL lists; a reader on any node between any two
    stores of an RCU update goes on through the old or the new list.
  \<^item> \<open>Kstring\<close> (\<open>kernel/string.c\<close>): memory and string routines against their specifications.
  \<^item> \<open>Vmm\<close> (\<open>kernel/vmm.c\<close>) and \<open>Vmm_Map\<close>: four-level tables in physical memory.  Mapping,
    remapping and unmapping change the translation of exactly one page, through allocation
    of tables and splitting of large pages, and keep the tree well formed; mapping never
    replaces an existing translation.
  \<^item> \<open>Kheap\<close> (\<open>kernel/heap.c\<close>), \<open>Kheap_Inv\<close>, \<open>Kheap_Contract\<close>: the blocks tile the heap, live
    blocks are disjoint and mapped, freeing merges neighbours; when a run of calls has freed
    all it allocated, one free block is left.  The contract is the locale
    \<open>block_allocator\<close>, interpreted on \<open>kmalloc\<close> and \<open>kfree\<close>; \<open>Vma\<close> and \<open>Task_Conf\<close> are its clients.
  \<^item> \<open>Vma\<close> (\<open>kernel/vma.c\<close>, \<open>do_mmap\<close> and \<open>do_munmap\<close> of \<open>kernel/arch/x86_64/syscall.c\<close>,
    \<open>kernel/arch/x86_64/page_fault.c\<close>) and \<open>User_Pages\<close>: the region list stays sorted and
    disjoint, its nodes are not leaked, pages are given and taken back exactly.
  \<^item> \<open>Rcu\<close> (\<open>kernel/rcu.c\<close>): a step relation over single accesses of readers, ticks, context
    switches and waiters; \<open>synchronize_rcu\<close> waits for every reader that was active before.
    The steps of a tick and of a context switch are shown to compose to the functions of the source.
  \<^item> \<open>Runqueue\<close>, \<open>Sched\<close>, \<open>Thread_Prio\<close> (\<open>kernel/arch/x86_64/cpu.c\<close>, \<open>kernel/sched.c\<close>,
    \<open>kernel/timer.c\<close>, \<open>kernel/thread_idle.c\<close>, \<open>kernel/thread.c\<close>): a run queue implements a list
    sorted by priority (locale \<open>ready_queue\<close>); the scheduler runs a thread of the highest
    priority, equal ones in turn; preemption is deferred, never lost; exited threads are
    reaped; a change of priority moves the thread.
  \<^item> \<open>Mutex\<close> (\<open>kernel/mutex.c\<close>): both lock protocols as step relations; mutual exclusion, exact
    bookkeeping of donated priorities, no lost wake-up.
  \<^item> \<open>Lafs\<close> (\<open>kernel/lafs.c\<close>, \<open>kernel/block_device.c\<close>, \<open>kernel/boot_phase.c\<close>): the file system
    over its one sector buffer; no overrun of the caller's buffer for any disk contents,
    and exact contents for a read within a block.
  \<^item> \<open>Cpio\<close> (\<open>kernel/cpio.c\<close>, \<open>script/mkcpio.py\<close>) and \<open>Boot_Files\<close> (\<open>kernel/boot_files.c\<close>,
    \<open>script/build_initrd.py\<close>): the reader is safe and ends on any archive; it finds what the
    scripts have written.
  \<^item> \<open>Printf\<close> (\<open>kernel/printf.c\<close>): \<open>vsnprintf\<close> against a reference formatter, which shares with
    it the parsing of a conversion and the fetch of its argument, and has its own
    conversion of numbers, padding and layout.
  \<^item> \<open>Task_Conf\<close> (\<open>kernel/task_parser.c\<close>, \<open>kernel/task_conf.c\<close>) and \<open>Task_Run\<close>
    (\<open>kernel/task.c\<close>): a configuration reads back as it was written, directives
    included; for any text the parser returns, overruns no buffer and leaks no record; the
    argument vector of a task has the words and pairs of its line.

  \<^bold>\<open>Loops that need not end.\<close>  The scan for a free block of the heap follows pointers and is a
  partial function; on a well-formed heap it is shown to return.  The page loops of the
  allocator's initialisation have \<open>page_loop_fuel\<close> rounds, two more than an entry has whole
  pages, which is enough unless the loop counter wraps around; the initialisation
  is shown to return on a well-formed memory map.  The traversals of \<open>Klist\<close> take fuel as an argument,
  and their lemmas hold as soon as it exceeds the length of the list.  The reader of
  archives terminates because its cursor advances.  The waits of \<open>synchronize_rcu\<close> and of
  mutexes are states of step relations, so that nothing is assumed about how long they
  last.

  \<^bold>\<open>Assumptions.\<close>  Lock-protected sections and single accesses are atomic and in program order;
  weak memory is not modelled.  Only a holder unlocks a mutex and no thread locks one
  twice; the priorities of the threads that use a mutex are not set by hand meanwhile.  The page-table
  root register agrees with the mirror the code keeps of it.  Boot files are compared
  by value where the sources compare pointers.  The contents of an archive do not
  use the name of its trailer.  The properties of user pages speak about one address space
  at a time.  The reading method of a block device and the validator that the ramdisk script
  calls are arguments of the definitions.

  \<^bold>\<open>Not modelled.\<close>  The ELF loaders and kernel modules (\<open>kernel/elf.c\<close>,
  \<open>kernel/elf_loader.c\<close>, \<open>kernel/module.c\<close>, \<open>kernel/module_alloc.c\<close>, \<open>kernel/ksym.c\<close>), which
  produce machine code, and the loop of \<open>kernel/task.c\<close> that starts the tasks of a processor
  through them; the console, the statistics views and the log, which only draw
  (\<open>kernel/tty.c\<close>, \<open>kernel/font.c\<close>, \<open>kernel/stats.c\<close>, \<open>kernel/monitor.c\<close>, \<open>kernel/log.c\<close>, the
  screen part of \<open>kernel/printf.c\<close>); device drivers (\<open>kernel/pci.c\<close>,
  \<open>kernel/arch/x86_64/virtio_pci.c\<close>, \<open>module/e1000.c\<close>, \<open>module/protocol.c\<close>); descriptor tables,
  interrupt controllers, the system call dispatcher and the start-up sequence
  (\<open>kernel/arch/x86_64/\<close>), which act on processor registers; spin locks, atomics and the
  register switch, which are assembly; tests, user programs, build files and
  the other scripts.
\<close>

end
